(* ===== verification/Prelude.thy ===== *)
theory Prelude
  imports Main "HOL-Library.Word"
begin

text \<open>
  What every component of the development shares: the machine types of the C++ sources, byte
  buffers with bounds-checked reads and writes (an access outside the allocation is a value of the
  model, never an unspecified HOL term), the outcomes of a C++ statement (a value, a C++ exception,
  or the end of the process) and the sequential composition of statements over an explicit state.
\<close>

section \<open>Machine types\<close>

type_synonym byte = "8 word"
type_synonym u32 = "32 word"
type_synonym u64 = "64 word"  \<comment> \<open>\<open>uint64_t\<close> and, on the x86-64 target, \<open>size_t\<close>\<close>

named_theorems buf_simps "reads and writes of byte buffers"
named_theorems cpp_simps "execution of C++ statements"
named_theorems tx_safe_intros "statements that keep the undo log of a transaction complete"

lemma unat_add_no_wrap:
  fixes a b :: "'a::len word"
  assumes "unat a + unat b < 2 ^ LENGTH('a)"
  shows "unat (a + b) = unat a + unat b"
  using assms by (simp add: unat_word_ariths)

lemma unat_sub_no_wrap:
  fixes a b :: "'a::len word"
  assumes "b \<le> a"
  shows "unat (a - b) = unat a - unat b"
  using assms by (rule unat_sub)

lemma unat_u64_less: "unat (w :: u64) < 18446744073709551616"
  using unsigned_less [of w] by simp

lemma unat_of_nat_u64: "n < 18446744073709551616 \<Longrightarrow> unat (of_nat n :: u64) = n"
  by (simp add: unat_of_nat)

text \<open>A 32-bit signed counter that has not passed \<open>INT_MAX\<close>, compared as a \<open>size_t\<close>.\<close>

lemma scast_counter:
  assumes "n < 2 ^ 31"
  shows "(scast (of_nat n :: 32 word) :: u64) = of_nat n"
proof -
  have "sint (of_nat n :: 32 word) = int n"
    using assms by (simp add: sint_uint take_bit_eq_mod signed_take_bit_eq_if_positive bit_iff_odd unat_of_nat uint_nat)
  then show ?thesis by (metis of_int_of_nat_eq scast_eq)
qed

lemma counter_not_max:
  assumes "Suc n < 2 ^ 31"
  shows "(of_nat n :: 32 word) \<noteq> 0x7FFFFFFF"
proof
  assume "(of_nat n :: 32 word) = 0x7FFFFFFF"
  then have "unat (of_nat n :: 32 word) = 2147483647" by simp
  with assms show False by (simp add: unat_of_nat)
qed

lemma unat_ucast_u64: "unat (ucast (w :: u32) :: u64) = unat w"
proof -
  have "unat w < 2 ^ 32" using unsigned_less [of w, where ?'a = nat] by simp
  then have "unat w < 2 ^ 64" by simp
  then show ?thesis by (simp add: unsigned_ucast_eq take_bit_nat_eq_self_iff)
qed

section \<open>Byte buffers\<close>

text \<open>\<open>peek bs i n\<close> reads \<open>n\<close> bytes at index \<open>i\<close>; \<open>poke bs i xs\<close> is \<open>memcpy(bs + i, xs, |xs|)\<close>.\<close>

definition peek :: "'a list \<Rightarrow> nat \<Rightarrow> nat \<Rightarrow> 'a list option" where
  "peek bs i n = (if i + n \<le> length bs then Some (take n (drop i bs)) else None)"

definition poke :: "'a list \<Rightarrow> nat \<Rightarrow> 'a list \<Rightarrow> 'a list option" where
  "poke bs i xs =
     (if i + length xs \<le> length bs then Some (take i bs @ xs @ drop (i + length xs) bs) else None)"

lemma peek_Some_iff [buf_simps]:
  "peek bs i n = Some xs \<longleftrightarrow> i + n \<le> length bs \<and> xs = take n (drop i bs)"
  by (auto simp: peek_def)

lemma peek_length: "peek bs i n = Some xs \<Longrightarrow> length xs = n"
  by (auto simp: peek_def split: if_splits)

lemma poke_Some_iff [buf_simps]:
  "poke bs i xs = Some bs' \<longleftrightarrow>
     i + length xs \<le> length bs \<and> bs' = take i bs @ xs @ drop (i + length xs) bs"
  by (auto simp: poke_def)

lemma poke_None_iff: "poke bs i xs = None \<longleftrightarrow> length bs < i + length xs"
  by (auto simp: poke_def)

lemma peek_None_iff: "peek bs i n = None \<longleftrightarrow> length bs < i + n"
  by (auto simp: peek_def)

lemma poke_length: "poke bs i xs = Some bs' \<Longrightarrow> length bs' = length bs"
  by (auto simp: poke_def split: if_splits)

lemma peek_in_append:
  assumes "i + n \<le> length xs"
  shows "peek (xs @ ys) i n = peek xs i n"
  using assms by (simp add: peek_def)

lemma peek_after_append:
  assumes "length xs \<le> i"
  shows "peek (xs @ ys) i n = peek ys (i - length xs) n"
  using assms by (auto simp: peek_def)

lemma peek_at_append:
  "peek (xs @ ys @ zs) (length xs) (length ys) = Some ys"
  by (simp add: peek_def)

lemma peek_poke_same:
  assumes "poke bs i xs = Some bs'"
  shows "peek bs' i (length xs) = Some xs"
  using assms by (auto simp: poke_Some_iff peek_def min_def)

lemma peek_poke_before:
  assumes "poke bs i xs = Some bs'" and "j + n \<le> i"
  shows "peek bs' j n = peek bs j n"
  using assms by (auto simp: poke_Some_iff peek_def min.absorb2 drop_take)

lemma peek_poke_after:
  assumes "poke bs i xs = Some bs'" and "i + length xs \<le> j"
  shows "peek bs' j n = peek bs j n"
  using assms by (auto simp: poke_Some_iff peek_def min.absorb2)

lemma peek_take_cong:
  assumes "take j b = take j b'" and "length b = length b'" and "i + n \<le> j"
  shows "peek b i n = peek b' i n"
proof -
  have "take n (drop i b) = take n (drop i (take j b))" and "take n (drop i b') = take n (drop i (take j b'))"
    using assms(3) by (simp_all add: drop_take min_def)
  with assms(1,2) show ?thesis by (simp add: peek_def)
qed

lemma poke_whole: "length xs = length bs \<Longrightarrow> poke bs 0 xs = Some xs"
  by (simp add: poke_def)

lemma take_poke_before:
  assumes "poke bs i xs = Some bs'" and "j \<le> i"
  shows "take j bs' = take j bs"
  using assms by (auto simp: poke_Some_iff min.absorb2)

lemma take_poke_end:
  assumes "poke bs i xs = Some bs'"
  shows "take (i + length xs) bs' = take i bs @ xs"
  using assms by (auto simp: poke_Some_iff min.absorb2)

text \<open>Two adjacent copies are one copy of the concatenation.\<close>

lemma poke_append_split:
  "poke bs i (xs @ ys) = Option.bind (poke bs i xs) (\<lambda>bs1. poke bs1 (i + length xs) ys)"
proof (cases "i + length (xs @ ys) \<le> length bs")
  case True
  then have "min (length bs) i = i" by simp
  with True show ?thesis by (simp add: poke_def ac_simps)
next
  case False
  then show ?thesis by (auto simp: poke_def)
qed

lemma poke_poke_adjacent:
  assumes "poke bs i xs = Some bs1" and "poke bs1 (i + length xs) ys = Some bs2"
  shows "poke bs i (xs @ ys) = Some bs2"
  using assms by (simp add: poke_append_split)

section \<open>Outcomes of C++ statements\<close>

text \<open>
  \<open>exn\<close> are the C++ exceptions the sources throw or let pass (\<open>pexceptions.hpp\<close>, and
  \<open>std::out_of_range\<close> of \<open>vector::at\<close>); they can be caught and memory keeps what was written before
  them. \<open>fault\<close> ends the process: a null dereference, an access outside an allocation, a failed
  \<open>assert\<close>, \<open>exit\<close>, a call that breaks the contract of a library function, a division by zero, or a loop that does not
  end.
\<close>

datatype exn =
    Transaction_error
  | Transaction_alloc_error
  | Transaction_free_error
  | Transaction_scope_error
  | Manual_tx_abort
  | Pool_error
  | Lock_error
  | Out_of_range
  | Length_error
  | Bad_alloc
  | Invalid_argument
  | Logic_error

datatype fault =
    Null_deref
  | Out_of_bounds
  | Assert_failed
  | Exit_process
  | Contract_broken
  | Div_by_zero
  | Signed_overflow
  | Diverges
  | Killed

datatype 'a outcome = Val 'a | Throw exn | Die fault

type_synonym ('s, 'a) cpp = "'s \<Rightarrow> 'a outcome \<times> 's"

definition returnC :: "'a \<Rightarrow> ('s, 'a) cpp" where
  "returnC x = (\<lambda>s. (Val x, s))"

definition throwC :: "exn \<Rightarrow> ('s, 'a) cpp" where
  "throwC e = (\<lambda>s. (Throw e, s))"

definition dieC :: "fault \<Rightarrow> ('s, 'a) cpp" where
  "dieC f = (\<lambda>s. (Die f, s))"

definition bindC :: "('s, 'a) cpp \<Rightarrow> ('a \<Rightarrow> ('s, 'b) cpp) \<Rightarrow> ('s, 'b) cpp" where
  "bindC m k = (\<lambda>s. case m s of
      (Val x, s') \<Rightarrow> k x s'
    | (Throw e, s') \<Rightarrow> (Throw e, s')
    | (Die f, s') \<Rightarrow> (Die f, s'))"

definition thenC :: "('s, 'a) cpp \<Rightarrow> ('s, 'b) cpp \<Rightarrow> ('s, 'b) cpp" where
  "thenC m n = bindC m (\<lambda>_. n)"

definition liftO :: "'a outcome \<Rightarrow> ('s, 'a) cpp" where
  "liftO r = (\<lambda>s. (r, s))"

fun bindO :: "'a outcome \<Rightarrow> ('a \<Rightarrow> 'b outcome) \<Rightarrow> 'b outcome" where
  "bindO (Val x) k = k x"
| "bindO (Throw e) k = Throw e"
| "bindO (Die f) k = Die f"

text \<open>A checked \<open>assert\<close>, and access to the state of an object.\<close>

definition assertC :: "bool \<Rightarrow> ('s, unit) cpp" where
  "assertC b = (if b then returnC () else dieC Assert_failed)"

definition modC :: "('s \<Rightarrow> 's) \<Rightarrow> ('s, unit) cpp" where
  "modC f = (\<lambda>s. (Val (), f s))"

definition getC :: "('s \<Rightarrow> 'a) \<Rightarrow> ('s, 'a) cpp" where
  "getC f = (\<lambda>s. (Val (f s), s))"

text \<open>An absent value (a read outside an allocation, an unmapped address) ends the process.\<close>

definition the_or_die :: "fault \<Rightarrow> 'a option \<Rightarrow> 'a outcome" where
  "the_or_die f x = (case x of Some y \<Rightarrow> Val y | None \<Rightarrow> Die f)"

lemma the_or_die_simps [cpp_simps, simp]:
  "the_or_die f (Some y) = Val y"
  "the_or_die f None = Die f"
  by (simp_all add: the_or_die_def)

lemma the_or_die_Val [simp]: "the_or_die f x = Val y \<longleftrightarrow> x = Some y"
  by (cases x) simp_all

lemma returnC_apply [cpp_simps]: "returnC x s = (Val x, s)"
  and throwC_apply [cpp_simps]: "throwC e s = (Throw e, s)"
  and dieC_apply [cpp_simps]: "dieC f s = (Die f, s)"
  and liftO_apply [cpp_simps]: "liftO r s = (r, s)"
  by (simp_all add: returnC_def throwC_def dieC_def liftO_def)

lemma bindC_apply [cpp_simps]:
  "m s = (Val x, s') \<Longrightarrow> bindC m k s = k x s'"
  "m s = (Throw e, s') \<Longrightarrow> bindC m k s = (Throw e, s')"
  "m s = (Die f, s') \<Longrightarrow> bindC m k s = (Die f, s')"
  by (simp_all add: bindC_def)

lemma thenC_apply [cpp_simps]:
  "m s = (Val x, s') \<Longrightarrow> thenC m n s = n s'"
  "m s = (Throw e, s') \<Longrightarrow> thenC m n s = (Throw e, s')"
  "m s = (Die f, s') \<Longrightarrow> thenC m n s = (Die f, s')"
  by (simp_all add: thenC_def bindC_def)

text \<open>Step-by-step execution of a statement on a given state, with \<open>simp only\<close>.\<close>

lemma bindC_exec: "bindC m k s = (case m s of
      (Val x, s') \<Rightarrow> k x s' | (Throw e, s') \<Rightarrow> (Throw e, s') | (Die f, s') \<Rightarrow> (Die f, s'))"
  and thenC_exec: "thenC m n s = (case m s of
      (Val x, s') \<Rightarrow> n s' | (Throw e, s') \<Rightarrow> (Throw e, s') | (Die f, s') \<Rightarrow> (Die f, s'))"
  by (simp_all add: thenC_def bindC_def)

lemmas exec_simps = bindC_exec thenC_exec returnC_apply throwC_apply dieC_apply liftO_apply
  prod.case outcome.case

lemma bindC_returnC [simp]: "bindC (returnC x) k = k x"
  by (simp add: bindC_def returnC_def)

lemma bindC_assoc: "bindC (bindC m k) l = bindC m (\<lambda>x. bindC (k x) l)"
  by (auto simp: bindC_def fun_eq_iff split: prod.splits outcome.splits)

lemma bindC_Val:
  "bindC m k s = (Val y, s'') \<longleftrightarrow> (\<exists>x s'. m s = (Val x, s') \<and> k x s' = (Val y, s''))"
  by (auto simp: bindC_def split: prod.splits outcome.splits)

lemma bindO_Val [simp]: "bindO r k = Val y \<longleftrightarrow> (\<exists>x. r = Val x \<and> k x = Val y)"
  by (cases r) auto

section \<open>Sequences of commands against a specification\<close>

text \<open>
  \<open>run_all\<close> executes commands one after the other and collects their results; \<open>spec_all\<close> does the same with an abstract
  machine, and \<open>ok_all\<close> says that each command is admissible in the abstract state it meets.
\<close>

primrec run_all :: "('c \<Rightarrow> ('s, 'r) cpp) \<Rightarrow> 'c list \<Rightarrow> ('s, 'r list) cpp" where
  "run_all exec [] = returnC []"
| "run_all exec (c # cs) = bindC (exec c) (\<lambda>r. bindC (run_all exec cs) (\<lambda>rs. returnC (r # rs)))"

primrec spec_all :: "('c \<Rightarrow> 'm \<Rightarrow> 'r \<times> 'm) \<Rightarrow> 'c list \<Rightarrow> 'm \<Rightarrow> 'r list \<times> 'm" where
  "spec_all spec [] m = ([], m)"
| "spec_all spec (c # cs) m =
     (case spec c m of (r, m') \<Rightarrow> case spec_all spec cs m' of (rs, m'') \<Rightarrow> (r # rs, m''))"

primrec ok_all :: "('c \<Rightarrow> 'm \<Rightarrow> 'r \<times> 'm) \<Rightarrow> ('c \<Rightarrow> 'm \<Rightarrow> bool) \<Rightarrow> 'c list \<Rightarrow> 'm \<Rightarrow> bool" where
  "ok_all spec ok [] m \<longleftrightarrow> True"
| "ok_all spec ok (c # cs) m \<longleftrightarrow> ok c m \<and> ok_all spec ok cs (snd (spec c m))"

text \<open>A component that follows the abstract machine on every single command follows it on every sequence.\<close>

locale simulation =
  fixes rep :: "'s \<Rightarrow> 'm \<Rightarrow> bool" and exec :: "'c \<Rightarrow> ('s, 'r) cpp"
    and spec :: "'c \<Rightarrow> 'm \<Rightarrow> 'r \<times> 'm" and ok :: "'c \<Rightarrow> 'm \<Rightarrow> bool"
  assumes step: "rep s m \<Longrightarrow> ok c m \<Longrightarrow> spec c m = (r, m') \<Longrightarrow> \<exists>s'. exec c s = (Val r, s') \<and> rep s' m'"
begin

lemma run_refines:
  assumes "rep s m" and "ok_all spec ok cs m" and "spec_all spec cs m = (rs, m')"
  shows "\<exists>s'. run_all exec cs s = (Val rs, s') \<and> rep s' m'"
  using assms
proof (induction cs arbitrary: s m rs)
  case (Cons c cs)
  obtain r m1 rs1 where c: "spec c m = (r, m1)" "spec_all spec cs m1 = (rs1, m')" "rs = r # rs1"
    using Cons.prems(3) by (auto split: prod.splits)
  from step [OF Cons.prems(1) _ c(1)] Cons.prems(2) obtain s1 where s1: "exec c s = (Val r, s1)" "rep s1 m1" by auto
  from Cons.IH [OF s1(2) _ c(2)] Cons.prems(2) c(1) obtain s' where
    "run_all exec cs s1 = (Val rs1, s')" "rep s' m'" by auto
  with s1 c(3) show ?case by (auto simp: exec_simps)
qed (simp add: returnC_def)

end

end
