(* ===== verification/Pmemobj.thy ===== *)
theory Pmemobj
  imports Prelude
begin

text \<open>
  The persistent pool and the transaction machine of libpmemobj, as
  \<open>src/pmdk-include/libpmemobj/tx_base.h\<close> documents it: the stage of the thread, the undo log of
  snapshots, transactional allocation and the roll-back on abort. The library itself is not part of
  the repository, so what it is free to decide (whether a call succeeds, which offset an allocation
  gets) is an argument \<open>L\<close> of every definition, and the contract the sources rely on is the locale
  \<open>pmemobj\<close>.

  A pool maps offsets to typed objects \<open>'o\<close>. A snapshot is kept at the granularity the bindings
  use it, one field of one object: the log entry \<open>Snapshot a r\<close> holds the function \<open>r\<close> that writes
  the saved field back into the object at offset \<open>a\<close> and leaves its other fields as they are.
\<close>

section \<open>State\<close>

datatype tx_stage =
    TX_STAGE_NONE
  | TX_STAGE_WORK
  | TX_STAGE_ONCOMMIT
  | TX_STAGE_ONABORT
  | TX_STAGE_FINALLY

datatype 'o undo = Snapshot nat "'o \<Rightarrow> 'o" | Allocated nat

record 'o pool =
  heap :: "nat \<rightharpoonup> 'o"          \<comment> \<open>objects of the pool by offset; offset 0 is \<open>OID_NULL\<close>\<close>
  stage :: tx_stage
  depth :: nat                 \<comment> \<open>nesting of open transactions\<close>
  undo_log :: "'o undo list"   \<comment> \<open>most recent entry first\<close>
  freed :: "nat list"          \<comment> \<open>objects freed at commit\<close>
  errnum :: int

text \<open>What the library decides at each call.\<close>

record 'o libpmemobj =
  begin_rc :: "'o pool \<Rightarrow> int"
  lock_rc :: "'o pool \<Rightarrow> nat \<Rightarrow> int"
  add_range_rc :: "'o pool \<Rightarrow> nat \<Rightarrow> int"
  alloc_off :: "'o pool \<Rightarrow> nat \<Rightarrow> nat"
  free_rc :: "'o pool \<Rightarrow> nat \<Rightarrow> int"

type_synonym ('v, 'o, 'a) pcpp = "('v \<times> 'o pool, 'a) cpp"

definition ECANCELED :: int where "ECANCELED = 125"
definition EINVAL :: int where "EINVAL = 22"
definition ENOMEM :: int where "ENOMEM = 12"

section \<open>Roll-back\<close>

fun apply_undo :: "'o undo \<Rightarrow> (nat \<rightharpoonup> 'o) \<Rightarrow> (nat \<rightharpoonup> 'o)" where
  "apply_undo (Snapshot a r) h = h(a := map_option r (h a))"
| "apply_undo (Allocated a) h = h(a := None)"

definition rollback :: "'o undo list \<Rightarrow> (nat \<rightharpoonup> 'o) \<Rightarrow> (nat \<rightharpoonup> 'o)" where
  "rollback us h = fold apply_undo us h"

fun undo_addr :: "'o undo \<Rightarrow> nat" where
  "undo_addr (Snapshot a r) = a"
| "undo_addr (Allocated a) = a"

lemma rollback_Nil [simp]: "rollback [] h = h"
  and rollback_Cons [simp]: "rollback (u # us) h = rollback us (apply_undo u h)"
  by (simp_all add: rollback_def)

text \<open>A write to an object the log does not mention survives the roll-back.\<close>

lemma apply_undo_other: "a \<noteq> undo_addr u \<Longrightarrow> apply_undo u (h(a := x)) = (apply_undo u h)(a := x)"
  by (cases u) auto

lemma rollback_other:
  "a \<notin> undo_addr ` set us \<Longrightarrow> rollback us (h(a := x)) = (rollback us h)(a := x)"
  by (induction us arbitrary: h) (auto simp: apply_undo_other)

lemma rollback_lookup_other:
  assumes "a \<notin> undo_addr ` set us"
  shows "rollback us h a = h a"
proof -
  have "rollback us h = (rollback us h)(a := h a)"
    using rollback_other [OF assms, of h "h a"] by simp
  then show ?thesis by (metis fun_upd_same)
qed

section \<open>The transaction calls of tx_base.h\<close>

text \<open>
  \<open>pmemobj_tx_begin\<close> opens a transaction, or a nested one inside an open transaction. On failure the
  stage becomes \<open>TX_STAGE_ONABORT\<close>.
\<close>

definition pmemobj_tx_begin :: "'o libpmemobj \<Rightarrow> ('v, 'o, int) pcpp" where
  "pmemobj_tx_begin L = (\<lambda>(v, p).
     let rc = begin_rc L p in
     if rc = 0
     then (Val 0, v, p\<lparr>stage := TX_STAGE_WORK, depth := Suc (depth p)\<rparr>)
     else (Val rc, v, p\<lparr>stage := TX_STAGE_ONABORT, depth := Suc (depth p), errnum := rc\<rparr>))"

definition pmemobj_tx_stage :: "('v, 'o, tx_stage) pcpp" where
  "pmemobj_tx_stage = (\<lambda>(v, p). (Val (stage p), v, p))"

definition pmemobj_tx_errno :: "('v, 'o, int) pcpp" where
  "pmemobj_tx_errno = (\<lambda>(v, p). (Val (errnum p), v, p))"

text \<open>
  The transition to \<open>TX_STAGE_ONABORT\<close>: the changes of the snapshotted ranges are rolled back. Inside
  a nested transaction the log belongs to the outermost one and is replayed when that one aborts.
\<close>

definition abort_pool :: "int \<Rightarrow> 'o pool \<Rightarrow> 'o pool" where
  "abort_pool e p =
     (if depth p \<le> 1
      then p\<lparr>stage := TX_STAGE_ONABORT, errnum := e,
             heap := rollback (undo_log p) (heap p), undo_log := [], freed := []\<rparr>
      else p\<lparr>stage := TX_STAGE_ONABORT, errnum := e\<rparr>)"

definition pmemobj_tx_abort :: "int \<Rightarrow> ('v, 'o, unit) pcpp" where
  "pmemobj_tx_abort e = (\<lambda>(v, p).
     if stage p = TX_STAGE_WORK then (Val (), v, abort_pool e p) else (Die Contract_broken, v, p))"

text \<open>The commit of the outermost transaction drops the log and performs the deferred frees.\<close>

definition commit_pool :: "'o pool \<Rightarrow> 'o pool" where
  "commit_pool p =
     (if depth p \<le> 1
      then p\<lparr>stage := TX_STAGE_ONCOMMIT, heap := fold (\<lambda>a h. h(a := None)) (freed p) (heap p),
             undo_log := [], freed := []\<rparr>
      else p\<lparr>stage := TX_STAGE_ONCOMMIT\<rparr>)"

definition pmemobj_tx_commit :: "('v, 'o, unit) pcpp" where
  "pmemobj_tx_commit = (\<lambda>(v, p).
     if stage p = TX_STAGE_WORK then (Val (), v, commit_pool p) else (Die Contract_broken, v, p))"

text \<open>
  \<open>pmemobj_tx_end\<close> has no effect without a transaction and must not be called in
  \<open>TX_STAGE_WORK\<close>. The end of the outermost transaction leads to \<open>TX_STAGE_NONE\<close>; the end of a nested
  one resumes the enclosing transaction, which is aborted in turn when the nested one failed. (The comment in the header speaks of
  the outermost one when it says that the call always leads to \<open>TX_STAGE_NONE\<close>. In \<open>TX_STAGE_NONE\<close> the depth is 0.)
\<close>

definition end_pool :: "'o pool \<Rightarrow> 'o pool" where
  "end_pool p =
     (if depth p = 0 then p
      else if depth p = 1 then p\<lparr>stage := TX_STAGE_NONE, depth := 0, errnum := 0\<rparr>
      else if errnum p \<noteq> 0
           then abort_pool (errnum p) (p\<lparr>depth := depth p - 1, stage := TX_STAGE_WORK\<rparr>)
           else p\<lparr>depth := depth p - 1, stage := TX_STAGE_WORK\<rparr>)"

definition pmemobj_tx_end :: "('v, 'o, int) pcpp" where
  "pmemobj_tx_end = (\<lambda>(v, p).
     if stage p = TX_STAGE_WORK then (Die Contract_broken, v, p)
     else (Val (errnum p), v, end_pool p))"

definition pmemobj_tx_lock :: "'o libpmemobj \<Rightarrow> nat \<Rightarrow> ('v, 'o, int) pcpp" where
  "pmemobj_tx_lock L lk = (\<lambda>(v, p). (Val (lock_rc L p lk), v, p))"

text \<open>
  \<open>pmemobj_tx_add_range_direct\<close>: the field of the object at \<open>a\<close> that \<open>g\<close> reads and \<open>s\<close> writes is saved
  (\<open>g\<close> gives nothing when the object at \<open>a\<close> is not of the type the field belongs to).
\<close>

definition pmemobj_tx_add_range_direct ::
  "'o libpmemobj \<Rightarrow> nat \<Rightarrow> ('o \<Rightarrow> 'f option) \<Rightarrow> ('f \<Rightarrow> 'o \<Rightarrow> 'o) \<Rightarrow> ('v, 'o, int) pcpp" where
  "pmemobj_tx_add_range_direct L a g s = (\<lambda>(v, p).
     if stage p \<noteq> TX_STAGE_WORK then (Die Contract_broken, v, p)
     else case Option.bind (heap p a) g of
       None \<Rightarrow> (Die Null_deref, v, p)
     | Some old \<Rightarrow>
         let rc = add_range_rc L p a in
         if rc = 0 then (Val 0, v, p\<lparr>undo_log := Snapshot a (s old) # undo_log p\<rparr>)
         else (Val rc, v, abort_pool rc p))"

text \<open>\<open>pmemobj_tx_add_range\<close> names the range by its object and an offset in it instead of by its address.\<close>

definition pmemobj_tx_add_range ::
  "'o libpmemobj \<Rightarrow> nat \<Rightarrow> ('o \<Rightarrow> 'f option) \<Rightarrow> ('f \<Rightarrow> 'o \<Rightarrow> 'o) \<Rightarrow> ('v, 'o, int) pcpp" where
  "pmemobj_tx_add_range L oid g s = pmemobj_tx_add_range_direct L oid g s"

text \<open>
  \<open>pmemobj_tx_alloc\<close> returns the offset of a new object or \<open>OID_NULL\<close> (offset 0) after a transition to
  \<open>TX_STAGE_ONABORT\<close>. \<open>ob\<close> is what the fresh memory holds.
\<close>

definition pmemobj_tx_alloc :: "'o libpmemobj \<Rightarrow> nat \<Rightarrow> 'o \<Rightarrow> ('v, 'o, nat) pcpp" where
  "pmemobj_tx_alloc L sz ob = (\<lambda>(v, p).
     if stage p \<noteq> TX_STAGE_WORK then (Die Contract_broken, v, p)
     else let a = alloc_off L p sz in
       if a = 0 then (Val 0, v, abort_pool ENOMEM p)
       else (Val a, v, p\<lparr>heap := (heap p)(a \<mapsto> ob), undo_log := Allocated a # undo_log p\<rparr>))"

definition pmemobj_tx_free :: "'o libpmemobj \<Rightarrow> nat \<Rightarrow> ('v, 'o, int) pcpp" where
  "pmemobj_tx_free L a = (\<lambda>(v, p).
     if stage p \<noteq> TX_STAGE_WORK then (Die Contract_broken, v, p)
     else let rc = free_rc L p a in
       if rc = 0 then (Val 0, v, p\<lparr>freed := a # freed p\<rparr>)
       else (Val rc, v, abort_pool rc p))"

text \<open>
  Opening a pool after a crash replays the undo log that the crash left in it.
\<close>

definition recover :: "'o pool \<Rightarrow> 'o pool" where
  "recover p = p\<lparr>heap := rollback (undo_log p) (heap p), undo_log := [], freed := [],
                 stage := TX_STAGE_NONE, depth := 0, errnum := 0\<rparr>"

text \<open>A thread outside any transaction.\<close>

definition idle :: "'o pool \<Rightarrow> bool" where
  "idle p \<longleftrightarrow> stage p = TX_STAGE_NONE \<and> depth p = 0 \<and> undo_log p = [] \<and> freed p = [] \<and> errnum p = 0"

section \<open>The contract of the library\<close>

text \<open>
  What the sources rely on: an allocation never hands out an offset that is in use or that the open
  transaction has logged.
\<close>

locale pmemobj =
  fixes L :: "'o libpmemobj"
  assumes alloc_fresh: "alloc_off L p n \<noteq> 0 \<Longrightarrow> heap p (alloc_off L p n) = None"
    and alloc_unlogged: "alloc_off L p n \<noteq> 0 \<Longrightarrow> alloc_off L p n \<notin> undo_addr ` set (undo_log p)"
begin

lemma alloc_rollback:
  assumes "alloc_off L p n \<noteq> 0"
  shows "rollback (Allocated (alloc_off L p n) # us) ((heap p)(alloc_off L p n \<mapsto> ob)) =
         rollback us (heap p)"
proof -
  have "(heap p)(alloc_off L p n := None) = heap p"
    using alloc_fresh [OF assms] by (simp add: fun_upd_idem)
  then show ?thesis by simp
qed

end

text \<open>A library that always starts a transaction; every other call may still fail.\<close>

locale started_pmemobj = pmemobj +
  assumes begin_ok: "begin_rc L p = 0"

text \<open>
  The library on a healthy pool: no call fails, and an allocation finds room while the pool holds
  finitely many objects. The statements that an operation does its work assume it.
\<close>

locale steady_pmemobj = started_pmemobj +
  assumes add_ok: "add_range_rc L p a = 0"
    and lock_ok: "lock_rc L p k = 0"
    and free_ok: "free_rc L p a = 0"
    and alloc_ok: "finite (dom (heap p)) \<Longrightarrow> alloc_off L p n \<noteq> 0"

text \<open>
  The contract can be met: an allocator that hands out the first offset above every offset in use.
\<close>

definition used_offsets :: "'o pool \<Rightarrow> nat set" where
  "used_offsets p = insert 0 (dom (heap p) \<union> undo_addr ` set (undo_log p))"

definition next_offset :: "'o pool \<Rightarrow> nat \<Rightarrow> nat" where
  "next_offset p n = (if finite (dom (heap p)) then Suc (Max (used_offsets p)) else 0)"

definition healthy :: "'o libpmemobj" where
  "healthy = \<lparr>begin_rc = (\<lambda>_. 0), lock_rc = (\<lambda>_ _. 0), add_range_rc = (\<lambda>_ _. 0),
              alloc_off = next_offset, free_rc = (\<lambda>_ _. 0)\<rparr>"

text \<open>A library on a pool with no room and no log space: every call that can fail does.\<close>

definition exhausted :: "'o libpmemobj" where
  "exhausted = healthy\<lparr>add_range_rc := (\<lambda>_ _. ENOMEM), alloc_off := (\<lambda>_ _. 0)\<rparr>"

lemma next_offset_notin: "next_offset p n \<noteq> 0 \<Longrightarrow> next_offset p n \<notin> used_offsets p"
proof -
  assume "next_offset p n \<noteq> 0"
  then have fin: "finite (used_offsets p)" and eq: "next_offset p n = Suc (Max (used_offsets p))"
    by (auto simp: next_offset_def used_offsets_def split: if_splits)
  show ?thesis
  proof
    assume "next_offset p n \<in> used_offsets p"
    from Max_ge [OF fin this] eq show False by simp
  qed
qed

interpretation healthy: steady_pmemobj healthy
proof (unfold_locales, goal_cases)
  case (1 p n)
  then have "next_offset p n \<notin> used_offsets p"
    by (intro next_offset_notin) (simp add: healthy_def)
  then show ?case by (auto simp: healthy_def used_offsets_def)
next
  case (2 p n)
  then have "next_offset p n \<notin> used_offsets p"
    by (intro next_offset_notin) (simp add: healthy_def)
  then show ?case by (simp add: healthy_def used_offsets_def)
qed (simp_all add: healthy_def next_offset_def)

interpretation exhausted: started_pmemobj exhausted
  by unfold_locales (simp_all add: exhausted_def healthy_def)

end
