(* ===== verification/Pmem_Cpp.thy ===== *)
theory Pmem_Cpp
  imports Pmemobj
begin

text \<open>
  The libpmemobj++ bindings the write cache is written against
  (\<open>src/pmdk-include/libpmemobj++\<close>): the snapshotting assignment of \<open>p<T>\<close> and
  \<open>persistent_ptr<T>\<close>, \<open>transaction::exec_tx\<close> (the closure form; the sources call it under its later
  name \<open>run\<close>), the scoped \<open>transaction::manual\<close>, \<open>transaction::abort\<close> and \<open>commit\<close>, and
  \<open>make_persistent\<close> / \<open>delete_persistent\<close>. The lemmas show that a transaction built from these
  operations is all-or-nothing: the undo log always leads back to the state before it.
\<close>

section \<open>Reading and writing persistent fields\<close>

definition pread :: "nat \<Rightarrow> ('o \<Rightarrow> 'f option) \<Rightarrow> ('v, 'o, 'f) pcpp" where
  "pread a g = (\<lambda>(v, p). (the_or_die Null_deref (Option.bind (heap p a) g), v, p))"

text \<open>A store with no snapshot: what a \<open>memcpy\<close> through a raw pointer does.\<close>

definition pwrite_raw ::
  "nat \<Rightarrow> ('o \<Rightarrow> 'f option) \<Rightarrow> ('f \<Rightarrow> 'o \<Rightarrow> 'o) \<Rightarrow> 'f \<Rightarrow> ('v, 'o, unit) pcpp" where
  "pwrite_raw a g s x = (\<lambda>(v, p).
     case Option.bind (heap p a) g of
       None \<Rightarrow> (Die Null_deref, v, p)
     | Some _ \<Rightarrow> (Val (), v, p\<lparr>heap := (heap p)(a := map_option (s x) (heap p a))\<rparr>))"

text \<open>
  \<open>conditional_add_to_tx(that)\<close>. It is called for members of persistent objects, so its first test, whether the address lies in an open
  pool, always holds and is left out.
\<close>

definition conditional_add_to_tx ::
  "'o libpmemobj \<Rightarrow> nat \<Rightarrow> ('o \<Rightarrow> 'f option) \<Rightarrow> ('f \<Rightarrow> 'o \<Rightarrow> 'o) \<Rightarrow> ('v, 'o, unit) pcpp" where
  "conditional_add_to_tx L a g s =
     bindC pmemobj_tx_stage (\<lambda>st.
       if st \<noteq> TX_STAGE_WORK then returnC ()
       else bindC (pmemobj_tx_add_range_direct L a g s) (\<lambda>rc.
         if rc \<noteq> 0 then throwC Transaction_error else returnC ()))"

text \<open>The overload for a persistent pointer adds the object it points to, all of it, and not the pointer.\<close>

definition conditional_add_object_to_tx ::
  "'o libpmemobj \<Rightarrow> nat \<Rightarrow> ('o \<Rightarrow> 'f option) \<Rightarrow> ('f \<Rightarrow> 'o \<Rightarrow> 'o) \<Rightarrow> ('v, 'o, unit) pcpp" where
  "conditional_add_object_to_tx L that g s =
     bindC pmemobj_tx_stage (\<lambda>st.
       if st \<noteq> TX_STAGE_WORK then returnC ()
       else bindC (pmemobj_tx_add_range L that g s) (\<lambda>rc.
         if rc \<noteq> 0 then throwC Transaction_error else returnC ()))"

text \<open>\<open>p<T>\<close>: the value constructor stores with no snapshot, \<open>get_ro\<close> reads.\<close>

definition p_ctor :: "nat \<Rightarrow> ('o \<Rightarrow> 'f option) \<Rightarrow> ('f \<Rightarrow> 'o \<Rightarrow> 'o) \<Rightarrow> 'f \<Rightarrow> ('v, 'o, unit) pcpp" where
  "p_ctor a g s val = pwrite_raw a g s val"

definition p_get_ro :: "nat \<Rightarrow> ('o \<Rightarrow> 'f option) \<Rightarrow> ('v, 'o, 'f) pcpp" where
  "p_get_ro a g = pread a g"

text \<open>
  \<open>p<T>::operator=\<close> and \<open>persistent_ptr<T>::operator=\<close> swap with a temporary: the member is added to
  the transaction (the temporary is outside every pool, so it is not), then it is overwritten.
\<close>

definition p_assign ::
  "'o libpmemobj \<Rightarrow> nat \<Rightarrow> ('o \<Rightarrow> 'f option) \<Rightarrow> ('f \<Rightarrow> 'o \<Rightarrow> 'o) \<Rightarrow> 'f \<Rightarrow> ('v, 'o, unit) pcpp" where
  "p_assign L a g s x = thenC (conditional_add_to_tx L a g s) (pwrite_raw a g s x)"

text \<open>\<open>p<T>::swap\<close> of two persistent members.\<close>

definition p_swap ::
  "'o libpmemobj \<Rightarrow> nat \<Rightarrow> nat \<Rightarrow> ('o \<Rightarrow> 'f option) \<Rightarrow> ('f \<Rightarrow> 'o \<Rightarrow> 'o) \<Rightarrow> ('v, 'o, unit) pcpp" where
  "p_swap L a b g s =
     thenC (conditional_add_to_tx L a g s)
       (thenC (conditional_add_to_tx L b g s)
         (bindC (pread a g) (\<lambda>x. bindC (pread b g) (\<lambda>y.
            thenC (pwrite_raw a g s y) (pwrite_raw b g s x)))))"

section \<open>Transactions\<close>

definition tryC :: "('s, 'a) cpp \<Rightarrow> ('s, exn + 'a) cpp" where
  "tryC m = (\<lambda>s. case m s of
      (Val x, s') \<Rightarrow> (Val (Inr x), s')
    | (Throw e, s') \<Rightarrow> (Val (Inl e), s')
    | (Die f, s') \<Rightarrow> (Die f, s'))"

primrec add_lock :: "'o libpmemobj \<Rightarrow> nat list \<Rightarrow> ('v, 'o, int) pcpp" where
  "add_lock L [] = returnC 0"
| "add_lock L (l # ls) =
     bindC (pmemobj_tx_lock L l) (\<lambda>err. if err \<noteq> 0 then returnC err else add_lock L ls)"

definition exec_tx :: "'o libpmemobj \<Rightarrow> ('v, 'o, unit) pcpp \<Rightarrow> nat list \<Rightarrow> ('v, 'o, unit) pcpp" where
  "exec_tx L tx locks =
     bindC (pmemobj_tx_begin L) (\<lambda>rc.
       if rc \<noteq> 0 then throwC Transaction_error
       else bindC (add_lock L locks) (\<lambda>err.
         if err \<noteq> 0
         then thenC (pmemobj_tx_abort err) (thenC pmemobj_tx_end (throwC Transaction_error))
         else bindC (tryC tx) (\<lambda>r. case r of
           Inl e \<Rightarrow>
             if e = Manual_tx_abort
             then thenC pmemobj_tx_end (throwC Manual_tx_abort)
             else bindC pmemobj_tx_stage (\<lambda>st.
               thenC (if st = TX_STAGE_WORK then pmemobj_tx_abort ECANCELED else returnC ())
                 (thenC pmemobj_tx_end (throwC e)))
         | Inr _ \<Rightarrow>
             bindC pmemobj_tx_stage (\<lambda>st.
               if st = TX_STAGE_WORK then thenC pmemobj_tx_commit (thenC pmemobj_tx_end (returnC ()))
               else if st = TX_STAGE_ONABORT then thenC pmemobj_tx_end (throwC Transaction_error)
               else if st = TX_STAGE_NONE then throwC Transaction_error
               else thenC pmemobj_tx_end (returnC ())))))"

text \<open>\<open>transaction::run(pop, f)\<close>, the form the write cache uses: no locks.\<close>

definition transaction_run :: "'o libpmemobj \<Rightarrow> ('v, 'o, unit) pcpp \<Rightarrow> ('v, 'o, unit) pcpp" where
  "transaction_run L tx = exec_tx L tx []"

text \<open>\<open>transaction::abort(err)\<close> and \<open>transaction::commit()\<close>.\<close>

definition transaction_abort :: "int \<Rightarrow> ('v, 'o, unit) pcpp" where
  "transaction_abort err =
     bindC pmemobj_tx_stage (\<lambda>st.
       if st \<noteq> TX_STAGE_WORK then throwC Transaction_error
       else thenC (pmemobj_tx_abort err) (throwC Manual_tx_abort))"

definition transaction_commit :: "('v, 'o, unit) pcpp" where
  "transaction_commit =
     bindC pmemobj_tx_stage (\<lambda>st.
       if st \<noteq> TX_STAGE_WORK then throwC Transaction_error else pmemobj_tx_commit)"

text \<open>The constructor and the destructor of the scoped transaction \<open>transaction::manual\<close>.\<close>

definition manual_ctor :: "'o libpmemobj \<Rightarrow> nat list \<Rightarrow> ('v, 'o, unit) pcpp" where
  "manual_ctor L locks =
     bindC (pmemobj_tx_begin L) (\<lambda>rc.
       if rc \<noteq> 0 then throwC Transaction_error
       else bindC (add_lock L locks) (\<lambda>err.
         if err \<noteq> 0 then thenC (pmemobj_tx_abort EINVAL) (throwC Transaction_error)
         else returnC ()))"

definition manual_dtor :: "('v, 'o, unit) pcpp" where
  "manual_dtor =
     bindC pmemobj_tx_stage (\<lambda>st.
       thenC (if st = TX_STAGE_WORK then pmemobj_tx_abort ECANCELED else returnC ())
         (thenC pmemobj_tx_end (returnC ())))"

text \<open>
  A scope \<open>{ transaction::manual tx(pop, locks...); body }\<close>: the destructor runs when the body returns
  and when it throws, unless the constructor itself threw (the object does not exist then).
\<close>

definition manual_scope :: "'o libpmemobj \<Rightarrow> nat list \<Rightarrow> ('v, 'o, 'a) pcpp \<Rightarrow> ('v, 'o, 'a) pcpp" where
  "manual_scope L locks body =
     thenC (manual_ctor L locks)
       (bindC (tryC body) (\<lambda>r. thenC manual_dtor
         (case r of Inl e \<Rightarrow> throwC e | Inr x \<Rightarrow> returnC x)))"

section \<open>Transactional allocation\<close>

text \<open>
  \<open>make_persistent<T>(args...)\<close>: \<open>raw\<close> is the fresh memory seen as a \<open>T\<close>, \<open>ctor\<close> the constructor that
  \<open>detail::create\<close> calls on it.
\<close>

definition make_persistent ::
  "'o libpmemobj \<Rightarrow> nat \<Rightarrow> 'o \<Rightarrow> (nat \<Rightarrow> ('v, 'o, unit) pcpp) \<Rightarrow> ('v, 'o, nat) pcpp" where
  "make_persistent L sz raw ctor =
     bindC pmemobj_tx_stage (\<lambda>st.
       if st \<noteq> TX_STAGE_WORK then throwC Transaction_scope_error
       else bindC (pmemobj_tx_alloc L sz raw) (\<lambda>a.
         if a = 0 then throwC Transaction_alloc_error
         else bindC (tryC (ctor a)) (\<lambda>r. case r of
           Inl e \<Rightarrow> thenC (pmemobj_tx_free L a) (throwC e)
         | Inr _ \<Rightarrow> returnC a)))"

text \<open>
  \<open>make_persistent<T[]>(N)\<close> constructs each element by default; no element type of the sources has a
  default constructor that throws, so the array holds its \<open>N\<close> initial elements in one step.
\<close>

definition make_persistent_array :: "'o libpmemobj \<Rightarrow> nat \<Rightarrow> 'o \<Rightarrow> ('v, 'o, nat) pcpp" where
  "make_persistent_array L sz init =
     bindC pmemobj_tx_stage (\<lambda>st.
       if st \<noteq> TX_STAGE_WORK then throwC Transaction_scope_error
       else bindC (pmemobj_tx_alloc L sz init) (\<lambda>a.
         if a = 0 then throwC Transaction_alloc_error else returnC a))"

text \<open>\<open>delete_persistent<T>(ptr)\<close>; the types of the sources have trivial destructors.\<close>

definition delete_persistent :: "'o libpmemobj \<Rightarrow> nat \<Rightarrow> ('v, 'o, unit) pcpp" where
  "delete_persistent L a =
     bindC pmemobj_tx_stage (\<lambda>st.
       if st \<noteq> TX_STAGE_WORK then throwC Transaction_scope_error
       else if a = 0 then returnC ()
       else bindC (pmemobj_tx_free L a) (\<lambda>rc.
         if rc \<noteq> 0 then throwC Transaction_free_error else returnC ()))"

section \<open>The undo log leads back to the state before the transaction\<close>

text \<open>
  \<open>field g s\<close>: \<open>s\<close> writes the member that \<open>g\<close> reads and nothing else, so writing the old value back
  undoes a write.
\<close>

definition field :: "('o \<Rightarrow> 'f option) \<Rightarrow> ('f \<Rightarrow> 'o \<Rightarrow> 'o) \<Rightarrow> bool" where
  "field g s \<longleftrightarrow> (\<forall>ob x y. g ob = Some x \<longrightarrow> s x ob = ob \<and> s x (s y ob) = ob \<and> g (s y ob) = Some y)"

text \<open>
  \<open>tx_inv A base d p\<close>: the thread is \<open>d\<close> transactions deep, its undo log leads from the current heap
  back to \<open>base\<close>, and the objects \<open>A\<close> were allocated in this transaction. \<open>tx_safe A m\<close>: the statement
  \<open>m\<close> keeps that, whatever its outcome.
\<close>

definition tx_inv :: "nat set \<Rightarrow> (nat \<rightharpoonup> 'o) \<Rightarrow> nat \<Rightarrow> 'o pool \<Rightarrow> bool" where
  "tx_inv A base d p \<longleftrightarrow>
     0 < d \<and> depth p = d \<and> rollback (undo_log p) (heap p) = base \<and>
     (stage p = TX_STAGE_WORK \<and> errnum p = 0 \<and> (\<forall>a\<in>A. Allocated a \<in> set (undo_log p)) \<or>
      stage p = TX_STAGE_ONABORT \<and> errnum p \<noteq> 0 \<and> (d = 1 \<longrightarrow> undo_log p = [] \<and> freed p = []))"

definition tx_post :: "nat set \<Rightarrow> (nat \<rightharpoonup> 'o) \<Rightarrow> nat \<Rightarrow> 'a outcome \<Rightarrow> 'o pool \<Rightarrow> bool" where
  "tx_post A base d r p = (case r of
      Val _ \<Rightarrow> tx_inv A base d p \<and> stage p = TX_STAGE_WORK
    | Throw _ \<Rightarrow> tx_inv A base d p
    | Die _ \<Rightarrow> rollback (undo_log p) (heap p) = base)"

definition tx_safe :: "nat set \<Rightarrow> ('v, 'o, 'a) pcpp \<Rightarrow> bool" where
  "tx_safe A m \<longleftrightarrow> (\<forall>v p base d. tx_inv A base d p \<longrightarrow> stage p = TX_STAGE_WORK \<longrightarrow>
     (case m (v, p) of (r, v', p') \<Rightarrow> tx_post A base d r p'))"

lemma tx_safeI:
  assumes "\<And>v p base d r v' p'. tx_inv A base d p \<Longrightarrow> stage p = TX_STAGE_WORK \<Longrightarrow>
             m (v, p) = (r, v', p') \<Longrightarrow> tx_post A base d r p'"
  shows "tx_safe A m"
  unfolding tx_safe_def using assms by (auto split: prod.splits)

lemma tx_safeD:
  assumes "tx_safe A m" and "tx_inv A base d p" and "stage p = TX_STAGE_WORK"
    and "m (v, p) = (r, v', p')"
  shows "tx_post A base d r p'"
proof -
  from assms(1) [unfolded tx_safe_def, rule_format, OF assms(2,3), of v] assms(4)
  show ?thesis by simp
qed

lemma tx_post_simps [simp]:
  "tx_post A base d (Val x) p \<longleftrightarrow> tx_inv A base d p \<and> stage p = TX_STAGE_WORK"
  "tx_post A base d (Throw e) p \<longleftrightarrow> tx_inv A base d p"
  "tx_post A base d (Die f) p \<longleftrightarrow> rollback (undo_log p) (heap p) = base"
  by (simp_all add: tx_post_def)

lemma tx_inv_rollback: "tx_inv A base d p \<Longrightarrow> rollback (undo_log p) (heap p) = base"
  by (simp add: tx_inv_def)

lemma tx_post_rollback: "tx_post A base d r p \<Longrightarrow> rollback (undo_log p) (heap p) = base"
  by (cases r) (auto simp: tx_inv_rollback)

lemma tx_inv_mono: "tx_inv B base d p \<Longrightarrow> A \<subseteq> B \<Longrightarrow> tx_inv A base d p"
  by (auto simp: tx_inv_def)

lemma tx_post_mono: "tx_post B base d r p \<Longrightarrow> A \<subseteq> B \<Longrightarrow> tx_post A base d r p"
  by (cases r) (auto intro: tx_inv_mono)

lemma tx_inv_abort:
  assumes "tx_inv A base d p" and "stage p = TX_STAGE_WORK" and "e \<noteq> 0"
  shows "tx_inv A base d (abort_pool e p)"
  using assms by (auto simp: tx_inv_def abort_pool_def)

lemma stage_abort_pool [simp]: "stage (abort_pool e p) = TX_STAGE_ONABORT"
  by (simp add: abort_pool_def)

subsection \<open>Statements\<close>

lemma tx_safe_returnC [tx_safe_intros]: "tx_safe A (returnC x)"
  by (rule tx_safeI) (auto simp: returnC_def)

lemma tx_safe_throwC [tx_safe_intros]: "tx_safe A (throwC e)"
  by (rule tx_safeI) (auto simp: throwC_def)

lemma tx_safe_dieC [tx_safe_intros]: "tx_safe A (dieC f)"
  by (rule tx_safeI) (auto simp: dieC_def tx_inv_rollback)

lemma tx_safe_liftO [tx_safe_intros]: "tx_safe A (liftO r)"
  by (rule tx_safeI, cases r) (auto simp: liftO_def tx_inv_rollback)

lemma tx_safe_bindC [tx_safe_intros]:
  assumes m: "tx_safe A m" and k: "\<And>x. tx_safe A (k x)"
  shows "tx_safe A (bindC m k)"
proof (rule tx_safeI)
  fix v p base d r v' p'
  assume inv: "tx_inv A base d p" "stage p = TX_STAGE_WORK" and run: "bindC m k (v, p) = (r, v', p')"
  obtain r1 v1 p1 where 1: "m (v, p) = (r1, v1, p1)" by (cases "m (v, p)") auto
  from tx_safeD [OF m inv 1] have post: "tx_post A base d r1 p1" .
  show "tx_post A base d r p'"
  proof (cases r1)
    case (Val x)
    with 1 run have "k x (v1, p1) = (r, v', p')" by (simp add: bindC_def)
    then show ?thesis using tx_safeD [OF k] post Val by fastforce
  qed (use 1 run post in \<open>auto simp: bindC_def\<close>)
qed

lemma tx_safe_thenC [tx_safe_intros]: "tx_safe A m \<Longrightarrow> tx_safe A n \<Longrightarrow> tx_safe A (thenC m n)"
  unfolding thenC_def by (rule tx_safe_bindC)

lemma tx_safe_if [tx_safe_intros]: "tx_safe A m \<Longrightarrow> tx_safe A n \<Longrightarrow> tx_safe A (if b then m else n)"
  by simp

lemma tx_safe_stage [tx_safe_intros]: "tx_safe A pmemobj_tx_stage"
  by (rule tx_safeI) (auto simp: pmemobj_tx_stage_def)

lemma tx_safe_pread [tx_safe_intros]: "tx_safe A (pread a g)"
  by (rule tx_safeI) (auto simp: pread_def the_or_die_def tx_inv_rollback split: option.splits)

text \<open>The runs of a snapshotting assignment, inside and outside a transaction.\<close>

lemma p_assign_in_tx:
  assumes "stage p = TX_STAGE_WORK" and "heap p a = Some ob" and "g ob = Some old"
  shows "p_assign L a g s x (v, p) =
    (if add_range_rc L p a = 0
     then (Val (), v, p\<lparr>undo_log := Snapshot a (s old) # undo_log p, heap := (heap p)(a \<mapsto> s x ob)\<rparr>)
     else (Throw Transaction_error, v, abort_pool (add_range_rc L p a) p))"
  using assms
  by (simp add: p_assign_def conditional_add_to_tx_def pmemobj_tx_stage_def thenC_def bindC_def
      returnC_def throwC_def pmemobj_tx_add_range_direct_def pwrite_raw_def Let_def)

lemma p_assign_outside_tx:
  assumes "stage p \<noteq> TX_STAGE_WORK" and "heap p a = Some ob" and "g ob = Some old"
  shows "p_assign L a g s x (v, p) = (Val (), v, p\<lparr>heap := (heap p)(a \<mapsto> s x ob)\<rparr>)"
  using assms
  by (simp add: p_assign_def conditional_add_to_tx_def pmemobj_tx_stage_def thenC_def bindC_def
      returnC_def pwrite_raw_def)

lemma p_assign_dangling:
  assumes "Option.bind (heap p a) g = None"
  shows "p_assign L a g s x (v, p) = (Die Null_deref, v, p)"
  using assms
  by (simp add: p_assign_def conditional_add_to_tx_def pmemobj_tx_stage_def thenC_def bindC_def
      returnC_def throwC_def pmemobj_tx_add_range_direct_def pwrite_raw_def Let_def)

lemma pread_run:
  assumes "heap p a = Some ob" and "g ob = Some x"
  shows "pread a g (v, p) = (Val x, v, p)"
  using assms by (simp add: pread_def)

lemma pwrite_raw_run:
  assumes "heap p a = Some ob" and "g ob = Some old"
  shows "pwrite_raw a g s x (v, p) = (Val (), v, p\<lparr>heap := (heap p)(a \<mapsto> s x ob)\<rparr>)"
  using assms by (simp add: pwrite_raw_def)

text \<open>The snapshotting assignment: the new log entry undoes exactly the write that follows.\<close>

lemma tx_safe_p_assign [tx_safe_intros]:
  assumes "field g s"
  shows "tx_safe A (p_assign L a g s x)"
proof (rule tx_safeI)
  fix v :: 'v and p base d r v' p'
  assume inv: "tx_inv A base d p" "stage p = TX_STAGE_WORK"
    and run: "p_assign L a g s x (v, p) = (r, v', p')"
  show "tx_post A base d r p'"
  proof (cases "Option.bind (heap p a) g")
    case None
    with inv run show ?thesis by (auto simp: p_assign_dangling tx_inv_rollback)
  next
    case (Some old)
    then obtain ob where ob: "heap p a = Some ob" "g ob = Some old"
      by (cases "heap p a") auto
    have "(heap p)(a \<mapsto> s old (s x ob)) = heap p"
      using assms ob by (auto simp: field_def)
    then have "tx_inv A base d (p\<lparr>undo_log := Snapshot a (s old) # undo_log p, heap := (heap p)(a \<mapsto> s x ob)\<rparr>)"
      using inv by (simp add: tx_inv_def)
    with run inv show ?thesis
      by (auto simp: p_assign_in_tx [where g = g and ob = ob and old = old] ob tx_inv_abort
          split: if_splits)
  qed
qed

text \<open>A raw write is harmless to an object of this transaction: the roll-back drops the object.\<close>

lemma rollback_allocated:
  "Allocated a \<in> set us \<Longrightarrow> rollback us (h(a := x)) = rollback us (h(a := y))"
proof (induction us arbitrary: h x y)
  case (Cons u us)
  show ?case
  proof (cases "undo_addr u = a")
    case True
    show ?thesis
    proof (cases u)
      case (Snapshot a' r)
      with True Cons.prems have "Allocated a \<in> set us" by simp
      from Cons.IH [OF this, of h "map_option r x" "map_option r y"] Snapshot True
      show ?thesis by (simp del: fun_upd_apply add: fun_upd_same)
    next
      case (Allocated a')
      with True show ?thesis by (simp del: fun_upd_apply)
    qed
  next
    case False
    then have "Allocated a \<in> set us" using Cons.prems by auto
    from Cons.IH [OF this, of "apply_undo u h" x y] False show ?thesis
      by (simp only: rollback_Cons apply_undo_other not_sym)
  qed
qed simp

lemma tx_inv_raw_write:
  assumes "tx_inv A base d p" and "stage p = TX_STAGE_WORK" and "a \<in> A"
  shows "tx_inv A base d (p\<lparr>heap := (heap p)(a := x)\<rparr>)"
proof -
  have "Allocated a \<in> set (undo_log p)" using assms by (auto simp: tx_inv_def)
  from rollback_allocated [OF this, of "heap p" x "heap p a"] assms show ?thesis
    by (simp add: tx_inv_def)
qed

lemma tx_safe_pwrite_raw [tx_safe_intros]:
  assumes "a \<in> A"
  shows "tx_safe A (pwrite_raw a g s x)"
  by (rule tx_safeI)
     (auto simp: pwrite_raw_def tx_inv_rollback tx_inv_raw_write assms split: option.splits)

text \<open>\<open>swap\<close> of two members is two snapshots and two writes.\<close>

lemma tx_safe_conditional_add [tx_safe_intros]:
  assumes "field g s"
  shows "tx_safe A (conditional_add_to_tx L a g s)"
proof (rule tx_safeI)
  fix v :: 'v and p base d r v' p'
  assume inv: "tx_inv A base d p" "stage p = TX_STAGE_WORK"
    and run: "conditional_add_to_tx L a g s (v, p) = (r, v', p')"
  show "tx_post A base d r p'"
  proof (cases "Option.bind (heap p a) g")
    case None
    with inv run show ?thesis
      by (auto simp: conditional_add_to_tx_def pmemobj_tx_stage_def bindC_def
          pmemobj_tx_add_range_direct_def tx_inv_rollback)
  next
    case (Some old)
    then obtain ob where ob: "heap p a = Some ob" "g ob = Some old"
      by (cases "heap p a") auto
    have same: "s old ob = ob" using assms ob unfolding field_def by blast
    have "(heap p)(a := map_option (s old) (heap p a)) = heap p"
      using ob same by auto
    then have "tx_inv A base d (p\<lparr>undo_log := Snapshot a (s old) # undo_log p\<rparr>)"
      using inv by (simp add: tx_inv_def)
    with run inv ob show ?thesis
      by (auto simp: conditional_add_to_tx_def pmemobj_tx_stage_def bindC_def returnC_def throwC_def
          pmemobj_tx_add_range_direct_def Let_def tx_inv_abort split: if_splits)
  qed
qed

lemma tx_safe_conditional_add_object [tx_safe_intros]:
  "field g s \<Longrightarrow> tx_safe A (conditional_add_object_to_tx L that g s)"
  unfolding conditional_add_object_to_tx_def pmemobj_tx_add_range_def
  by (rule tx_safe_conditional_add [unfolded conditional_add_to_tx_def])

subsection \<open>Allocation\<close>

context pmemobj
begin

lemma tx_safe_alloc:
  assumes run: "pmemobj_tx_alloc L sz ob (v, p) = (r, v', p')"
    and inv: "tx_inv A base d p" "stage p = TX_STAGE_WORK"
  shows "tx_inv A base d p' \<and> (\<exists>a. r = Val a \<and>
    (a \<noteq> 0 \<longrightarrow> stage p' = TX_STAGE_WORK \<and> heap p' a = Some ob \<and> tx_inv (insert a A) base d p'))"
proof (cases "alloc_off L p sz = 0")
  case True
  with run inv show ?thesis
    by (auto simp: pmemobj_tx_alloc_def Let_def ENOMEM_def intro: tx_inv_abort)
next
  case False
  with run inv have p': "r = Val (alloc_off L p sz)"
    "p' = p\<lparr>heap := (heap p)(alloc_off L p sz \<mapsto> ob),
           undo_log := Allocated (alloc_off L p sz) # undo_log p\<rparr>"
    by (auto simp: pmemobj_tx_alloc_def Let_def)
  with inv alloc_rollback [OF False] show ?thesis by (auto simp: tx_inv_def)
qed

lemma tx_safe_make_persistent_array [tx_safe_intros]: "tx_safe A (make_persistent_array L sz init)"
proof (rule tx_safeI)
  fix v :: 'v and p base d r v' p'
  assume inv: "tx_inv A base d p" "stage p = TX_STAGE_WORK"
    and run: "make_persistent_array L sz init (v, p) = (r, v', p')"
  obtain r1 v1 p1 where 1: "pmemobj_tx_alloc L sz init (v, p) = (r1, v1, p1)"
    by (cases "pmemobj_tx_alloc L sz init (v, p)") auto
  from tx_safe_alloc [OF 1 inv] run inv 1 show "tx_post A base d r p'"
    by (auto simp: make_persistent_array_def pmemobj_tx_stage_def bindC_def returnC_def throwC_def
        split: if_splits)
qed

lemma tx_safe_bind_array [tx_safe_intros]:
  assumes "\<And>a. tx_safe (insert a A) (k a)"
  shows "tx_safe A (bindC (make_persistent_array L sz init) k)"
proof (rule tx_safeI)
  fix v p base d r v' p'
  assume inv: "tx_inv A base d p" "stage p = TX_STAGE_WORK"
    and run: "bindC (make_persistent_array L sz init) k (v, p) = (r, v', p')"
  obtain r1 v1 p1 where 1: "pmemobj_tx_alloc L sz init (v, p) = (r1, v1, p1)"
    by (cases "pmemobj_tx_alloc L sz init (v, p)") auto
  from tx_safe_alloc [OF 1 inv] obtain a where a: "r1 = Val a" "tx_inv A base d p1"
    "a \<noteq> 0 \<longrightarrow> stage p1 = TX_STAGE_WORK \<and> tx_inv (insert a A) base d p1" by auto
  show "tx_post A base d r p'"
  proof (cases "a = 0")
    case True
    with a 1 run inv show ?thesis
      by (auto simp: make_persistent_array_def pmemobj_tx_stage_def bindC_def throwC_def)
  next
    case False
    with a 1 run inv have "k a (v1, p1) = (r, v', p')"
      by (auto simp: make_persistent_array_def pmemobj_tx_stage_def bindC_def returnC_def)
    from tx_safeD [OF assms _ _ this] a False have "tx_post (insert a A) base d r p'" by blast
    then show ?thesis by (rule tx_post_mono) auto
  qed
qed

lemma tx_safe_free:
  assumes "tx_inv A base d p" and "pmemobj_tx_free L a (v, p) = (r, v', p')"
  shows "rollback (undo_log p') (heap p') = base \<and> (\<forall>x. r = Val x \<longrightarrow> tx_inv A base d p') \<and> (\<forall>e. r \<noteq> Throw e)"
  using assms
  by (auto simp: pmemobj_tx_free_def Let_def tx_inv_rollback tx_inv_abort split: if_splits)
     (auto simp: tx_inv_def abort_pool_def)

lemma tx_safe_make_persistent [tx_safe_intros]:
  assumes "\<And>a. tx_safe (insert a A) (ctor a)"
  shows "tx_safe A (make_persistent L sz raw ctor)"
proof (rule tx_safeI)
  fix v p base d r v' p'
  assume inv: "tx_inv A base d p" "stage p = TX_STAGE_WORK"
    and run: "make_persistent L sz raw ctor (v, p) = (r, v', p')"
  obtain r1 v1 p1 where 1: "pmemobj_tx_alloc L sz raw (v, p) = (r1, v1, p1)"
    by (cases "pmemobj_tx_alloc L sz raw (v, p)") auto
  from tx_safe_alloc [OF 1 inv] obtain a where a: "r1 = Val a" "tx_inv A base d p1"
    "a \<noteq> 0 \<longrightarrow> stage p1 = TX_STAGE_WORK \<and> tx_inv (insert a A) base d p1" by auto
  show "tx_post A base d r p'"
  proof (cases "a = 0")
    case True
    with a 1 run inv show ?thesis
      by (auto simp: make_persistent_def pmemobj_tx_stage_def bindC_def throwC_def)
  next
    case False
    obtain r2 v2 p2 where 2: "ctor a (v1, p1) = (r2, v2, p2)" by (cases "ctor a (v1, p1)") auto
    from tx_safeD [OF assms _ _ 2] a False have "tx_post (insert a A) base d r2 p2" by blast
    then have post: "tx_post A base d r2 p2" by (rule tx_post_mono) auto
    obtain r3 v3 p3 where 3: "pmemobj_tx_free L a (v2, p2) = (r3, v3, p3)"
      by (cases "pmemobj_tx_free L a (v2, p2)") auto
    show ?thesis
    proof (cases r2)
      case (Throw e)
      with post tx_safe_free [OF _ 3] have "rollback (undo_log p3) (heap p3) = base"
        "\<forall>x. r3 = Val x \<longrightarrow> tx_inv A base d p3" "\<forall>e. r3 \<noteq> Throw e" by auto
      with Throw a False 1 2 3 run inv show ?thesis
        by (cases r3) (auto simp: make_persistent_def pmemobj_tx_stage_def bindC_def thenC_def
            throwC_def tryC_def)
    qed (use post a False 1 2 run inv in
        \<open>auto simp: make_persistent_def pmemobj_tx_stage_def bindC_def returnC_def tryC_def\<close>)
  qed
qed

lemma tx_safe_delete_persistent [tx_safe_intros]: "tx_safe A (delete_persistent L a)"
proof (rule tx_safeI)
  fix v :: 'v and p base d r v' p'
  assume inv: "tx_inv A base d p" "stage p = TX_STAGE_WORK"
    and run: "delete_persistent L a (v, p) = (r, v', p')"
  then show "tx_post A base d r p'"
    by (auto simp: delete_persistent_def pmemobj_tx_free_def pmemobj_tx_stage_def bindC_def Let_def
        returnC_def throwC_def tx_inv_abort split: if_splits) (auto simp: tx_inv_def)
qed

end

subsection \<open>Transactions\<close>

definition open_pool :: "'o pool \<Rightarrow> 'o pool" where
  "open_pool p = p\<lparr>stage := TX_STAGE_WORK, depth := Suc (depth p)\<rparr>"

lemma open_pool_simps [simp]:
  "heap (open_pool p) = heap p" "undo_log (open_pool p) = undo_log p"
  "stage (open_pool p) = TX_STAGE_WORK" "depth (open_pool p) = Suc (depth p)"
  "freed (open_pool p) = freed p" "errnum (open_pool p) = errnum p"
  by (simp_all add: open_pool_def)

lemma add_lock_state: "\<exists>e. add_lock L ls (v, p) = (Val e, v, p)"
  by (induction ls) (auto simp: returnC_def bindC_def pmemobj_tx_lock_def)

text \<open>What a transaction does with the outcome of its body.\<close>

definition close_tx :: "unit outcome \<Rightarrow> 'v \<Rightarrow> 'o pool \<Rightarrow> unit outcome \<times> 'v \<times> 'o pool" where
  "close_tx r v p = (case r of
      Val _ \<Rightarrow>
        (if stage p = TX_STAGE_WORK then (Val (), v, end_pool (commit_pool p))
         else if stage p = TX_STAGE_ONABORT then (Throw Transaction_error, v, end_pool p)
         else if stage p = TX_STAGE_NONE then (Throw Transaction_error, v, p)
         else (Val (), v, end_pool p))
    | Throw e \<Rightarrow>
        (if e = Manual_tx_abort
         then if stage p = TX_STAGE_WORK then (Die Contract_broken, v, p)
              else (Throw e, v, end_pool p)
         else (Throw e, v, end_pool (if stage p = TX_STAGE_WORK then abort_pool ECANCELED p else p)))
    | Die f \<Rightarrow> (Die f, v, p))"

lemma stage_commit_pool [simp]: "stage (commit_pool p) = TX_STAGE_ONCOMMIT"
  by (simp add: commit_pool_def)

lemma exec_tx_run:
  assumes "begin_rc L p = 0" and "add_lock L locks (v, open_pool p) = (Val 0, v, open_pool p)"
    and "tx (v, open_pool p) = (r, v', p')"
  shows "exec_tx L tx locks (v, p) = close_tx r v' p'"
proof -
  have b: "pmemobj_tx_begin L (v, p) = (Val 0, v, open_pool p)"
    using assms(1) by (simp add: pmemobj_tx_begin_def open_pool_def)
  show ?thesis
    using assms(2,3)
    by (cases r)
       (auto simp: exec_tx_def close_tx_def b bindC_apply thenC_apply cpp_simps tryC_def
         pmemobj_tx_stage_def pmemobj_tx_commit_def pmemobj_tx_end_def pmemobj_tx_abort_def)
qed

lemma transaction_run_run:
  assumes "begin_rc L p = 0" and "tx (v, open_pool p) = (r, v', p')"
  shows "transaction_run L tx (v, p) = close_tx r v' p'"
  unfolding transaction_run_def
  by (rule exec_tx_run) (use assms in \<open>simp_all add: returnC_def\<close>)

lemma exec_tx_begin_fails:
  assumes "begin_rc L p \<noteq> 0"
  shows "exec_tx L tx locks (v, p) =
    (Throw Transaction_error, v,
     p\<lparr>stage := TX_STAGE_ONABORT, depth := Suc (depth p), errnum := begin_rc L p\<rparr>)"
  using assms by (simp add: exec_tx_def pmemobj_tx_begin_def bindC_def throwC_def Let_def)

lemma tx_inv_open_idle: "idle p \<Longrightarrow> tx_inv {} (heap p) 1 (open_pool p)"
  by (simp add: tx_inv_def idle_def)

lemma tx_inv_open_nested: "tx_inv A base d p \<Longrightarrow> stage p = TX_STAGE_WORK \<Longrightarrow> tx_inv A base (Suc d) (open_pool p)"
  by (auto simp: tx_inv_def)

text \<open>Closing the outermost transaction: all of it or nothing of it.\<close>

lemma close_tx_outermost:
  assumes post: "tx_post A base 1 r p" and run: "close_tx r v p = (r', v', p')"
  shows "case r' of
      Val _ \<Rightarrow> r = Val () \<and> heap p' = heap (commit_pool p) \<and> idle p'
    | Throw e \<Rightarrow> r = Throw e \<and> heap p' = base \<and> idle p'
    | Die f \<Rightarrow> heap (recover p') = base"
proof (cases r)
  case (Val u)
  with post have "depth p = 1" "stage p = TX_STAGE_WORK" "errnum p = 0" by (auto simp: tx_inv_def)
  with Val run show ?thesis
    by (auto simp: close_tx_def end_pool_def commit_pool_def idle_def)
next
  case (Throw e)
  with post have inv: "tx_inv A base 1 p" by simp
  show ?thesis
  proof (cases "stage p = TX_STAGE_WORK")
    case True
    with Throw run inv show ?thesis
      by (auto simp: close_tx_def tx_inv_def abort_pool_def end_pool_def idle_def recover_def
          split: if_splits)
  next
    case False
    with Throw run inv show ?thesis
      by (auto simp: close_tx_def tx_inv_def end_pool_def idle_def split: if_splits)
  qed
next
  case (Die f)
  with post run show ?thesis by (auto simp: close_tx_def recover_def)
qed

text \<open>Closing a nested transaction keeps the invariant of the enclosing one.\<close>

lemma close_tx_nested:
  assumes post: "tx_post A base (Suc d) r p" and "0 < d" and run: "close_tx r v p = (r', v', p')"
  shows "tx_post A base d r' p'"
proof (cases r)
  case (Val u)
  with assms show ?thesis
    by (auto simp: close_tx_def tx_inv_def end_pool_def commit_pool_def)
next
  case (Throw e)
  with post have inv: "tx_inv A base (Suc d) p" by simp
  define q where "q = (if stage p = TX_STAGE_WORK then abort_pool ECANCELED p else p)"
  have q: "tx_inv A base (Suc d) q" "stage q = TX_STAGE_ONABORT"
    using inv tx_inv_abort [OF inv, of ECANCELED]
    by (auto simp: q_def ECANCELED_def tx_inv_def split: if_splits)
  have "tx_inv A base d (end_pool q)"
    using q \<open>0 < d\<close> by (auto simp: tx_inv_def end_pool_def abort_pool_def)
  with Throw run inv show ?thesis
    by (auto simp: close_tx_def q_def tx_inv_rollback split: if_splits)
next
  case (Die f)
  with post run show ?thesis by (auto simp: close_tx_def)
qed

context started_pmemobj
begin

lemma tx_safe_transaction_run [tx_safe_intros]:
  assumes "tx_safe A tx"
  shows "tx_safe A (transaction_run L tx)"
proof (rule tx_safeI)
  fix v p base d r v' p'
  assume inv: "tx_inv A base d p" "stage p = TX_STAGE_WORK"
    and run: "transaction_run L tx (v, p) = (r, v', p')"
  obtain r1 v1 p1 where 1: "tx (v, open_pool p) = (r1, v1, p1)" by (cases "tx (v, open_pool p)") auto
  from tx_safeD [OF assms tx_inv_open_nested [OF inv] _ 1]
  have post: "tx_post A base (Suc d) r1 p1" by simp
  from transaction_run_run [where tx = tx and p = p and v = v, OF begin_ok 1] run have "close_tx r1 v1 p1 = (r, v', p')" by simp
  with close_tx_nested [OF post] inv show "tx_post A base d r p'" by (auto simp: tx_inv_def)
qed

end

context pmemobj
begin

text \<open>
  All-or-nothing for any list of locks: the transaction commits the writes of its body, or it
  throws and every persistent object is as before, or the process dies and recovery restores it.
\<close>

lemma exec_tx_atomic:
  assumes safe: "tx_safe {} tx" and start: "idle p" "begin_rc L p = 0"
    and run: "exec_tx L tx locks (v, p) = (r, v', p')"
  shows "case r of
      Val _ \<Rightarrow> (\<exists>q. tx (v, open_pool p) = (Val (), v', q) \<and> heap p' = heap (commit_pool q)) \<and> idle p'
    | Throw e \<Rightarrow> heap p' = heap p \<and> idle p'
    | Die f \<Rightarrow> heap (recover p') = heap p"
proof -
  obtain e where e: "add_lock L locks (v, open_pool p) = (Val e, v, open_pool p)"
    using add_lock_state [of L locks v "open_pool p"] by (elim exE)
  show ?thesis
  proof (cases "e = 0")
    case True
    obtain r1 v1 p1 where 1: "tx (v, open_pool p) = (r1, v1, p1)"
      by (cases "tx (v, open_pool p)") auto
    have post: "tx_post {} (heap p) 1 r1 p1"
      by (rule tx_safeD [OF safe tx_inv_open_idle [OF start(1)] _ 1]) simp
    have closed: "close_tx r1 v1 p1 = (r, v', p')"
      using exec_tx_run [where tx = tx and p = p and v = v, OF start(2) _ 1, of locks] e True run
      by simp
    have "v1 = v'" using closed by (cases r1) (auto simp: close_tx_def split: if_splits)
    with close_tx_outermost [OF post closed] 1 show ?thesis
      by (cases r) auto
  next
    case False
    with e run start show ?thesis
      by (auto simp: exec_tx_def pmemobj_tx_begin_def bindC_def thenC_def throwC_def Let_def
          open_pool_def [symmetric] pmemobj_tx_abort_def pmemobj_tx_end_def)
         (auto simp: abort_pool_def end_pool_def idle_def)
  qed
qed

text \<open>The same with a \<open>pmemobj_tx_begin\<close> that may fail: then the exception leaves the thread inside the transaction.\<close>

lemma exec_tx_atomic_begin:
  assumes safe: "tx_safe {} tx" and start: "idle p"
    and run: "exec_tx L tx locks (v, p) = (r, v', p')"
  shows "case r of
      Val _ \<Rightarrow> begin_rc L p = 0 \<and> (\<exists>q. tx (v, open_pool p) = (Val (), v', q) \<and> heap p' = heap (commit_pool q)) \<and> idle p'
    | Throw e \<Rightarrow> heap p' = heap p \<and> (if begin_rc L p = 0 then idle p' else stage p' = TX_STAGE_ONABORT \<and> depth p' = 1)
    | Die f \<Rightarrow> begin_rc L p = 0 \<and> heap (recover p') = heap p"
proof (cases "begin_rc L p = 0")
  case True
  with exec_tx_atomic [OF safe start True run] show ?thesis by (cases r) simp_all
next
  case False
  with run start show ?thesis by (auto simp: exec_tx_begin_fails idle_def)
qed

end

text \<open>A scoped transaction whose body never calls \<open>commit\<close> changes nothing.\<close>

context pmemobj
begin

lemma manual_scope_undone:
  assumes safe: "tx_safe {} body" and start: "idle p" "begin_rc L p = 0"
    and run: "manual_scope L [] body (v, p) = (r, v', p')" and alive: "\<forall>f. r \<noteq> Die f"
  shows "heap p' = heap p \<and> idle p'"
proof -
  obtain r1 v1 p1 where 1: "body (v, open_pool p) = (r1, v1, p1)"
    by (cases "body (v, open_pool p)") auto
  have post: "tx_post {} (heap p) 1 r1 p1"
    by (rule tx_safeD [OF safe tx_inv_open_idle [OF start(1)] _ 1]) simp
  have ctor: "manual_ctor L [] (v, p) = (Val (), v, open_pool p)"
    using start(2) by (simp add: manual_ctor_def pmemobj_tx_begin_def open_pool_def bindC_def returnC_def)
  define q where "q = (if stage p1 = TX_STAGE_WORK then abort_pool ECANCELED p1 else p1)"
  have inv: "tx_inv {} (heap p) 1 p1" if "\<forall>f. r1 \<noteq> Die f"
    using post that by (cases r1) auto
  have q: "stage q = TX_STAGE_ONABORT" "heap (end_pool q) = heap p" "idle (end_pool q)" if "\<forall>f. r1 \<noteq> Die f"
    using inv [OF that] by (auto simp: q_def tx_inv_def abort_pool_def end_pool_def idle_def)
  have dtor: "manual_dtor (v1, p1) = (Val (), v1, end_pool q)" if "\<forall>f. r1 \<noteq> Die f"
    using q(1) [OF that] inv [OF that]
    by (auto simp: manual_dtor_def pmemobj_tx_stage_def bindC_def thenC_def returnC_def q_def
        pmemobj_tx_abort_def pmemobj_tx_end_def tx_inv_def split: if_splits)
  show ?thesis
  proof (cases r1)
    case (Die f)
    with run ctor 1 alive show ?thesis
      by (auto simp: manual_scope_def thenC_def bindC_def tryC_def)
  qed (use run ctor 1 q(2,3) dtor in
      \<open>auto simp: manual_scope_def thenC_def bindC_def tryC_def returnC_def throwC_def\<close>)
qed

end

section \<open>Properties\<close>

text \<open>C8: \<open>transaction::exec_tx\<close> (the sources' \<open>transaction::run\<close>) is all-or-nothing. For every body
  that snapshots whatever it writes (assignments to persistent fields, allocations, nested transactions),
  with any list of locks, from a thread outside any transaction: if it returns, the body returned and its writes
  are the committed heap; if it throws, every persistent object is as before, without any recovery; if the process
  dies inside it, recovery at the next open restores the heap. After a return the thread is outside any
  transaction, and so it is after an exception, but for one case: when \<open>pmemobj_tx_begin\<close> itself fails,
  \<open>exec_tx\<close> throws without ending the transaction, and the thread is left in \<open>TX_STAGE_ONABORT\<close>.\<close>

theorem exec_tx_all_or_nothing:
  assumes "pmemobj L" and "tx_safe {} tx" and "idle p" and "exec_tx L tx locks (v, p) = (r, v', p')"
  shows "case r of
      Val _ \<Rightarrow> begin_rc L p = 0 \<and> (\<exists>q. tx (v, open_pool p) = (Val (), v', q) \<and> heap p' = heap (commit_pool q)) \<and> idle p'
    | Throw e \<Rightarrow> heap p' = heap p \<and> (if begin_rc L p = 0 then idle p' else stage p' = TX_STAGE_ONABORT \<and> depth p' = 1)
    | Die f \<Rightarrow> begin_rc L p = 0 \<and> heap (recover p') = heap p"
  by (rule pmemobj.exec_tx_atomic_begin [OF assms])

definition cell_pool :: "nat \<Rightarrow> nat pool" where
  "cell_pool n = \<lparr>heap = [1 \<mapsto> n], stage = TX_STAGE_NONE, depth = 0, undo_log = [], freed = [], errnum = 0\<rparr>"

definition set_then_fail :: "nat libpmemobj \<Rightarrow> (unit, nat, unit) pcpp" where
  "set_then_fail L = thenC (p_assign L 1 Some (\<lambda>x _. x) 5) (throwC Out_of_range)"

lemma field_cell: "field Some (\<lambda>x _. x)"
  by (simp add: field_def)

theorem exec_tx_all_or_nothing_witness:
  "heap (snd (snd (exec_tx healthy (set_then_fail healthy) [] ((), cell_pool 3)))) = [1 \<mapsto> 3]"
proof -
  have safe: "tx_safe {} (set_then_fail healthy)"
    unfolding set_then_fail_def by (intro tx_safe_intros field_cell)
  obtain r v' p' where run: "exec_tx healthy (set_then_fail healthy) [] ((), cell_pool 3) = (r, v', p')"
    by (cases "exec_tx healthy (set_then_fail healthy) [] ((), cell_pool 3)") auto
  have open_run: "set_then_fail healthy ((), open_pool (cell_pool 3)) =
    (Throw Out_of_range, (), (open_pool (cell_pool 3))\<lparr>undo_log := [Snapshot 1 (\<lambda>_. 3)], heap := [1 \<mapsto> 5]\<rparr>)"
    by (simp add: set_then_fail_def thenC_apply p_assign_in_tx cpp_simps cell_pool_def healthy_def)
  have "r = Throw Out_of_range"
    using exec_tx_run [where tx = "set_then_fail healthy", OF _ _ open_run, of healthy "[]"] run
    by (simp add: healthy_def close_tx_def returnC_def)
  with exec_tx_all_or_nothing [OF healthy.pmemobj_axioms safe _ run] run show ?thesis
    by (simp add: cell_pool_def idle_def healthy_def)
qed

text \<open>When \<open>pmemobj_tx_begin\<close> fails, \<open>exec_tx\<close> throws without the \<open>pmemobj_tx_end\<close> that
  \<open>tx_base.h\<close> demands after every begin: nothing is written, but the thread is left inside an aborted
  transaction (\<open>TX_STAGE_ONABORT\<close>), so it is not idle any more.\<close>

theorem exec_tx_failed_begin_not_ended:
  assumes "idle p" and "begin_rc L p \<noteq> 0"
  shows "\<exists>p'. exec_tx L tx locks (v, p) = (Throw Transaction_error, v, p') \<and> heap p' = heap p \<and>
    stage p' = TX_STAGE_ONABORT \<and> depth p' = 1"
  using assms by (simp add: exec_tx_begin_fails idle_def)

theorem exec_tx_failed_begin_not_ended_witness:
  "\<exists>p'. exec_tx (healthy\<lparr>begin_rc := (\<lambda>_. ENOMEM)\<rparr>) (returnC ()) [] ((), cell_pool 3) = (Throw Transaction_error, (), p') \<and>
    heap p' = heap (cell_pool 3) \<and> stage p' = TX_STAGE_ONABORT \<and> depth p' = 1"
  by (rule exec_tx_failed_begin_not_ended) (simp_all add: cell_pool_def idle_def ENOMEM_def)

text \<open>A scoped \<open>transaction::manual\<close> whose body does not commit is undone on every exit, by
  return and by exception, and leaves the thread outside any transaction.\<close>

theorem manual_scope_without_commit_undone:
  assumes "pmemobj L" and "tx_safe {} body" and "idle p" and "begin_rc L p = 0"
    and "manual_scope L [] body (v, p) = (r, v', p')" and "\<forall>f. r \<noteq> Die f"
  shows "heap p' = heap p \<and> idle p'"
  by (rule pmemobj.manual_scope_undone [OF assms])

theorem manual_scope_without_commit_undone_witness:
  "\<exists>r v' p'. manual_scope healthy [] (p_assign healthy 1 Some (\<lambda>x _. x) 5) ((), cell_pool 3) = (r, v', p') \<and>
    heap p' = [1 \<mapsto> 3]"
proof -
  have safe: "tx_safe {} (p_assign healthy 1 Some (\<lambda>x (_ :: nat). x) 5 :: (unit, nat, unit) pcpp)"
    by (intro tx_safe_intros field_cell)
  obtain r v' p' where run:
    "manual_scope healthy [] (p_assign healthy 1 Some (\<lambda>x _. x) 5) ((), cell_pool 3) = (r, v', p')"
    by (cases "manual_scope healthy [] (p_assign healthy 1 Some (\<lambda>x _. x) 5) ((), cell_pool 3)") auto
  have "r = Val ()"
    using run
    by (auto simp: manual_scope_def manual_ctor_def manual_dtor_def pmemobj_tx_begin_def healthy_def
        bindC_def thenC_def returnC_def tryC_def p_assign_in_tx cell_pool_def pmemobj_tx_stage_def
        pmemobj_tx_abort_def pmemobj_tx_end_def)
  then show ?thesis
    using manual_scope_without_commit_undone [OF healthy.pmemobj_axioms safe _ _ run] run
    by (auto simp: cell_pool_def idle_def healthy_def)
qed

text \<open>When a lock cannot be added, the constructor of \<open>transaction::manual\<close> aborts and throws
  without \<open>pmemobj_tx_end\<close>; its destructor does not run for an object that was never constructed, so
  the whole scope leaves the thread inside the aborted transaction.\<close>

theorem manual_lock_failure_not_ended:
  assumes "idle p" and "begin_rc L p = 0" and "lock_rc L (open_pool p) k \<noteq> 0"
  shows "\<exists>p'. manual_scope L (k # ks) body (v, p) = (Throw Transaction_error, v, p') \<and> heap p' = heap p \<and>
    stage p' = TX_STAGE_ONABORT \<and> depth p' = 1"
  using assms
  by (simp add: manual_scope_def manual_ctor_def pmemobj_tx_begin_def open_pool_def bindC_def thenC_def
      pmemobj_tx_lock_def returnC_def throwC_def pmemobj_tx_abort_def abort_pool_def idle_def)

theorem manual_lock_failure_not_ended_witness:
  "\<exists>p'. manual_scope (healthy\<lparr>lock_rc := (\<lambda>_ _. EINVAL)\<rparr>) [7] (returnC ()) ((), cell_pool 3) =
      (Throw Transaction_error, (), p') \<and>
    heap p' = heap (cell_pool 3) \<and> stage p' = TX_STAGE_ONABORT \<and> depth p' = 1"
  by (rule manual_lock_failure_not_ended) (simp_all add: cell_pool_def idle_def healthy_def EINVAL_def)

text \<open>When the constructor that \<open>make_persistent\<close> calls throws after a nested transaction of it was
  aborted, the \<open>pmemobj_tx_free\<close> in the catch clause is called outside \<open>TX_STAGE_WORK\<close>, against the
  contract of \<open>tx_base.h\<close>: the abort of the nested transaction has already aborted the enclosing one.\<close>

theorem make_persistent_frees_after_abort:
  assumes "stage p = TX_STAGE_WORK" and "alloc_off L p n = a" and "a \<noteq> 0" and "begin_rc L q = 0"
    and "q = p\<lparr>heap := (heap p)(a \<mapsto> raw), undo_log := Allocated a # undo_log p\<rparr>" and "depth p = 1"
  shows "\<exists>p'. make_persistent L n raw (\<lambda>_. transaction_run L (throwC Out_of_range)) (v, p) = (Die Contract_broken, v, p')"
proof -
  have "throwC Out_of_range (v, open_pool q) = (Throw Out_of_range, v, open_pool q)"
    by (simp add: throwC_def)
  from transaction_run_run [where tx = "throwC Out_of_range", OF assms(4) this]
  have "transaction_run L (throwC Out_of_range) (v, q) =
      (Throw Out_of_range, v, end_pool (abort_pool ECANCELED (open_pool q)))"
    by (simp add: close_tx_def)
  moreover have "stage (end_pool (abort_pool ECANCELED (open_pool q))) = TX_STAGE_ONABORT"
    using assms(5,6) by (simp add: end_pool_def abort_pool_def ECANCELED_def)
  ultimately show ?thesis
    using assms
    by (simp add: make_persistent_def exec_simps pmemobj_tx_stage_def pmemobj_tx_alloc_def tryC_def
        pmemobj_tx_free_def Let_def)
qed

theorem make_persistent_frees_after_abort_witness:
  "\<exists>p'. make_persistent healthy 8 (0 :: nat) (\<lambda>_. transaction_run healthy (throwC Out_of_range)) ((), open_pool (cell_pool 3)) =
    (Die Contract_broken, (), p')"
  by (rule make_persistent_frees_after_abort [OF _ refl _ _ refl])
     (simp_all add: healthy_def next_offset_def cell_pool_def)

end
