(* ===== verification/Rocksdb_Env.thy ===== *)
theory Rocksdb_Env
  imports Prelude
begin

text \<open>
  The functions of RocksDB and CityHash that the sources call and that are not part of the
  repository, as a record of parameters, with the documented behaviour the components rely on as
  locales: the fixed-width integer coding of \<open>util/coding.h\<close>, the three-way key comparison of
  \<open>InternalKeyComparator\<close>, and the Bloom filter policy. The instances at the end (little-endian coding,
  bytewise comparison) are RocksDB's documented defaults; witnesses evaluate on them.
\<close>

section \<open>Parameters\<close>

record rocksdb =
  EncodeFixed64 :: "u64 \<Rightarrow> byte list"
  DecodeFixed64 :: "byte list \<Rightarrow> u64"
  Compare :: "byte list \<Rightarrow> byte list \<Rightarrow> int"
  KeyMayMatch :: "byte list \<Rightarrow> byte list \<Rightarrow> bool"
  prefix_extractor :: "byte list \<Rightarrow> byte list"
  CityHash64WithSeed :: "byte list \<Rightarrow> u64 \<Rightarrow> u64 \<Rightarrow> u64"
  chunk_bloom_bits :: u64

section \<open>Machine words in memory\<close>

text \<open>The machine is little-endian; \<open>memcpy\<close> of 8 bytes into a word is \<open>load64\<close>.\<close>

fun le_bytes :: "nat \<Rightarrow> nat \<Rightarrow> byte list" where
  "le_bytes 0 n = []"
| "le_bytes (Suc k) n = of_nat (n mod 256) # le_bytes k (n div 256)"

fun le_value :: "byte list \<Rightarrow> nat" where
  "le_value [] = 0"
| "le_value (b # bs) = unat b + 256 * le_value bs"

lemma length_le_bytes [simp]: "length (le_bytes k n) = k"
  by (induction k arbitrary: n) auto

lemma le_value_bytes: "le_value (le_bytes k n) = n mod 256 ^ k"
proof (induction k arbitrary: n)
  case (Suc k)
  have "unat (of_nat (n mod 256) :: byte) = n mod 256"
    by (simp add: unat_of_nat)
  then show ?case
    by (simp add: Suc mod_mult2_eq)
qed simp

definition load64 :: "byte list \<Rightarrow> u64" where
  "load64 bs = of_nat (le_value bs)"

section \<open>Contracts\<close>

text \<open>The fixed-width coding is the little-endian one, so that on this machine a word can also be read by \<open>memcpy\<close>.\<close>

locale coding64 =
  fixes E :: rocksdb
  assumes encode_length [simp]: "length (EncodeFixed64 E x) = 8"
    and decode_encode [simp]: "DecodeFixed64 E (EncodeFixed64 E x) = x"
    and load_encode [simp]: "load64 (EncodeFixed64 E x) = x"
begin

lemma peek_encoded:
  "peek (xs @ EncodeFixed64 E w @ ys) (length xs) 8 = Some (EncodeFixed64 E w)"
  using peek_at_append [of xs "EncodeFixed64 E w" ys] by simp

end

locale key_order =
  fixes E :: rocksdb
  assumes compare_swap: "Compare E a b < 0 \<longleftrightarrow> Compare E b a > 0"
    and compare_trans: "Compare E a b < 0 \<Longrightarrow> Compare E b c \<le> 0 \<Longrightarrow> Compare E a c < 0"
    and compare_trans': "Compare E a b \<le> 0 \<Longrightarrow> Compare E b c < 0 \<Longrightarrow> Compare E a c < 0"
begin

lemma compare_zero_sym: "Compare E a b = 0 \<Longrightarrow> Compare E b a = 0"
  using compare_swap [of a b] compare_swap [of b a] by linarith

lemma compare_pos_trans:
  "Compare E a b > 0 \<Longrightarrow> Compare E b c \<ge> 0 \<Longrightarrow> Compare E a c > 0"
  using compare_trans' [of c b a] compare_swap [of b a] compare_swap [of c a] compare_swap [of b c]
  by linarith

end

section \<open>Reading and writing encoded words in a buffer\<close>

text \<open>\<open>DecodeFixed64(ptr)\<close> at a position of a buffer; outside the allocation the read faults.\<close>

definition decode_at :: "rocksdb \<Rightarrow> byte list \<Rightarrow> u64 \<Rightarrow> u64 outcome" where
  "decode_at E b pos = bindO (the_or_die Out_of_bounds (peek b (unat pos) 8)) (\<lambda>bs. Val (DecodeFixed64 E bs))"

text \<open>\<open>memcpy(&w, ptr, sizeof(w))\<close> into a \<open>size_t\<close>.\<close>

definition load_at :: "byte list \<Rightarrow> u64 \<Rightarrow> u64 outcome" where
  "load_at b pos = bindO (the_or_die Out_of_bounds (peek b (unat pos) 8)) (\<lambda>bs. Val (load64 bs))"

context coding64
begin

lemma decode_at_encoded:
  assumes "unat pos = length xs"
  shows "decode_at E (xs @ EncodeFixed64 E w @ ys) pos = Val w"
  using assms peek_encoded [of xs w ys] by (simp add: decode_at_def)

lemma decode_at_peek:
  assumes "peek b (unat pos) 8 = Some (EncodeFixed64 E w)"
  shows "decode_at E b pos = Val w"
  using assms by (simp add: decode_at_def)

lemma load_at_peek:
  assumes "peek b (unat pos) 8 = Some (EncodeFixed64 E w)"
  shows "load_at b pos = Val w"
  using assms by (simp add: load_at_def)

end

section \<open>Documented instances\<close>

subsection \<open>Bytewise comparison\<close>

fun bytewise_compare :: "byte list \<Rightarrow> byte list \<Rightarrow> int" where
  "bytewise_compare [] [] = 0"
| "bytewise_compare [] (b # bs) = -1"
| "bytewise_compare (a # as) [] = 1"
| "bytewise_compare (a # as) (b # bs) =
     (if a < b then -1 else if b < a then 1 else bytewise_compare as bs)"

lemma bytewise_swap: "bytewise_compare a b = - bytewise_compare b a"
  by (induction a b rule: bytewise_compare.induct) auto

lemma bytewise_trans:
  "bytewise_compare a b \<le> 0 \<Longrightarrow> bytewise_compare b c \<le> 0 \<Longrightarrow>
     bytewise_compare a c \<le> 0 \<and> (bytewise_compare a b < 0 \<or> bytewise_compare b c < 0 \<longrightarrow> bytewise_compare a c < 0)"
proof (induction a b arbitrary: c rule: bytewise_compare.induct)
  case (2 b bs)
  then show ?case by (cases c) auto
next
  case (4 a as b bs)
  show ?case
  proof (cases c)
    case Nil
    with "4.prems" show ?thesis by simp
  next
    case (Cons x xs)
    with "4.prems" "4.IH" [of xs] show ?thesis
      by (cases "a < b"; cases "b < x"; cases "b < a"; cases "x < b") auto
  qed
qed auto

definition default_rocksdb :: rocksdb where
  "default_rocksdb = \<lparr>EncodeFixed64 = (\<lambda>w. le_bytes 8 (unat w)),
     DecodeFixed64 = (\<lambda>bs. of_nat (le_value bs)), Compare = bytewise_compare,
     KeyMayMatch = (\<lambda>_ _. True), prefix_extractor = take 4,
     CityHash64WithSeed = (\<lambda>s n seed. foldl (\<lambda>h b. h * 31 + ucast b) seed (take (unat n) s)),
     chunk_bloom_bits = 8\<rparr>"

interpretation le: coding64 default_rocksdb
proof
  fix x :: u64
  have "le_value (le_bytes 8 (unat x)) = unat x"
    using unat_u64_less [of x] by (simp add: le_value_bytes)
  then show "DecodeFixed64 default_rocksdb (EncodeFixed64 default_rocksdb x) = x"
    and "load64 (EncodeFixed64 default_rocksdb x) = x"
    by (simp_all add: default_rocksdb_def load64_def)
qed (simp add: default_rocksdb_def)

interpretation bytewise: key_order default_rocksdb
proof
  fix a b c
  show "Compare default_rocksdb a b < 0 \<longleftrightarrow> Compare default_rocksdb b a > 0"
    using bytewise_swap [of a b] by (simp add: default_rocksdb_def)
  show "Compare default_rocksdb a b < 0 \<Longrightarrow> Compare default_rocksdb b c \<le> 0 \<Longrightarrow>
      Compare default_rocksdb a c < 0"
    and "Compare default_rocksdb a b \<le> 0 \<Longrightarrow> Compare default_rocksdb b c < 0 \<Longrightarrow>
      Compare default_rocksdb a c < 0"
    using bytewise_trans [of a b c] by (simp_all add: default_rocksdb_def)
qed

end
