(* ===== verification/Pmem_Objects.thy ===== *)
theory Pmem_Objects
  imports Pmem_Cpp Rocksdb_Env
begin

text \<open>
  The types of the persistent objects of the write cache and access to their members: byte arrays
  (\<open>persistent_ptr<char[]>\<close>), the range table \<open>NvRangeTab\<close> (\<open>src/nv_range_tab.h\<close>,
  \<open>src/fixed_range_tab.h\<close>; the bucket node \<open>p_range::Node\<close> of \<open>src/pmem_hash_map.cc\<close> has the same
  members and a \<open>next\<close> pointer), and the table, nodes and header of the persistent hash map
  (\<open>src/pmem_hash_map.h\<close>), and the allocator and the root object of the write cache
  (\<open>src/fixed_range_chunk_based_nvm_write_cache.h\<close>). A persistent pointer to an object is its offset in the pool, 0 for
  \<open>nullptr\<close>. Every member is a \<open>p<>\<close> or a \<open>persistent_ptr\<close>, so each assignment to one takes a snapshot
  of exactly that member; bytes of an array are written raw.
\<close>

section \<open>Objects\<close>

record NvRangeTab =
  hash :: u64
  prefixLen :: u64
  "prefix" :: nat
  key_range :: nat
  chunk_num :: u64
  seq_num :: u64
  bufSize :: u64
  buf :: nat
  dataLen :: u64
  extra_buf :: nat
  "next" :: nat

text \<open>A binary32 number that is not negative: \<open>(m, e)\<close> stands for \<open>m / 2 ^ e\<close>.\<close>

type_synonym float32 = "nat \<times> nat"

record pmem_hash_map =
  tabLen :: u32
  tab :: nat
  loadFactor :: float32
  threshold :: u32
  map_size :: u32

record Node2 =
  node_next :: nat
  p_content :: nat

record PersistentAllocator =
  alloc_raw :: nat
  total_size :: u64
  alloc_cur :: u64

record PersistentInfo =
  inited :: bool
  allocated_bits :: u64
  range_map :: nat
  allocator :: nat

text \<open>The class that \<open>src/tests/test_pmem_hash_map.cc\<close> stores in the map.\<close>

record Content =
  content_prefix :: nat
  content_prefixLen :: u64
  content_bufSize :: u64

datatype pobj =
    Bytes "byte list"
  | RangeTab NvRangeTab
  | HashMap pmem_hash_map
  | Node Node2
  | NodeArray "nat list"
  | Allocator PersistentAllocator
  | Info PersistentInfo
  | TestContent Content

type_synonym pmem = "pobj pool"
type_synonym ('v, 'a) prog = "('v, pobj, 'a) pcpp"

section \<open>Members\<close>

fun get_bytes :: "pobj \<Rightarrow> byte list option" where
  "get_bytes (Bytes bs) = Some bs"
| "get_bytes _ = None"

fun set_bytes :: "byte list \<Rightarrow> pobj \<Rightarrow> pobj" where
  "set_bytes bs (Bytes _) = Bytes bs"
| "set_bytes bs ob = ob"

fun get_tab :: "(NvRangeTab \<Rightarrow> 'f) \<Rightarrow> pobj \<Rightarrow> 'f option" where
  "get_tab f (RangeTab t) = Some (f t)"
| "get_tab f _ = None"

fun set_tab :: "(('f \<Rightarrow> 'f) \<Rightarrow> NvRangeTab \<Rightarrow> NvRangeTab) \<Rightarrow> 'f \<Rightarrow> pobj \<Rightarrow> pobj" where
  "set_tab u x (RangeTab t) = RangeTab (u (\<lambda>_. x) t)"
| "set_tab u x ob = ob"

fun get_map :: "(pmem_hash_map \<Rightarrow> 'f) \<Rightarrow> pobj \<Rightarrow> 'f option" where
  "get_map f (HashMap m) = Some (f m)"
| "get_map f _ = None"

fun set_map :: "(('f \<Rightarrow> 'f) \<Rightarrow> pmem_hash_map \<Rightarrow> pmem_hash_map) \<Rightarrow> 'f \<Rightarrow> pobj \<Rightarrow> pobj" where
  "set_map u x (HashMap m) = HashMap (u (\<lambda>_. x) m)"
| "set_map u x ob = ob"

fun get_node :: "(Node2 \<Rightarrow> 'f) \<Rightarrow> pobj \<Rightarrow> 'f option" where
  "get_node f (Node n) = Some (f n)"
| "get_node f _ = None"

fun set_node :: "(('f \<Rightarrow> 'f) \<Rightarrow> Node2 \<Rightarrow> Node2) \<Rightarrow> 'f \<Rightarrow> pobj \<Rightarrow> pobj" where
  "set_node u x (Node n) = Node (u (\<lambda>_. x) n)"
| "set_node u x ob = ob"

fun get_alloc :: "(PersistentAllocator \<Rightarrow> 'f) \<Rightarrow> pobj \<Rightarrow> 'f option" where
  "get_alloc f (Allocator x) = Some (f x)"
| "get_alloc f _ = None"

fun set_alloc :: "(('f \<Rightarrow> 'f) \<Rightarrow> PersistentAllocator \<Rightarrow> PersistentAllocator) \<Rightarrow> 'f \<Rightarrow> pobj \<Rightarrow> pobj" where
  "set_alloc u x (Allocator y) = Allocator (u (\<lambda>_. x) y)"
| "set_alloc u x ob = ob"

fun get_info :: "(PersistentInfo \<Rightarrow> 'f) \<Rightarrow> pobj \<Rightarrow> 'f option" where
  "get_info f (Info x) = Some (f x)"
| "get_info f _ = None"

fun set_info :: "(('f \<Rightarrow> 'f) \<Rightarrow> PersistentInfo \<Rightarrow> PersistentInfo) \<Rightarrow> 'f \<Rightarrow> pobj \<Rightarrow> pobj" where
  "set_info u x (Info y) = Info (u (\<lambda>_. x) y)"
| "set_info u x ob = ob"

text \<open>Slot \<open>i\<close> of an array of persistent pointers; an index outside the array is out of bounds.\<close>

fun get_slot :: "nat \<Rightarrow> pobj \<Rightarrow> nat option" where
  "get_slot i (NodeArray xs) = (if i < length xs then Some (xs ! i) else None)"
| "get_slot i _ = None"

fun set_slot :: "nat \<Rightarrow> nat \<Rightarrow> pobj \<Rightarrow> pobj" where
  "set_slot i x (NodeArray xs) = NodeArray (xs[i := x])"
| "set_slot i x ob = ob"

definition member :: "(('f \<Rightarrow> 'f) \<Rightarrow> 'r \<Rightarrow> 'r) \<Rightarrow> ('r \<Rightarrow> 'f) \<Rightarrow> bool" where
  "member u f \<longleftrightarrow> (\<forall>r x. f (u (\<lambda>_. x) r) = x \<and> u (\<lambda>_. f r) r = r \<and> u (\<lambda>_. f r) (u (\<lambda>_. x) r) = r)"

lemma field_tab: "member u f \<Longrightarrow> field (get_tab f) (set_tab u)"
  unfolding field_def member_def by (intro allI impI, elim get_tab.elims) auto

lemma field_map: "member u f \<Longrightarrow> field (get_map f) (set_map u)"
  unfolding field_def member_def by (intro allI impI, elim get_map.elims) auto

lemma field_node: "member u f \<Longrightarrow> field (get_node f) (set_node u)"
  unfolding field_def member_def by (intro allI impI, elim get_node.elims) auto

lemma field_alloc: "member u f \<Longrightarrow> field (get_alloc f) (set_alloc u)"
  unfolding field_def member_def by (intro allI impI, elim get_alloc.elims) auto

lemma field_info: "member u f \<Longrightarrow> field (get_info f) (set_info u)"
  unfolding field_def member_def by (intro allI impI, elim get_info.elims) auto

lemma field_slot: "field (get_slot i) (set_slot i)"
  unfolding field_def by (intro allI impI, elim get_slot.elims) (auto split: if_splits)

lemma member_tab [simp, intro]:
  "member hash_update hash" "member prefixLen_update prefixLen" "member prefix_update prefix"
  "member key_range_update key_range" "member chunk_num_update chunk_num" "member seq_num_update seq_num"
  "member bufSize_update bufSize" "member buf_update buf" "member dataLen_update dataLen"
  "member extra_buf_update extra_buf" "member next_update next"
  by (simp_all add: member_def)

lemma member_map [simp, intro]:
  "member tabLen_update tabLen" "member tab_update tab" "member loadFactor_update loadFactor"
  "member threshold_update threshold" "member map_size_update map_size"
  by (simp_all add: member_def)

lemma member_node [simp, intro]:
  "member node_next_update node_next" "member p_content_update p_content"
  by (simp_all add: member_def)

lemma member_info [simp, intro]:
  "member alloc_raw_update alloc_raw" "member total_size_update total_size" "member alloc_cur_update alloc_cur"
  "member inited_update inited" "member allocated_bits_update allocated_bits"
  "member range_map_update range_map" "member allocator_update allocator"
  by (simp_all add: member_def)

section \<open>Statements on members\<close>

abbreviation tab_get :: "nat \<Rightarrow> (NvRangeTab \<Rightarrow> 'f) \<Rightarrow> ('v, 'f) prog" where
  "tab_get a f \<equiv> pread a (get_tab f)"

abbreviation tab_set ::
  "pobj libpmemobj \<Rightarrow> nat \<Rightarrow> (NvRangeTab \<Rightarrow> 'f) \<Rightarrow> (('f \<Rightarrow> 'f) \<Rightarrow> NvRangeTab \<Rightarrow> NvRangeTab) \<Rightarrow> 'f \<Rightarrow> ('v, unit) prog" where
  "tab_set L a f u x \<equiv> p_assign L a (get_tab f) (set_tab u) x"

text \<open>
  \<open>memcpy(buf + i, xs, n)\<close> into a byte array: raw, with no snapshot. The program has no check of the bounds. A copy that
  would leave the allocation is undefined behaviour in C++, and the run ends there with a fault: nothing is said about what such
  a copy overwrites or what follows it. When the stored bytes leave the cache of the processor is not modelled.
\<close>

definition memcpy_to :: "nat \<Rightarrow> u64 \<Rightarrow> byte list \<Rightarrow> ('v, unit) prog" where
  "memcpy_to a i xs =
     bindC (pread a get_bytes) (\<lambda>bs.
       case poke bs (unat i) xs of
         None \<Rightarrow> dieC Out_of_bounds
       | Some bs' \<Rightarrow> pwrite_raw a get_bytes set_bytes bs')"

text \<open>The first \<open>n\<close> bytes behind a volatile \<open>const char*\<close>.\<close>

definition read_n :: "nat \<Rightarrow> byte list \<Rightarrow> byte list outcome" where
  "read_n n xs = the_or_die Out_of_bounds (peek xs 0 n)"

lemmas tx_safe_fields = field_tab field_map field_node field_alloc field_info field_slot
  member_tab member_map member_node member_info

lemma memcpy_to_run:
  assumes "heap p a = Some (Bytes bs)"
  shows "memcpy_to a i xs (v, p) =
    (case poke bs (unat i) xs of
       None \<Rightarrow> (Die Out_of_bounds, v, p)
     | Some bs' \<Rightarrow> (Val (), v, p\<lparr>heap := (heap p)(a \<mapsto> Bytes bs')\<rparr>))"
  using assms
  by (simp add: memcpy_to_def bindC_def pread_def dieC_def pwrite_raw_def split: option.split)

lemma tx_safe_memcpy_to [tx_safe_intros]: "a \<in> A \<Longrightarrow> tx_safe A (memcpy_to a i xs)"
  unfolding memcpy_to_def by (auto intro!: tx_safe_intros split: option.split)

lemma tab_get_run: "heap p a = Some (RangeTab t) \<Longrightarrow> tab_get a f (v, p) = (Val (f t), v, p)"
  by (simp add: pread_def)

lemma tab_set_in_tx:
  assumes "stage p = TX_STAGE_WORK" and "heap p a = Some (RangeTab t)"
  shows "tab_set L a f u x (v, p) =
    (if add_range_rc L p a = 0
     then (Val (), v, p\<lparr>undo_log := Snapshot a (set_tab u (f t)) # undo_log p,
                       heap := (heap p)(a \<mapsto> RangeTab (u (\<lambda>_. x) t))\<rparr>)
     else (Throw Transaction_error, v, abort_pool (add_range_rc L p a) p))"
  using assms by (simp add: p_assign_in_tx)

lemma tab_set_outside_tx:
  assumes "stage p \<noteq> TX_STAGE_WORK" and "heap p a = Some (RangeTab t)"
  shows "tab_set L a f u x (v, p) = (Val (), v, p\<lparr>heap := (heap p)(a \<mapsto> RangeTab (u (\<lambda>_. x) t))\<rparr>)"
  using assms by (simp add: p_assign_outside_tx)

section \<open>The environment of the write cache\<close>

text \<open>
  The library on the objects of the write cache together with RocksDB's coding: a transaction always
  starts; under \<open>steady_env\<close> no call fails.
\<close>

locale nvm_env = started_pmemobj L + coding64 E for L :: "pobj libpmemobj" and E :: rocksdb

locale steady_env = steady_pmemobj L + coding64 E for L :: "pobj libpmemobj" and E :: rocksdb

sublocale steady_env \<subseteq> nvm_env ..

interpretation nvm: steady_env healthy default_rocksdb ..

interpretation full: nvm_env exhausted default_rocksdb ..

end
