(* ===== verification/Chunk.thy ===== *)
theory Chunk
  imports Rocksdb_Env
begin

text \<open>
  A chunk of a range buffer and its reader: \<open>ChunkBlk\<close> (\<open>src/chunkblk.h\<close>), the iterator
  \<open>PersistentChunkIterator\<close> (\<open>src/persistent_chunk_iterator.h\<close>, \<open>.cc\<close>), the handle
  \<open>PersistentChunk\<close> (\<open>src/persistent_chunk.h\<close>) and the binary search of
  \<open>FixedRangeTab::searchInChunk\<close> (\<open>src/fixed_range_tab.cc\<close>), and the stub \<open>FixRangeIterator\<close>
  (\<open>src/fixed_range_iterator.h\<close>). A position is a 64-bit byte offset into
  the range buffer \<open>b\<close>; pointer arithmetic wraps, and every access through a position outside the
  buffer faults. Members keep the names of the sources without the trailing underscore.
\<close>

section \<open>ChunkBlk\<close>

record ChunkBlk =
  bloom_bits :: u64
  offset :: u64
  chunkLen :: u64

definition getDatOffset :: "ChunkBlk \<Rightarrow> u64" where
  "getDatOffset blk = offset blk + bloom_bits blk + 8"

section \<open>PersistentChunkIterator\<close>

text \<open>\<open>_Dat_\<close>: the size and the position of a key or a value.\<close>

record dat =
  dat_size :: u64
  dat_buf :: u64

record PersistentChunkIterator =
  vKey :: "dat list"
  vValue :: "dat list"
  current :: u64

text \<open>\<open>sizeof(metaOffset)\<close>: a \<open>persistent_ptr\<close> is one \<open>PMEMoid\<close>, two 64-bit words (\<open>base.h\<close>).\<close>

definition sizeof_p_buf :: u64 where "sizeof_p_buf = 16"

text \<open>\<open>vector<_Dat_>::max_size()\<close>, beyond which \<open>reserve\<close> throws \<open>std::length_error\<close>.\<close>

definition max_dats :: nat where "max_dats = (2 ^ 63 - 1) div 24"

text \<open>
  The loop of the constructor. Its counter \<open>i\<close> is an \<open>int\<close>, converted to \<open>size_t\<close> for the comparison with \<open>nPairs\<close>;
  counting beyond \<open>INT_MAX\<close> is undefined behaviour, a fault. The offset that \<open>DecodeFixed64\<close> reads is
  overwritten by the one that \<open>memcpy\<close> reads.
\<close>

function read_pairs :: "rocksdb \<Rightarrow> byte list \<Rightarrow> u64 \<Rightarrow> u64 \<Rightarrow> 32 word \<Rightarrow> u64 \<Rightarrow> (dat \<times> dat) list outcome" where
  "read_pairs E b data nPairs i metaOffset =
     (if scast i < nPairs
      then bindO (decode_at E b metaOffset) (\<lambda>_.
        bindO (load_at b metaOffset) (\<lambda>pairOffset.
        let pairAddr = data + pairOffset in
        bindO (decode_at E b pairAddr) (\<lambda>ksize.
        let valAddr = pairAddr + (8 + ksize) in
        bindO (decode_at E b valAddr) (\<lambda>vsize.
        bindO (if i = 0x7FFFFFFF then Die Signed_overflow else read_pairs E b data nPairs (i + 1) (metaOffset + 8)) (\<lambda>rest.
          Val ((\<lparr>dat_size = ksize, dat_buf = pairAddr + 8\<rparr>,
                \<lparr>dat_size = vsize, dat_buf = valAddr + 8\<rparr>) # rest))))))
      else Val [])"
  by pat_completeness auto
termination
proof (relation "measure (\<lambda>(E, b, data, nPairs, i, metaOffset). 2 ^ 32 - unat i)", goal_cases)
  case (2 E b data nPairs i metaOffset)
  then have "i \<noteq> - 1" using word_not_simps(3) [of nPairs] by auto
  then have "unat i < unat (i + 1)" by (metis add.commute add_eq_0_iff unatSuc less_add_one plus_1_eq_Suc)
  moreover have "unat (i + 1) < 2 ^ LENGTH(32)" by (rule unsigned_less)
  ultimately show ?case by simp
qed simp

declare read_pairs.simps [simp del]

text \<open>
  The constructor: the number of pairs is the last word of the chunk, and the offset table is taken
  to start \<open>sizeof(metaOffset) * nPairs\<close> bytes before it. \<open>current_\<close> is not initialised: it holds
  whatever the memory held (\<open>cur0\<close>).
\<close>

definition chunk_iterator_ctor ::
  "rocksdb \<Rightarrow> byte list \<Rightarrow> u64 \<Rightarrow> u64 \<Rightarrow> u64 \<Rightarrow> PersistentChunkIterator outcome" where
  "chunk_iterator_ctor E b data sz cur0 =
     (let nPairsOffset = data + sz - 8 in
      bindO (decode_at E b nPairsOffset) (\<lambda>nPairs.
      if max_dats < unat nPairs then Throw Length_error
      else let metaOffset = nPairsOffset - sizeof_p_buf * nPairs in
      bindO (read_pairs E b data nPairs 0 metaOffset) (\<lambda>kvs.
        Val \<lparr>vKey = map fst kvs, vValue = map snd kvs, current = cur0\<rparr>)))"

text \<open>The slice a \<open>_Dat_\<close> denotes.\<close>

definition dat_bytes :: "byte list \<Rightarrow> dat \<Rightarrow> byte list outcome" where
  "dat_bytes b d = the_or_die Out_of_bounds (peek b (unat (dat_buf d)) (unat (dat_size d)))"

definition at_vec :: "'a list \<Rightarrow> u64 \<Rightarrow> 'a outcome" where
  "at_vec xs i = (if unat i < length xs then Val (xs ! unat i) else Throw Out_of_range)"

definition iter_key :: "byte list \<Rightarrow> PersistentChunkIterator \<Rightarrow> byte list outcome" where
  "iter_key b it = bindO (at_vec (vKey it) (current it)) (dat_bytes b)"

definition iter_value :: "byte list \<Rightarrow> PersistentChunkIterator \<Rightarrow> byte list outcome" where
  "iter_value b it = bindO (at_vec (vValue it) (current it)) (dat_bytes b)"

definition SeekToFirst :: "PersistentChunkIterator \<Rightarrow> PersistentChunkIterator" where
  "SeekToFirst it = it\<lparr>current := 0\<rparr>"

definition SeekToLast :: "PersistentChunkIterator \<Rightarrow> PersistentChunkIterator" where
  "SeekToLast it = it\<lparr>current := of_nat (length (vKey it)) - 1\<rparr>"

definition SeekTo :: "u64 \<Rightarrow> PersistentChunkIterator \<Rightarrow> PersistentChunkIterator" where
  "SeekTo idx it = it\<lparr>current := idx\<rparr>"

definition iter_count :: "PersistentChunkIterator \<Rightarrow> u64" where
  "iter_count it = of_nat (length (vKey it))"

definition Valid :: "PersistentChunkIterator \<Rightarrow> bool" where
  "Valid it \<longleftrightarrow> current it < of_nat (length (vKey it))"

definition Next :: "PersistentChunkIterator \<Rightarrow> PersistentChunkIterator outcome" where
  "Next it = (if Valid it then Val (it\<lparr>current := current it + 1\<rparr>) else Die Assert_failed)"

definition Prev :: "PersistentChunkIterator \<Rightarrow> PersistentChunkIterator outcome" where
  "Prev it = (if Valid it then Val (it\<lparr>current := current it - 1\<rparr>) else Die Assert_failed)"

section \<open>The iterator over a range\<close>

text \<open>
  \<open>FixRangeIterator\<close> of \<open>fixed_range_iterator.h\<close> is unfinished: \<open>keys_\<close> is not declared, so its size is an argument, and
  \<open>Key\<close> and \<open>Value\<close> have empty bodies. Its steps are not guarded.
\<close>

record FixRangeIterator =
  fix_current :: u64

definition fix_Next :: "FixRangeIterator \<Rightarrow> FixRangeIterator" where
  "fix_Next it = it\<lparr>fix_current := fix_current it + 1\<rparr>"

definition fix_Prev :: "FixRangeIterator \<Rightarrow> FixRangeIterator" where
  "fix_Prev it = it\<lparr>fix_current := fix_current it - 1\<rparr>"

definition fix_Valid :: "u64 \<Rightarrow> FixRangeIterator \<Rightarrow> bool" where
  "fix_Valid keys_size it \<longleftrightarrow> fix_current it < keys_size"

text \<open>Stepping back from the first key wraps around to an invalid position, and the next step forward returns.\<close>

lemma fix_Prev_from_first:
  "fix_current it = 0 \<Longrightarrow> \<not> fix_Valid n (fix_Prev it) \<and> fix_Next (fix_Prev it) = it"
  using word_not_simps(3) [of n] by (simp add: fix_Valid_def fix_Prev_def fix_Next_def not_less)

section \<open>PersistentChunk\<close>

record PersistentChunk =
  bloomFilterSize :: u64
  chunkSize :: u64
  chunkData :: u64

definition chunk_reset :: "u64 \<Rightarrow> u64 \<Rightarrow> u64 \<Rightarrow> PersistentChunk \<Rightarrow> PersistentChunk" where
  "chunk_reset bfs csz cdata c =
     c\<lparr>bloomFilterSize := bfs, chunkSize := csz, chunkData := cdata\<rparr>"

text \<open>\<open>NewIterator(arena)\<close>: \<open>arena\<close> says whether the pointer is not null.\<close>

definition chunk_NewIterator ::
  "rocksdb \<Rightarrow> byte list \<Rightarrow> bool \<Rightarrow> u64 \<Rightarrow> PersistentChunk \<Rightarrow> PersistentChunkIterator outcome" where
  "chunk_NewIterator E b arena cur0 c =
     (if \<not> arena then Die Assert_failed else chunk_iterator_ctor E b (chunkData c) (chunkSize c) cur0)"

section \<open>Binary search in a chunk\<close>

datatype get_status = OK "byte list" | NotFound

text \<open>
  The \<open>while (left <= right)\<close> loop of \<open>searchInChunk\<close>, over \<open>size_t\<close> bounds: \<open>right = middle - 1\<close>
  wraps around when \<open>middle\<close> is 0. \<open>None\<close> is a search that does not end.
\<close>

partial_function (option) search_loop ::
  "rocksdb \<Rightarrow> byte list \<Rightarrow> PersistentChunkIterator \<Rightarrow> byte list \<Rightarrow> u64 \<Rightarrow> u64 \<Rightarrow> get_status outcome option" where
  "search_loop E b it key left right =
     (if left \<le> right
      then let middle = left + drop_bit 1 (right - left) in
        (case iter_key b (SeekTo middle it) of
          Throw e \<Rightarrow> Some (Throw e)
        | Die f \<Rightarrow> Some (Die f)
        | Val ml_key \<Rightarrow>
            let result = Compare E ml_key key in
            if result = 0
            then Some (bindO (iter_value b (SeekTo middle it)) (\<lambda>raw_value. Val (OK raw_value)))
            else if result < 0 then search_loop E b it key (middle + 1) right
            else search_loop E b it key left (middle - 1))
      else Some (Val NotFound))"

definition searchInChunk ::
  "rocksdb \<Rightarrow> byte list \<Rightarrow> PersistentChunkIterator \<Rightarrow> byte list \<Rightarrow> get_status outcome option" where
  "searchInChunk E b it key = search_loop E b it key 0 (iter_count it - 1)"

section \<open>Correctness of the search\<close>

text \<open>\<open>iter_reads b it kvs\<close>: the arrays of the iterator denote the pairs \<open>kvs\<close>.\<close>

definition iter_reads :: "byte list \<Rightarrow> PersistentChunkIterator \<Rightarrow> (byte list \<times> byte list) list \<Rightarrow> bool" where
  "iter_reads b it kvs \<longleftrightarrow>
     map (dat_bytes b) (vKey it) = map (Val \<circ> fst) kvs \<and>
     map (dat_bytes b) (vValue it) = map (Val \<circ> snd) kvs"

definition keys_sorted :: "rocksdb \<Rightarrow> (byte list \<times> byte list) list \<Rightarrow> bool" where
  "keys_sorted E kvs \<longleftrightarrow> sorted_wrt (\<lambda>x y. Compare E (fst x) (fst y) < 0) kvs"

text \<open>What the search answers: the value of the equal key, else \<open>NotFound\<close>, but \<open>std::out_of_range\<close>
  when every key is above the wanted one (or there is no key).\<close>

definition chunk_answer :: "rocksdb \<Rightarrow> (byte list \<times> byte list) list \<Rightarrow> byte list \<Rightarrow> get_status outcome" where
  "chunk_answer E kvs key =
     (case find (\<lambda>kv. Compare E (fst kv) key = 0) kvs of
        Some kv \<Rightarrow> Val (OK (snd kv))
      | None \<Rightarrow> if kvs = [] \<or> Compare E (fst (hd kvs)) key > 0 then Throw Out_of_range else Val NotFound)"

lemma iter_reads_length: "iter_reads b it kvs \<Longrightarrow> length (vKey it) = length kvs \<and> length (vValue it) = length kvs"
  unfolding iter_reads_def by (metis length_map)

lemma iter_key_SeekTo:
  assumes "iter_reads b it kvs"
  shows "iter_key b (SeekTo i it) =
           (if unat i < length kvs then Val (fst (kvs ! unat i)) else Throw Out_of_range)"
proof -
  have "unat i < length kvs \<Longrightarrow> dat_bytes b (vKey it ! unat i) = Val (fst (kvs ! unat i))"
    using assms unfolding iter_reads_def by (metis comp_apply length_map nth_map)
  with iter_reads_length [OF assms] show ?thesis
    by (simp add: iter_key_def SeekTo_def at_vec_def)
qed

lemma iter_value_SeekTo:
  assumes "iter_reads b it kvs"
  shows "iter_value b (SeekTo i it) =
           (if unat i < length kvs then Val (snd (kvs ! unat i)) else Throw Out_of_range)"
proof -
  have "unat i < length kvs \<Longrightarrow> dat_bytes b (vValue it ! unat i) = Val (snd (kvs ! unat i))"
    using assms unfolding iter_reads_def by (metis comp_apply length_map nth_map)
  with iter_reads_length [OF assms] show ?thesis
    by (simp add: iter_value_def SeekTo_def at_vec_def)
qed

lemma unat_middle:
  fixes left right :: u64
  assumes "left \<le> right"
  shows "unat (left + drop_bit 1 (right - left)) = unat left + (unat right - unat left) div 2"
proof -
  have d: "unat (drop_bit 1 (right - left)) = (unat right - unat left) div 2"
    using assms by (simp add: drop_bit_eq_div unat_div unat_sub)
  have "unat left \<le> unat right" using assms by (simp add: word_le_nat_alt)
  then have "unat left + (unat right - unat left) div 2 \<le> unat right" by linarith
  then have "unat left + unat (drop_bit 1 (right - left)) < 2 ^ LENGTH(64)"
    using d unat_u64_less [of right] by simp
  from unat_add_no_wrap [OF this] d show ?thesis by simp
qed

lemma search_loop_step:
  assumes "iter_reads b it kvs" and "left \<le> right"
    and "middle = left + drop_bit 1 (right - left)"
  shows "search_loop E b it key left right =
    (if length kvs \<le> unat middle then Some (Throw Out_of_range)
     else let result = Compare E (fst (kvs ! unat middle)) key in
       if result = 0 then Some (Val (OK (snd (kvs ! unat middle))))
       else if result < 0 then search_loop E b it key (middle + 1) right
       else search_loop E b it key left (middle - 1))"
  using assms(2,3)
  by (subst search_loop.simps)
     (simp add: iter_key_SeekTo [OF assms(1)] iter_value_SeekTo [OF assms(1)] Let_def)

text \<open>Once \<open>right\<close> has wrapped around, the next probe is far outside the chunk.\<close>

lemma search_loop_wrapped:
  assumes "iter_reads b it kvs" and "length kvs < 2 ^ 63"
  shows "search_loop E b it key 0 (- 1) = Some (Throw Out_of_range)"
proof -
  have "unat ((0 :: u64) + drop_bit 1 (- 1 - 0)) = 9223372036854775807"
    by (subst unat_middle) (simp_all add: unsigned_minus_1_eq_mask mask_eq_exp_minus_1)
  then show ?thesis
    using assms(2) by (subst search_loop_step [OF assms(1) _ refl]) simp_all
qed

context key_order
begin

lemma find_sorted_unique:
  assumes "keys_sorted E kvs" and "i < length kvs" and "Compare E (fst (kvs ! i)) key = 0"
  shows "find (\<lambda>kv. Compare E (fst kv) key = 0) kvs = Some (kvs ! i)"
proof -
  have "Compare E (fst (kvs ! j)) key \<noteq> 0" if "j < i" for j
    using compare_trans [of "fst (kvs ! j)" "fst (kvs ! i)" key] assms that
    by (auto simp: keys_sorted_def sorted_wrt_iff_nth_less)
  with assms show ?thesis by (auto simp: find_Some_iff)
qed

lemma sorted_above:
  assumes "keys_sorted E kvs" and "i < length kvs" and "Compare E (fst (kvs ! i)) key > 0"
    and "i \<le> j" and "j < length kvs"
  shows "Compare E (fst (kvs ! j)) key > 0"
proof (cases "i = j")
  case False
  with assms have "Compare E (fst (kvs ! i)) (fst (kvs ! j)) < 0"
    by (simp add: keys_sorted_def sorted_wrt_iff_nth_less)
  then have "Compare E (fst (kvs ! j)) (fst (kvs ! i)) > 0" using compare_swap by blast
  with assms(3) show ?thesis using compare_pos_trans by (meson less_imp_le)
qed (use assms in simp)

lemma sorted_below:
  assumes "keys_sorted E kvs" and "i < length kvs" and "Compare E (fst (kvs ! i)) key < 0"
    and "j \<le> i"
  shows "Compare E (fst (kvs ! j)) key < 0"
proof (cases "i = j")
  case False
  with assms have "Compare E (fst (kvs ! j)) (fst (kvs ! i)) < 0"
    by (simp add: keys_sorted_def sorted_wrt_iff_nth_less)
  with assms(3) show ?thesis using compare_trans by (meson less_imp_le)
qed (use assms in simp)

lemma find_none_if_split:
  assumes "\<forall>i < l. Compare E (fst (kvs ! i)) key < 0"
    and "\<forall>i. l \<le> i \<and> i < length kvs \<longrightarrow> Compare E (fst (kvs ! i)) key > 0"
  shows "find (\<lambda>kv. Compare E (fst kv) key = 0) kvs = None"
proof -
  have "Compare E (fst (kvs ! i)) key \<noteq> 0" if "i < length kvs" for i
    using assms that by (metis less_irrefl not_le)
  then show ?thesis by (fastforce simp: find_None_iff in_set_conv_nth)
qed

text \<open>
  The loop from any bounds that enclose the answer: keys below \<open>left\<close> are smaller, keys above
  \<open>right\<close> are larger than the wanted one.
\<close>

lemma search_loop_correct:
  assumes reads: "iter_reads b it kvs" and sorted: "keys_sorted E kvs" and small: "length kvs < 2 ^ 63"
    and "unat left \<le> unat right + 1" and "unat right < length kvs"
    and "\<forall>i < unat left. Compare E (fst (kvs ! i)) key < 0"
    and "\<forall>i. unat right < i \<and> i < length kvs \<longrightarrow> Compare E (fst (kvs ! i)) key > 0"
  shows "search_loop E b it key left right = Some (chunk_answer E kvs key)"
  using assms(4-7)
proof (induction "unat right + 1 - unat left" arbitrary: left right rule: less_induct)
  case less
  let ?m = "left + drop_bit 1 (right - left)"
  show ?case
  proof (cases "left \<le> right")
    case False
    then have l: "unat left = unat right + 1"
      using less.prems(1) by (simp add: word_le_nat_alt)
    then have none: "find (\<lambda>kv. Compare E (fst kv) key = 0) kvs = None"
      using less.prems by (intro find_none_if_split [of "unat left"]) auto
    have "Compare E (fst (kvs ! 0)) key < 0" using l less.prems(3) by simp
    moreover have "kvs \<noteq> []" using less.prems(2) by auto
    ultimately have "\<not> Compare E (fst (hd kvs)) key > 0" by (simp add: hd_conv_nth)
    with \<open>kvs \<noteq> []\<close> none False show ?thesis
      by (subst search_loop.simps) (simp add: chunk_answer_def)
  next
    case True
    then have lr: "unat left \<le> unat right" by (simp add: word_le_nat_alt)
    have m: "unat ?m = unat left + (unat right - unat left) div 2" by (rule unat_middle [OF True])
    then have bounds: "unat left \<le> unat ?m" "unat ?m \<le> unat right" "unat ?m < length kvs"
      using lr less.prems(2) by linarith+
    consider (eq) "Compare E (fst (kvs ! unat ?m)) key = 0"
      | (lt) "Compare E (fst (kvs ! unat ?m)) key < 0"
      | (gt) "Compare E (fst (kvs ! unat ?m)) key > 0" by linarith
    then show ?thesis
    proof cases
      case eq
      with bounds find_sorted_unique [OF sorted bounds(3) eq] show ?thesis
        by (simp add: search_loop_step [OF reads True refl] chunk_answer_def)
    next
      case lt
      have m1: "unat (?m + 1) = unat ?m + 1"
        using bounds(3) small by (subst unat_add_no_wrap) simp_all
      have "search_loop E b it key (?m + 1) right = Some (chunk_answer E kvs key)"
      proof (rule less.hyps)
        show "\<forall>i < unat (?m + 1). Compare E (fst (kvs ! i)) key < 0"
          using sorted_below [OF sorted bounds(3) lt] m1 by auto
      qed (use m1 bounds lr less.prems in auto)
      with lt bounds show ?thesis by (simp add: search_loop_step [OF reads True refl])
    next
      case gt
      have above: "\<forall>i. unat ?m \<le> i \<and> i < length kvs \<longrightarrow> Compare E (fst (kvs ! i)) key > 0"
        using sorted_above [OF sorted bounds(3) gt] by blast
      show ?thesis
      proof (cases "?m = 0")
        case True
        then have "left = 0" using bounds(1) by (simp add: unat_eq_zero)
        have none: "find (\<lambda>kv. Compare E (fst kv) key = 0) kvs = None"
          using above True by (intro find_none_if_split [of 0]) auto
        have "kvs \<noteq> []" using bounds(3) by auto
        with gt True none have "chunk_answer E kvs key = Throw Out_of_range"
          by (simp add: chunk_answer_def hd_conv_nth)
        with gt bounds True \<open>left = 0\<close> search_loop_wrapped [OF reads small] show ?thesis
          using search_loop_step [OF reads \<open>left \<le> right\<close> refl, of E key] by simp
      next
        case False
        then have m1: "unat (?m - 1) = unat ?m - 1" "0 < unat ?m"
          by (blast intro: unat_minus_one, simp add: unat_gt_0)
        have "search_loop E b it key left (?m - 1) = Some (chunk_answer E kvs key)"
        proof (rule less.hyps)
          show "\<forall>i. unat (?m - 1) < i \<and> i < length kvs \<longrightarrow> Compare E (fst (kvs ! i)) key > 0"
            using above m1 by auto
        qed (use m1 bounds lr less.prems in auto)
        with gt bounds show ?thesis by (simp add: search_loop_step [OF reads \<open>left \<le> right\<close> refl])
      qed
    qed
  qed
qed

lemma searchInChunk_correct:
  assumes "iter_reads b it kvs" and "keys_sorted E kvs" and "length kvs < 2 ^ 63"
  shows "searchInChunk E b it key = Some (chunk_answer E kvs key)"
proof (cases "kvs = []")
  case True
  with assms iter_reads_length [OF assms(1)] show ?thesis
    by (simp add: searchInChunk_def iter_count_def search_loop_wrapped chunk_answer_def)
next
  case False
  have n: "unat (of_nat (length kvs) :: u64) = length kvs"
    using assms(3) by (intro unat_of_nat_u64) simp
  have "(of_nat (length kvs) :: u64) \<noteq> 0"
    using n False by (metis length_0_conv unat_0)
  then have "unat (of_nat (length kvs) - 1 :: u64) = length kvs - 1"
    using n by (simp add: unat_minus_one)
  then have "search_loop E b it key 0 (of_nat (length kvs) - 1) = Some (chunk_answer E kvs key)"
    using False by (intro search_loop_correct [OF assms]) auto
  with iter_reads_length [OF assms(1)] show ?thesis
    by (simp add: searchInChunk_def iter_count_def)
qed

end

section \<open>The chunk format and what the iterator reads\<close>

text \<open>
  The format documented above the constructor: key size, key, value size, value for each pair, the
  8-byte offset of each pair, the number of pairs. \<open>gap\<close> is what lies between the offset table and
  the count; the documented format has none.
\<close>

definition encode_pair :: "rocksdb \<Rightarrow> byte list \<times> byte list \<Rightarrow> byte list" where
  "encode_pair E kv =
     EncodeFixed64 E (of_nat (length (fst kv))) @ fst kv @
     EncodeFixed64 E (of_nat (length (snd kv))) @ snd kv"

definition pairs_bytes :: "rocksdb \<Rightarrow> (byte list \<times> byte list) list \<Rightarrow> byte list" where
  "pairs_bytes E kvs = concat (map (encode_pair E) kvs)"

definition pair_offset :: "rocksdb \<Rightarrow> (byte list \<times> byte list) list \<Rightarrow> nat \<Rightarrow> nat" where
  "pair_offset E kvs i = length (pairs_bytes E (take i kvs))"

definition offset_table :: "rocksdb \<Rightarrow> (byte list \<times> byte list) list \<Rightarrow> byte list" where
  "offset_table E kvs = concat (map (\<lambda>i. EncodeFixed64 E (of_nat (pair_offset E kvs i))) [0..<length kvs])"

definition chunk_bytes :: "rocksdb \<Rightarrow> byte list \<Rightarrow> (byte list \<times> byte list) list \<Rightarrow> byte list" where
  "chunk_bytes E gap kvs =
     pairs_bytes E kvs @ offset_table E kvs @ gap @ EncodeFixed64 E (of_nat (length kvs))"

lemma pairs_bytes_split:
  assumes "i < length kvs"
  shows "pairs_bytes E kvs =
    pairs_bytes E (take i kvs) @ encode_pair E (kvs ! i) @ pairs_bytes E (drop (Suc i) kvs)"
proof -
  have "kvs = take i kvs @ kvs ! i # drop (Suc i) kvs"
    using assms by (rule id_take_nth_drop)
  then have "map (encode_pair E) kvs =
    map (encode_pair E) (take i kvs) @ encode_pair E (kvs ! i) # map (encode_pair E) (drop (Suc i) kvs)"
    by (metis list.simps(9) map_append)
  then show ?thesis by (simp add: pairs_bytes_def)
qed

lemma concat_const_length:
  assumes "\<And>x. length (f x) = n"
  shows "length (concat (map f xs)) = n * length xs"
  by (induction xs) (simp_all add: assms)

lemma peek_concat_fixed:
  assumes "\<And>x. length (f x) = n" and "i < length xs"
  shows "peek (pre @ concat (map f xs) @ post) (length pre + n * i) n = Some (f (xs ! i))"
proof -
  have "xs = take i xs @ xs ! i # drop (Suc i) xs" using assms(2) by (rule id_take_nth_drop)
  then have "concat (map f xs) = concat (map f (take i xs)) @ f (xs ! i) @ concat (map f (drop (Suc i) xs))"
    by (metis concat.simps(2) concat_append list.simps(9) map_append)
  then have "pre @ concat (map f xs) @ post =
    (pre @ concat (map f (take i xs))) @ f (xs ! i) @ concat (map f (drop (Suc i) xs)) @ post" by simp
  moreover have "length (pre @ concat (map f (take i xs))) = length pre + n * i"
    using assms by (simp add: concat_const_length)
  ultimately show ?thesis using peek_at_append assms(1) by metis
qed

context coding64
begin

lemma offset_table_length: "length (offset_table E kvs) = 8 * length kvs"
  by (simp add: offset_table_def concat_const_length)

lemma peek_offset_table:
  assumes "i < length kvs"
  shows "peek (pre @ offset_table E kvs @ post) (length pre + 8 * i) 8 =
    Some (EncodeFixed64 E (of_nat (pair_offset E kvs i)))"
  using peek_concat_fixed [of "\<lambda>i. EncodeFixed64 E (of_nat (pair_offset E kvs i))" 8 i "[0..<length kvs]"
      pre post] assms
  by (simp add: offset_table_def)

text \<open>The words and slices of one encoded pair that lies at a position of a buffer.\<close>

lemma read_encoded_pair:
  assumes b: "b = pre @ encode_pair E (k, v) @ post" and small: "length b < 2 ^ 64"
    and pos: "unat pos = length pre"
  defines "vpos \<equiv> pos + (8 + of_nat (length k))"
  shows "decode_at E b pos = Val (of_nat (length k))" and "decode_at E b vpos = Val (of_nat (length v))"
    and "dat_bytes b \<lparr>dat_size = of_nat (length k), dat_buf = pos + 8\<rparr> = Val k"
    and "dat_bytes b \<lparr>dat_size = of_nat (length v), dat_buf = vpos + 8\<rparr> = Val v"
proof -
  have len: "length pre + (16 + length k + length v) \<le> length b"
    using b by (simp add: encode_pair_def)
  have uk: "unat (of_nat (length k) :: u64) = length k" and uv: "unat (of_nat (length v) :: u64) = length v"
    using len small by (simp_all add: unat_of_nat)
  have u8: "unat (pos + 8) = length pre + 8"
    using pos len small by (simp add: unat_add_no_wrap)
  have "unat (8 + of_nat (length k) :: u64) = 8 + length k"
    using len small uk by (subst unat_add_no_wrap) simp_all
  then have uvp: "unat vpos = length pre + 8 + length k"
    unfolding vpos_def using pos len small by (subst unat_add_no_wrap) simp_all
  have uvp8: "unat (vpos + 8) = length pre + 16 + length k"
    using uvp len small by (subst unat_add_no_wrap) simp_all
  show "decode_at E b pos = Val (of_nat (length k))"
    using decode_at_encoded [OF pos] b by (simp add: encode_pair_def)
  show "decode_at E b vpos = Val (of_nat (length v))"
    using decode_at_encoded [of vpos "pre @ EncodeFixed64 E (of_nat (length k)) @ k"] uvp b
    by (simp add: encode_pair_def)
  show "dat_bytes b \<lparr>dat_size = of_nat (length k), dat_buf = pos + 8\<rparr> = Val k"
    using peek_at_append [of "pre @ EncodeFixed64 E (of_nat (length k))" k] u8 uk b
    by (simp add: dat_bytes_def encode_pair_def)
  show "dat_bytes b \<lparr>dat_size = of_nat (length v), dat_buf = vpos + 8\<rparr> = Val v"
    using peek_at_append [of "pre @ EncodeFixed64 E (of_nat (length k)) @ k @ EncodeFixed64 E (of_nat (length v))" v]
      uvp8 uv b
    by (simp add: dat_bytes_def encode_pair_def ac_simps)
qed

lemma pairs_bytes_length_ge: "16 * length kvs \<le> length (pairs_bytes E kvs)"
  by (induction kvs) (simp_all add: pairs_bytes_def encode_pair_def)

text \<open>The loop from pair \<open>i\<close> on reads the pairs that are left, as long as the counter does not overflow.\<close>

lemma read_pairs_ok:
  assumes "length b < 2 ^ 64" and "i + length kvs < 2 ^ 31"
    and "\<forall>j < length kvs. peek b (unat (meta + of_nat (8 * j))) 8 = Some (EncodeFixed64 E (w j))"
    and "\<forall>j < length kvs. \<exists>pre post. b = pre @ encode_pair E (kvs ! j) @ post \<and> unat (data + w j) = length pre"
  shows "\<exists>ds. read_pairs E b data (of_nat (i + length kvs)) (of_nat i) meta = Val ds \<and>
    map (dat_bytes b \<circ> fst) ds = map (Val \<circ> fst) kvs \<and> map (dat_bytes b \<circ> snd) ds = map (Val \<circ> snd) kvs"
  using assms(2-4)
proof (induction kvs arbitrary: i meta w)
  case Nil
  then show ?case by (subst read_pairs.simps) (simp add: scast_counter)
next
  case (Cons kv kvs)
  obtain k v where kv: "kv = (k, v)" by (cases kv)
  from Cons.prems(3) [rule_format, of 0] kv obtain pre post where
    b: "b = pre @ encode_pair E (k, v) @ post" and pos: "unat (data + w 0) = length pre" by auto
  note r = read_encoded_pair [OF b assms(1) pos]
  have "peek b (unat meta) 8 = Some (EncodeFixed64 E (w 0))" using Cons.prems(2) [rule_format, of 0] by simp
  then have meta0: "decode_at E b meta = Val (w 0)" "load_at b meta = Val (w 0)"
    by (simp_all add: decode_at_peek load_at_peek)
  have "\<exists>ds. read_pairs E b data (of_nat (Suc i + length kvs)) (of_nat (Suc i)) (meta + 8) = Val ds \<and>
    map (dat_bytes b \<circ> fst) ds = map (Val \<circ> fst) kvs \<and> map (dat_bytes b \<circ> snd) ds = map (Val \<circ> snd) kvs"
  proof (rule Cons.IH [of "Suc i" "meta + 8" "\<lambda>j. w (Suc j)"])
    show "\<forall>j < length kvs. peek b (unat (meta + 8 + of_nat (8 * j))) 8 = Some (EncodeFixed64 E (w (Suc j)))"
    proof (intro allI impI)
      fix j assume "j < length kvs"
      with Cons.prems(2) [rule_format, of "Suc j"]
      show "peek b (unat (meta + 8 + of_nat (8 * j))) 8 = Some (EncodeFixed64 E (w (Suc j)))" by (simp add: algebra_simps)
    qed
    show "\<forall>j < length kvs. \<exists>pre post. b = pre @ encode_pair E (kvs ! j) @ post \<and>
        unat (data + w (Suc j)) = length pre"
    proof (intro allI impI)
      fix j assume "j < length kvs"
      with Cons.prems(3) [rule_format, of "Suc j"]
      show "\<exists>pre post. b = pre @ encode_pair E (kvs ! j) @ post \<and> unat (data + w (Suc j)) = length pre"
        by simp
    qed
  qed (use Cons.prems(1) in simp)
  then obtain ds where rest: "read_pairs E b data (of_nat (i + length (kv # kvs))) (of_nat i + 1) (meta + 8) = Val ds"
    "map (dat_bytes b \<circ> fst) ds = map (Val \<circ> fst) kvs" "map (dat_bytes b \<circ> snd) ds = map (Val \<circ> snd) kvs"
    by (auto simp: add.commute add.left_commute)
  have test: "scast (of_nat i :: 32 word) < (of_nat (i + length (kv # kvs)) :: u64)"
  proof -
    have "unat (of_nat i :: u64) = i" "unat (of_nat (i + length (kv # kvs)) :: u64) = i + length (kv # kvs)"
      using Cons.prems(1) by (intro unat_of_nat_u64; simp)+
    then show ?thesis using Cons.prems(1) by (simp add: scast_counter word_less_nat_alt del: of_nat_add list.size)
  qed
  have inc: "(of_nat i :: 32 word) \<noteq> 0x7FFFFFFF"
    using Cons.prems(1) by (intro counter_not_max) simp
  let ?vpos = "data + w 0 + (8 + of_nat (length k))"
  have "read_pairs E b data (of_nat (i + length (kv # kvs))) (of_nat i) meta =
    Val ((\<lparr>dat_size = of_nat (length k), dat_buf = data + w 0 + 8\<rparr>, \<lparr>dat_size = of_nat (length v), dat_buf = ?vpos + 8\<rparr>) # ds)"
    by (subst read_pairs.simps) (simp only: test inc meta0 r(1,2) rest(1) if_True if_False bindO.simps Let_def)
  with r(3,4) kv rest(2,3) show ?case by (simp add: comp_def del: of_nat_add)
qed

text \<open>
  The constructor on a chunk at position \<open>length pre\<close> of the buffer. It finds the offset table only
  when \<open>8 * n\<close> more bytes lie between the table and the count: \<open>sizeof(metaOffset)\<close> is 16, an entry is 8.
\<close>

lemma chunk_iterator_reads_gapped:
  assumes gap: "length gap = 8 * length kvs" and few: "length kvs < 2 ^ 31"
    and b: "b = pre @ chunk_bytes E gap kvs @ post" and small: "length b < 2 ^ 63"
  shows "\<exists>it. chunk_iterator_ctor E b (of_nat (length pre)) (of_nat (length (chunk_bytes E gap kvs))) cur0 = Val it
    \<and> iter_reads b it kvs \<and> current it = cur0"
proof -
  let ?n = "length kvs" and ?data = "of_nat (length pre) :: u64"
  let ?P = "length (pairs_bytes E kvs)"
  have len: "length (chunk_bytes E gap kvs) = ?P + 16 * ?n + 8"
    using gap by (simp add: chunk_bytes_def offset_table_length)
  then have le: "length pre + ?P + 16 * ?n + 8 \<le> length b" using b by simp
  let ?cnt = "?data + of_nat (length (chunk_bytes E gap kvs)) - 8"
  have cnt: "?cnt = of_nat (length pre + ?P + 16 * ?n)" by (simp add: len)
  have ucnt: "unat ?cnt = length pre + ?P + 16 * ?n"
    unfolding cnt using le small by (intro unat_of_nat_u64) simp
  have un: "unat (of_nat ?n :: u64) = ?n" using le small by (intro unat_of_nat_u64) simp
  have d1: "decode_at E b ?cnt = Val (of_nat ?n)"
    using decode_at_encoded [of ?cnt "pre @ pairs_bytes E kvs @ offset_table E kvs @ gap"] ucnt b gap
    by (simp add: chunk_bytes_def offset_table_length)
  let ?meta = "?cnt - sizeof_p_buf * of_nat ?n"
  have meta: "?meta = of_nat (length pre + ?P)"
    unfolding cnt sizeof_p_buf_def by simp
  have tab: "peek b (unat (?meta + of_nat (8 * i))) 8 = Some (EncodeFixed64 E (of_nat (pair_offset E kvs i)))" if "i < ?n" for i
  proof -
    have "?meta + of_nat (8 * i) = of_nat (length pre + ?P + 8 * i)" unfolding meta by simp
    moreover have "unat (of_nat (length pre + ?P + 8 * i) :: u64) = length pre + ?P + 8 * i"
      using le small that by (intro unat_of_nat_u64) simp
    ultimately have u: "unat (?meta + of_nat (8 * i)) = length pre + ?P + 8 * i" by (simp only:)
    have "peek b (length pre + ?P + 8 * i) 8 = Some (EncodeFixed64 E (of_nat (pair_offset E kvs i)))"
      using peek_offset_table [OF that, of "pre @ pairs_bytes E kvs"] b by (simp add: chunk_bytes_def)
    then show ?thesis by (simp only: u)
  qed
  have at: "\<exists>pre' post'. b = pre' @ encode_pair E (kvs ! i) @ post' \<and>
      unat (?data + of_nat (pair_offset E kvs i)) = length pre'" if "i < ?n" for i
  proof (intro exI conjI)
    show "b = (pre @ pairs_bytes E (take i kvs)) @ encode_pair E (kvs ! i) @
        (pairs_bytes E (drop (Suc i) kvs) @ offset_table E kvs @ gap @ EncodeFixed64 E (of_nat ?n) @ post)"
      using b pairs_bytes_split [OF that, of E] by (simp add: chunk_bytes_def)
    have "length pre + pair_offset E kvs i < 2 ^ 64"
      using le small pairs_bytes_split [OF that, of E] by (simp add: pair_offset_def)
    then have "unat (of_nat (length pre + pair_offset E kvs i) :: u64) = length pre + pair_offset E kvs i"
      by (intro unat_of_nat_u64) simp
    then show "unat (?data + of_nat (pair_offset E kvs i)) = length (pre @ pairs_bytes E (take i kvs))"
      by (simp add: pair_offset_def)
  qed
  obtain ds where ds: "read_pairs E b ?data (of_nat ?n) 0 ?meta = Val ds"
    "map (dat_bytes b \<circ> fst) ds = map (Val \<circ> fst) kvs" "map (dat_bytes b \<circ> snd) ds = map (Val \<circ> snd) kvs"
    using read_pairs_ok [of b 0 kvs ?meta "\<lambda>i. of_nat (pair_offset E kvs i)" ?data] tab at small few by auto
  have "\<not> max_dats < ?n" using le small pairs_bytes_length_ge [of kvs] by (simp add: max_dats_def)
  with d1 ds un show ?thesis by (simp add: chunk_iterator_ctor_def iter_reads_def Let_def)
qed

end

section \<open>Moving the iterator\<close>

fun Nexts :: "nat \<Rightarrow> PersistentChunkIterator \<Rightarrow> PersistentChunkIterator outcome" where
  "Nexts 0 it = Val it"
| "Nexts (Suc n) it = bindO (Nexts n it) Next"

fun Prevs :: "nat \<Rightarrow> PersistentChunkIterator \<Rightarrow> PersistentChunkIterator outcome" where
  "Prevs 0 it = Val it"
| "Prevs (Suc n) it = bindO (Prevs n it) Prev"

lemma Valid_at:
  assumes "length (vKey it) < 2 ^ 63"
  shows "Valid it \<longleftrightarrow> unat (current it) < length (vKey it)"
proof -
  have "unat (of_nat (length (vKey it)) :: u64) = length (vKey it)"
    using assms by (intro unat_of_nat_u64) simp
  then show ?thesis by (simp add: Valid_def word_less_nat_alt)
qed

lemma Nexts_from_first:
  assumes "length (vKey it) < 2 ^ 63" and "i \<le> length (vKey it)"
  shows "Nexts i (SeekToFirst it) = Val (SeekTo (of_nat i) it)"
  using assms(2)
proof (induction i)
  case (Suc i)
  then have "unat (of_nat i :: u64) = i" using assms(1) by (intro unat_of_nat_u64) simp
  with Suc assms(1) show ?case
    by (simp add: Next_def Valid_at SeekTo_def add.commute)
qed (simp add: SeekToFirst_def SeekTo_def)

lemma Prevs_from_last:
  assumes "length (vKey it) < 2 ^ 63" and "i \<le> length (vKey it)"
  shows "Prevs i (SeekToLast it) = Val (SeekTo (of_nat (length (vKey it)) - 1 - of_nat i) it)"
  using assms(2)
proof (induction i)
  case (Suc i)
  have "(of_nat (length (vKey it)) - 1 - of_nat i :: u64) = of_nat (length (vKey it) - 1 - i)"
    using Suc.prems by (simp add: of_nat_diff)
  moreover have "unat (of_nat (length (vKey it) - 1 - i) :: u64) = length (vKey it) - 1 - i"
    using assms(1) by (intro unat_of_nat_u64) simp
  ultimately show ?case
    using Suc assms(1) by (simp add: Prev_def Valid_at SeekTo_def algebra_simps)
qed (simp add: SeekToLast_def SeekTo_def)

section \<open>Properties\<close>

text \<open>C13: The iterator constructor is total on chunks of fewer than 2 ^ 31 pairs (its counter is an \<open>int\<close>) whose offset table is followed by
  as many bytes again as it has (the layout the constructor's arithmetic implies), wherever they lie
  in the range buffer, and its key and value arrays denote exactly the encoded pairs, in order.\<close>

theorem chunk_iterator_roundtrip:
  assumes "coding64 E" and "length gap = 8 * length kvs" and "length kvs < 2 ^ 31"
    and "b = pre @ chunk_bytes E gap kvs @ post" and "length b < 2 ^ 63"
  shows "\<exists>it. chunk_iterator_ctor E b (of_nat (length pre)) (of_nat (length (chunk_bytes E gap kvs))) cur0 = Val it
    \<and> iter_reads b it kvs \<and> current it = cur0"
  by (rule coding64.chunk_iterator_reads_gapped [OF assms])

theorem chunk_iterator_roundtrip_witness:
  "\<exists>it. chunk_iterator_ctor default_rocksdb
      ([9] @ chunk_bytes default_rocksdb (replicate 8 0) [([1, 2], [3])] @ [7]) (of_nat (length [9 :: byte]))
      (of_nat (length (chunk_bytes default_rocksdb (replicate 8 0) [([1, 2], [3])]))) 5 = Val it
    \<and> iter_reads ([9] @ chunk_bytes default_rocksdb (replicate 8 0) [([1, 2], [3])] @ [7]) it [([1, 2], [3])]
    \<and> current it = 5"
  by (rule chunk_iterator_roundtrip [OF le.coding64_axioms])
     (simp_all add: chunk_bytes_def le.offset_table_length pairs_bytes_def encode_pair_def)

text \<open>C9: \<open>searchInChunk\<close> terminates on every sorted chunk and answers exactly: the value stored under
  the equal key; \<open>NotFound\<close> when there is none and the first key is below the wanted one; and the
  exception \<open>std::out_of_range\<close> when the chunk is empty or all its keys are above the wanted one,
  because \<open>right\<close> wraps around to \<open>SIZE_MAX\<close>.\<close>

theorem searchInChunk_exact:
  assumes "key_order E" and "iter_reads b it kvs" and "keys_sorted E kvs" and "length kvs < 2 ^ 63"
  shows "searchInChunk E b it key = Some (chunk_answer E kvs key)"
  by (rule key_order.searchInChunk_correct [OF assms])

definition demo_iter :: PersistentChunkIterator where
  "demo_iter = \<lparr>vKey = [\<lparr>dat_size = 1, dat_buf = 0\<rparr>, \<lparr>dat_size = 1, dat_buf = 2\<rparr>],
                vValue = [\<lparr>dat_size = 1, dat_buf = 1\<rparr>, \<lparr>dat_size = 1, dat_buf = 3\<rparr>], current = 0\<rparr>"

theorem searchInChunk_exact_witness:
  "searchInChunk default_rocksdb [10, 1, 20, 2] demo_iter [20] = Some (Val (OK [2])) \<and>
   searchInChunk default_rocksdb [10, 1, 20, 2] demo_iter [15] = Some (Val NotFound) \<and>
   searchInChunk default_rocksdb [10, 1, 20, 2] demo_iter [5] = Some (Throw Out_of_range)"
proof -
  have r: "iter_reads [10, 1, 20, 2] demo_iter [([10], [1]), ([20], [2])]"
    by (simp add: iter_reads_def demo_iter_def dat_bytes_def peek_def)
  have s: "keys_sorted default_rocksdb [([10], [1]), ([20], [2])]"
    by (simp add: keys_sorted_def default_rocksdb_def)
  show ?thesis
    using searchInChunk_exact [OF bytewise.key_order_axioms r s]
    by (simp add: chunk_answer_def default_rocksdb_def)
qed

text \<open>C31: A forward scan visits the pairs in order and ends: after \<open>i\<close> calls of \<open>Next\<close> from
  \<open>SeekToFirst\<close> the iterator is valid iff \<open>i\<close> is below the number of pairs, and \<open>key()\<close> and \<open>value()\<close>
  then return pair \<open>i\<close>; a backward scan from \<open>SeekToLast\<close> visits them in reverse and ends invalid.\<close>

theorem chunk_scan_visits_all:
  assumes "iter_reads b it kvs" and "length kvs < 2 ^ 63" and "i \<le> length kvs"
  shows "\<exists>f g. Nexts i (SeekToFirst it) = Val f \<and> (Valid f \<longleftrightarrow> i < length kvs) \<and>
      (i < length kvs \<longrightarrow> iter_key b f = Val (fst (kvs ! i)) \<and> iter_value b f = Val (snd (kvs ! i))) \<and>
    Prevs i (SeekToLast it) = Val g \<and> (Valid g \<longleftrightarrow> i < length kvs) \<and>
      (i < length kvs \<longrightarrow> iter_key b g = Val (fst (kvs ! (length kvs - 1 - i))))"
proof -
  have len: "length (vKey it) = length kvs" using iter_reads_length [OF assms(1)] by simp
  let ?f = "SeekTo (of_nat i) it" and ?g = "SeekTo (of_nat (length kvs) - 1 - of_nat i) it"
  have ui: "unat (of_nat i :: u64) = i" using assms by (intro unat_of_nat_u64) simp
  have ug: "unat (of_nat (length kvs) - 1 - of_nat i :: u64) = (if i < length kvs then length kvs - 1 - i else 2 ^ 64 - 1)"
  proof (cases "i < length kvs")
    case True
    then have "(of_nat (length kvs) - 1 - of_nat i :: u64) = of_nat (length kvs - 1 - i)"
      by (simp add: of_nat_diff)
    moreover have "unat (of_nat (length kvs - 1 - i) :: u64) = length kvs - 1 - i"
      using assms(2) by (intro unat_of_nat_u64) simp
    ultimately show ?thesis using True by (simp only: if_True)
  next
    case False
    with assms(3) have "(of_nat (length kvs) - 1 - of_nat i :: u64) = - 1" by simp
    then show ?thesis
      using False by (simp add: unsigned_minus_1_eq_mask mask_eq_exp_minus_1)
  qed
  have "Nexts i (SeekToFirst it) = Val ?f" "Prevs i (SeekToLast it) = Val ?g"
    using Nexts_from_first [of it i] Prevs_from_last [of it i] assms len by simp_all
  moreover have "Valid ?f \<longleftrightarrow> i < length kvs" "Valid ?g \<longleftrightarrow> i < length kvs"
    using assms len ui ug by (auto simp: Valid_at SeekTo_def)
  ultimately show ?thesis
    using ui ug by (auto simp: iter_key_SeekTo [OF assms(1)] iter_value_SeekTo [OF assms(1)])
qed

theorem chunk_scan_visits_all_witness:
  "\<exists>f g. Nexts 1 (SeekToFirst demo_iter) = Val f \<and> Valid f \<and> iter_key [10, 1, 20, 2] f = Val [20] \<and>
    iter_value [10, 1, 20, 2] f = Val [2] \<and>
    Prevs 1 (SeekToLast demo_iter) = Val g \<and> Valid g \<and> iter_key [10, 1, 20, 2] g = Val [10]"
proof -
  have r: "iter_reads [10, 1, 20, 2] demo_iter [([10], [1]), ([20], [2])]"
    by (simp add: iter_reads_def demo_iter_def dat_bytes_def peek_def)
  show ?thesis using chunk_scan_visits_all [OF r, of 1] by simp
qed

text \<open>A chunk in the documented format (no bytes between the offset table and the count) is
  misread as soon as it holds a pair: for one pair whose value has 8 bytes, the constructor takes the
  value itself for the pair's offset, and a value that decodes to an address outside the buffer makes it
  read out of bounds.\<close>

theorem documented_chunk_misread:
  assumes "coding64 E" and "b = pre @ chunk_bytes E [] [(k, EncodeFixed64 E w)] @ post"
    and "length b < 2 ^ 63" and "length b \<le> unat (of_nat (length pre) + w)"
  shows "chunk_iterator_ctor E b (of_nat (length pre))
    (of_nat (length (chunk_bytes E [] [(k, EncodeFixed64 E w)]))) cur0 = Die Out_of_bounds"
proof -
  note enc = coding64.encode_length [OF assms(1)] coding64.decode_encode [OF assms(1)]
  let ?chunk = "chunk_bytes E [] [(k, EncodeFixed64 E w)]"
  let ?head = "EncodeFixed64 E (of_nat (length k)) @ k @ EncodeFixed64 E 8"
  have chunk: "?chunk = ?head @ EncodeFixed64 E w @ EncodeFixed64 E 0 @ EncodeFixed64 E 1"
    by (simp add: chunk_bytes_def pairs_bytes_def encode_pair_def offset_table_def pair_offset_def enc)
  have len: "length ?chunk = length k + 40" by (simp add: chunk enc)
  have le: "length pre + length k + 40 \<le> length b" using assms(2) len by simp
  let ?cnt = "of_nat (length pre) + of_nat (length ?chunk) - 8 :: u64"
  have cnt: "?cnt = of_nat (length pre + length k + 32)" by (simp add: len)
  have meta: "?cnt - sizeof_p_buf * 1 = of_nat (length pre + length k + 16)"
    unfolding cnt sizeof_p_buf_def by simp
  have u: "unat (of_nat (length pre + length k + n) :: u64) = length pre + length k + n" if "n \<le> 40" for n
    using le assms(3) that by (intro unat_of_nat_u64) simp
  have d1: "decode_at E b ?cnt = Val 1"
    unfolding cnt
    using coding64.decode_at_encoded [OF assms(1), of "of_nat (length pre + length k + 32)"
        "pre @ ?head @ EncodeFixed64 E w @ EncodeFixed64 E 0" 1 post] assms(2) u [of 32]
    by (simp add: chunk enc)
  have word: "peek b (unat (of_nat (length pre + length k + 16) :: u64)) 8 = Some (EncodeFixed64 E w)"
    using coding64.peek_encoded [OF assms(1), of "pre @ ?head" w "EncodeFixed64 E 0 @ EncodeFixed64 E 1 @ post"]
      assms(2) u [of 16] by (simp add: chunk enc ac_simps)
  have d2: "decode_at E b (?cnt - sizeof_p_buf * 1) = Val w" "load_at b (?cnt - sizeof_p_buf * 1) = Val w"
    unfolding meta by (rule coding64.decode_at_peek [OF assms(1) word], rule coding64.load_at_peek [OF assms(1) word])
  have d3: "decode_at E b (of_nat (length pre) + w) = Die Out_of_bounds"
    using assms(4) by (simp add: decode_at_def peek_def)
  have "read_pairs E b (of_nat (length pre)) 1 0 (?cnt - sizeof_p_buf * 1) = Die Out_of_bounds"
    by (subst read_pairs.simps) (simp only: d2 d3 bindO.simps Let_def scast_0, simp)
  then show ?thesis by (simp add: chunk_iterator_ctor_def Let_def d1 max_dats_def)
qed

theorem documented_chunk_misread_witness:
  "chunk_iterator_ctor default_rocksdb ([] @ chunk_bytes default_rocksdb [] [([1], EncodeFixed64 default_rocksdb 255)] @ [])
    (of_nat (length ([] :: byte list)))
    (of_nat (length (chunk_bytes default_rocksdb [] [([1], EncodeFixed64 default_rocksdb 255)]))) 0 = Die Out_of_bounds"
  by (rule documented_chunk_misread [OF le.coding64_axioms refl])
     (simp_all add: chunk_bytes_def le.offset_table_length pairs_bytes_def encode_pair_def)

end
