(* ===== verification/Range_Tab.thy ===== *)
theory Range_Tab
  imports Pmem_Objects Chunk
begin

text \<open>
  A range of the write cache: the persistent table \<open>NvRangeTab\<close> (\<open>src/nv_range_tab.h\<close>,
  \<open>src/fixed_range_tab.h\<close>) and its volatile handle \<open>FixedRangeTab\<close> (\<open>src/fixed_range_tab.h\<close>,
  \<open>src/fixed_range_tab.cc\<close>). Chunks are appended to the buffer of the table inside a transaction;
  \<open>blklist\<close> is the volatile index of the chunks, rebuilt from the buffer when a pool is reopened.
  The sources name the table both \<open>nonVolatileTab_\<close> and \<open>pmap_node_\<close>; both are the member
  \<open>nonVolatileTab\<close> here. \<open>Append\<close> calls the three-argument constructor of \<open>ChunkBlk\<close> with two
  arguments; the missing first one is read as \<open>chunk_bloom_bits_\<close>, the one \<open>RebuildBlkList\<close> passes.
  \<open>Get\<close> counts the blocks with \<open>chunk_offset_.size()\<close>, a member that is not declared, and indexes \<open>blklist\<close>; the
  count is read as the size of \<open>blklist\<close>.
\<close>

section \<open>NvRangeTab\<close>

definition CHUNK_BLOOM_FILTER_LEN :: nat where "CHUNK_BLOOM_FILTER_LEN = 8"

definition nv_hashCode :: "rocksdb \<Rightarrow> byte list \<Rightarrow> u64" where
  "nv_hashCode E pre = CityHash64WithSeed E pre (of_nat (length pre)) 16"

text \<open>The constructor of \<open>nv_range_tab.h\<close> on the fresh object at \<open>a\<close>.\<close>

definition NvRangeTab_ctor ::
  "pobj libpmemobj \<Rightarrow> rocksdb \<Rightarrow> byte list \<Rightarrow> u64 \<Rightarrow> nat \<Rightarrow> ('v, unit) prog" where
  "NvRangeTab_ctor L E pre range_size a =
     transaction_run L
       (bindC (make_persistent_array L (length pre) (Bytes (replicate (length pre) 0))) (\<lambda>pa.
        thenC (tab_set L a prefix prefix_update pa)
        (thenC (memcpy_to pa 0 pre)
        (thenC (tab_set L a key_range key_range_update 0)
        (thenC (tab_set L a extra_buf extra_buf_update 0)
        (bindC (make_persistent_array L (unat range_size) (Bytes (replicate (unat range_size) 0))) (\<lambda>ba.
        thenC (tab_set L a buf buf_update ba)
        (thenC (tab_set L a hash hash_update (nv_hashCode E pre))
        (thenC (tab_set L a prefixLen prefixLen_update (of_nat (length pre)))
        (thenC (tab_set L a chunk_num chunk_num_update 0)
        (thenC (tab_set L a seq_num seq_num_update 0)
        (thenC (tab_set L a bufSize bufSize_update range_size)
          (tab_set L a dataLen dataLen_update 0)))))))))))))"

text \<open>\<open>hashCode()\<close> of \<open>fixed_range_tab.h\<close>: it reads \<open>prefixLen + 1\<close> bytes of the stored prefix.\<close>

definition tab_hashCode :: "rocksdb \<Rightarrow> nat \<Rightarrow> ('v, u64) prog" where
  "tab_hashCode E a =
     bindC (tab_get a prefix) (\<lambda>pa.
     bindC (tab_get a prefixLen) (\<lambda>n.
     bindC (pread pa get_bytes) (\<lambda>bs.
     bindC (liftO (read_n (unat (n + 1)) bs)) (\<lambda>key.
       returnC (CityHash64WithSeed E key n 16)))))"

text \<open>\<open>GetRawBuf()\<close>.\<close>

definition GetRawBuf :: "nat \<Rightarrow> ('v, nat) prog" where
  "GetRawBuf a = tab_get a buf"

section \<open>FixedRangeTab: state\<close>

text \<open>\<open>raw_\<close> points to a byte of a buffer: the buffer and the index.\<close>

record FixedRangeTab =
  nonVolatileTab :: nat
  blklist :: "ChunkBlk list"
  raw :: "nat \<times> u64"
  in_compaction :: bool
  pendding_clean :: u64

definition vget :: "('v \<Rightarrow> 'a) \<Rightarrow> ('v, 'a) prog" where
  "vget f = (\<lambda>(v, p). (Val (f v), v, p))"

definition vmod :: "('v \<Rightarrow> 'v) \<Rightarrow> ('v, unit) prog" where
  "vmod g = (\<lambda>(v, p). (Val (), g v, p))"

type_synonym 'a tab_op = "(FixedRangeTab, 'a) prog"

definition getPersistentData :: "nat tab_op" where
  "getPersistentData = vget nonVolatileTab"

section \<open>Rebuilding the block list\<close>

text \<open>The \<open>while (offset < dataLen)\<close> loop; \<open>None\<close> is a loop that never ends.\<close>

partial_function (option) rebuild_loop ::
  "rocksdb \<Rightarrow> byte list \<Rightarrow> u64 \<Rightarrow> u64 \<Rightarrow> ChunkBlk list \<Rightarrow> ChunkBlk list outcome option" where
  "rebuild_loop E b len off blks =
     (if off < len
      then (case decode_at E b (off + chunk_bloom_bits E) of
          Throw e \<Rightarrow> Some (Throw e)
        | Die f \<Rightarrow> Some (Die f)
        | Val clen \<Rightarrow>
            rebuild_loop E b len (off + (chunk_bloom_bits E + 8 + clen))
              (blks @ [\<lparr>bloom_bits = chunk_bloom_bits E, offset = off, chunkLen = clen\<rparr>]))
      else Some (Val blks))"

definition loop_result :: "'a outcome option \<Rightarrow> 'a outcome" where
  "loop_result r = (case r of None \<Rightarrow> Die Diverges | Some x \<Rightarrow> x)"

definition RebuildBlkList :: "rocksdb \<Rightarrow> unit tab_op" where
  "RebuildBlkList E =
     bindC (vget nonVolatileTab) (\<lambda>a.
     bindC (tab_get a dataLen) (\<lambda>len.
     bindC (tab_get a buf) (\<lambda>ba.
     bindC (pread ba get_bytes) (\<lambda>b.
     bindC (vget blklist) (\<lambda>blks.
     bindC (liftO (loop_result (rebuild_loop E b len 16 blks))) (\<lambda>blks'.
       vmod (\<lambda>v. v\<lparr>blklist := blks'\<rparr>)))))))"

text \<open>
  The constructor over a table: a table whose \<open>seq_num_\<close> is 0 is taken for a new one and gets a zeroed
  header, any other one is rebuilt.
\<close>

definition FixedRangeTab_ctor :: "rocksdb \<Rightarrow> nat \<Rightarrow> unit tab_op" where
  "FixedRangeTab_ctor E a =
     thenC (vmod (\<lambda>v. v\<lparr>nonVolatileTab := a, blklist := [], pendding_clean := 0\<rparr>))
     (bindC (tab_get a seq_num) (\<lambda>s.
        if s = 0
        then bindC (tab_get a buf) (\<lambda>ba.
             thenC (memcpy_to ba 0 (EncodeFixed64 E 0))
             (thenC (memcpy_to ba 8 (EncodeFixed64 E 0))
               (vmod (\<lambda>v. v\<lparr>raw := (ba, 16), in_compaction := False\<rparr>))))
        else RebuildBlkList E))"

section \<open>The real key range\<close>

definition GetKVData :: "rocksdb \<Rightarrow> byte list \<Rightarrow> u64 \<Rightarrow> byte list outcome" where
  "GetKVData E b item_off =
     bindO (decode_at E b item_off) (\<lambda>n.
       the_or_die Out_of_bounds (peek b (unat (item_off + 8)) (unat n)))"

definition GetRealRange :: "rocksdb \<Rightarrow> nat \<Rightarrow> ('v, byte list \<times> byte list) prog" where
  "GetRealRange E a =
     bindC (tab_get a key_range) (\<lambda>kr.
       if kr \<noteq> 0
       then bindC (pread kr get_bytes) (\<lambda>b.
            bindC (liftO (GetKVData E b 0)) (\<lambda>real_start.
            bindC (liftO (GetKVData E b (of_nat (length real_start) + 8))) (\<lambda>real_end.
              returnC (real_start, real_end))))
       else returnC ([], []))"

text \<open>The bytes of a key range: each key after its length.\<close>

definition write_range :: "rocksdb \<Rightarrow> nat \<Rightarrow> byte list \<Rightarrow> byte list \<Rightarrow> ('v, unit) prog" where
  "write_range E kr st en =
     thenC (memcpy_to kr 0 (EncodeFixed64 E (of_nat (length st))))
     (thenC (memcpy_to kr 8 st)
     (thenC (memcpy_to kr (of_nat (8 + length st)) (EncodeFixed64 E (of_nat (length en))))
       (memcpy_to kr (of_nat (8 + length st) + 8) en)))"

definition CheckAndUpdateKeyRange ::
  "pobj libpmemobj \<Rightarrow> rocksdb \<Rightarrow> nat \<Rightarrow> byte list \<Rightarrow> byte list \<Rightarrow> ('v, unit) prog" where
  "CheckAndUpdateKeyRange L E a new_start new_end =
     bindC (GetRealRange E a) (\<lambda>(cur_start0, cur_end0).
       let update_start = Compare E cur_start0 new_start > 0;
           cur_start = (if update_start then new_start else cur_start0);
           update_end = Compare E cur_end0 new_end < 0;
           cur_end = (if update_end then new_end else cur_end0) in
       if update_start \<or> update_end
       then transaction_run L
         (bindC (make_persistent_array L (length cur_start + length cur_end + 16)
                  (Bytes (replicate (length cur_start + length cur_end + 16) 0))) (\<lambda>kr.
            write_range E kr cur_start cur_end))
       else returnC ())"

text \<open>\<open>freqUpdateInfo::update\<close>: the one place that stores a key range and counts chunks.\<close>

definition freqUpdateInfo_update ::
  "pobj libpmemobj \<Rightarrow> rocksdb \<Rightarrow> nat \<Rightarrow> byte list \<Rightarrow> byte list \<Rightarrow> ('v, unit) prog" where
  "freqUpdateInfo_update L E a real_start real_end =
     transaction_run L
       (bindC (make_persistent_array L (length real_start + length real_end + 16)
                (Bytes (replicate (length real_start + length real_end + 16) 0))) (\<lambda>kr.
        thenC (tab_set L a key_range key_range_update kr)
        (thenC (write_range E kr real_start real_end)
        (bindC (tab_get a chunk_num) (\<lambda>c.
         thenC (tab_set L a chunk_num chunk_num_update (c + 1))
         (bindC (tab_get a seq_num) (\<lambda>s. tab_set L a seq_num seq_num_update (s + 1))))))))"

section \<open>Append\<close>

text \<open>
  The body of the transaction. \<open>cur_len\<close> is the data length, the copies are raw, the new data length
  is a snapshotted assignment, and the block list is volatile. \<open>pt 0\<close> to \<open>pt 4\<close> mark the points between the
  statements that write persistent memory, where a crash can be put (\<open>kill_points\<close>); in the program itself
  nothing happens there.
\<close>

definition append_body_at ::
  "(nat \<Rightarrow> unit tab_op) \<Rightarrow> pobj libpmemobj \<Rightarrow> rocksdb \<Rightarrow> byte list \<Rightarrow> byte list \<Rightarrow> unit tab_op" where
  "append_body_at pt L E bloom_data chunk_data =
     bindC (vget nonVolatileTab) (\<lambda>a.
     bindC (tab_get a dataLen) (\<lambda>cur_len.
     let csize = of_nat (length chunk_data) in
     thenC (vmod (\<lambda>v. v\<lparr>blklist := blklist v @
               [\<lparr>bloom_bits = chunk_bloom_bits E, offset = cur_len, chunkLen = csize\<rparr>]\<rparr>))
     (bindC (tab_get a buf) (\<lambda>ba.
      bindC (liftO (read_n CHUNK_BLOOM_FILTER_LEN bloom_data)) (\<lambda>bloom.
      thenC (pt 0)
      (thenC (memcpy_to ba cur_len bloom)
      (thenC (pt 1)
      (thenC (memcpy_to ba (cur_len + 8) (EncodeFixed64 E csize))
      (thenC (pt 2)
      (thenC (memcpy_to ba (cur_len + 8 + 8) chunk_data)
      (thenC (pt 3)
      (thenC (tab_set L a dataLen dataLen_update (cur_len + 8 + 8 + csize))
        (pt 4)))))))))))))"

definition append_body :: "pobj libpmemobj \<Rightarrow> rocksdb \<Rightarrow> byte list \<Rightarrow> byte list \<Rightarrow> unit tab_op" where
  "append_body = append_body_at (\<lambda>_. returnC ())"

text \<open>
  \<open>Append\<close>: the test for a full buffer or too many chunks has an empty body, so the chunk is appended
  in every case; then the key range is checked.
\<close>

definition max_chunk_num_to_flush :: u64 where "max_chunk_num_to_flush = 1024"

definition Append_at ::
  "(nat \<Rightarrow> unit tab_op) \<Rightarrow> pobj libpmemobj \<Rightarrow> rocksdb \<Rightarrow> byte list \<Rightarrow> byte list \<Rightarrow> byte list \<Rightarrow> byte list \<Rightarrow> unit tab_op" where
  "Append_at pt L E bloom_data chunk_data new_start new_end =
     bindC (vget nonVolatileTab) (\<lambda>a.
     bindC (tab_get a dataLen) (\<lambda>len.
     bindC (tab_get a bufSize) (\<lambda>bsz.
     bindC (tab_get a chunk_num) (\<lambda>cn.
     thenC (if len + of_nat (length chunk_data) \<ge> bsz \<or> cn > max_chunk_num_to_flush
            then returnC () else returnC ())
     (thenC (transaction_run L (append_body_at pt L E bloom_data chunk_data))
     (thenC (pt 5)
       (CheckAndUpdateKeyRange L E a new_start new_end)))))))"

definition Append ::
  "pobj libpmemobj \<Rightarrow> rocksdb \<Rightarrow> byte list \<Rightarrow> byte list \<Rightarrow> byte list \<Rightarrow> byte list \<Rightarrow> unit tab_op" where
  "Append = Append_at (\<lambda>_. returnC ())"

text \<open>
  A process that is killed: at the point \<open>k\<close>, when \<open>at = Some k\<close>, in the middle of a statement whose stores
  so far are \<open>tear\<close>. Behind the copies (points 4 and 5) there is no copy to be torn.
\<close>

definition kill_points :: "nat option \<Rightarrow> ('s, unit) cpp \<Rightarrow> nat \<Rightarrow> ('s, unit) cpp" where
  "kill_points at tear j =
     (if at = Some j then thenC (if j < 4 then tear else returnC ()) (dieC Killed) else returnC ())"

section \<open>Get\<close>

text \<open>
  The loop \<open>for (size_t i = size - 1; i >= 0; i--)\<close> from the newest block to the oldest: \<open>n\<close> is \<open>i + 1\<close>.
  The condition always holds, so after block 0 the index wraps to \<open>SIZE_MAX\<close> and \<open>at\<close> throws.
\<close>

fun get_loop ::
  "rocksdb \<Rightarrow> byte list \<Rightarrow> ChunkBlk list \<Rightarrow> byte list \<Rightarrow> nat \<Rightarrow> get_status outcome" where
  "get_loop E b blks key 0 = Throw Out_of_range"
| "get_loop E b blks key (Suc i) =
     (if length blks \<le> i then Throw Out_of_range
      else let blk = blks ! i in
      bindO (the_or_die Out_of_bounds (peek b (unat (offset blk)) (unat (chunk_bloom_bits E)))) (\<lambda>bloom.
        if KeyMayMatch E key bloom
        then bindO (chunk_iterator_ctor E b (getDatOffset blk) (chunkLen blk) 0) (\<lambda>it.
             bindO (loop_result (searchInChunk E b it key)) (\<lambda>s.
               case s of OK v \<Rightarrow> Val (OK v) | NotFound \<Rightarrow> get_loop E b blks key i))
        else get_loop E b blks key i))"

definition tab_Get :: "rocksdb \<Rightarrow> byte list \<Rightarrow> get_status tab_op" where
  "tab_Get E key =
     bindC (vget nonVolatileTab) (\<lambda>a.
     bindC (tab_get a buf) (\<lambda>ba.
     bindC (pread ba get_bytes) (\<lambda>b.
     bindC (vget blklist) (\<lambda>blks.
       liftO (get_loop E b blks key (length blks))))))"

section \<open>The other operations\<close>

text \<open>\<open>NewInternalIterator\<close>: one chunk iterator per block, in block order, handed to the merging iterator.\<close>

fun chunk_iterators ::
  "rocksdb \<Rightarrow> byte list \<Rightarrow> bool \<Rightarrow> PersistentChunk \<Rightarrow> ChunkBlk list \<Rightarrow> PersistentChunkIterator list outcome" where
  "chunk_iterators E b arena pchk [] = Val []"
| "chunk_iterators E b arena pchk (blk # blks) =
     (let pchk' = chunk_reset (chunk_bloom_bits E) (chunkLen blk) (getDatOffset blk) pchk in
      bindO (chunk_NewIterator E b arena 0 pchk') (\<lambda>it.
      bindO (chunk_iterators E b arena pchk' blks) (\<lambda>its. Val (it # its))))"

definition NewInternalIterator ::
  "rocksdb \<Rightarrow> bool \<Rightarrow> PersistentChunk \<Rightarrow> PersistentChunkIterator list tab_op" where
  "NewInternalIterator E arena pchk =
     bindC (vget nonVolatileTab) (\<lambda>a.
     bindC (tab_get a buf) (\<lambda>ba.
     bindC (pread ba get_bytes) (\<lambda>b.
     bindC (vget blklist) (\<lambda>blks.
       liftO (chunk_iterators E b arena pchk blks)))))"

record Usage =
  usage_chunk_num :: u64
  range_size :: u64
  usage_start :: "byte list"
  usage_end :: "byte list"

definition RangeUsage :: "rocksdb \<Rightarrow> nat \<Rightarrow> ('v, Usage) prog" where
  "RangeUsage E a =
     bindC (GetRealRange E a) (\<lambda>(st, en).
     bindC (tab_get a dataLen) (\<lambda>len.
     bindC (tab_get a chunk_num) (\<lambda>cn.
       returnC \<lparr>usage_chunk_num = cn, range_size = len, usage_start = st, usage_end = en\<rparr>)))"

definition SetExtraBuf :: "pobj libpmemobj \<Rightarrow> nat \<Rightarrow> unit tab_op" where
  "SetExtraBuf L extra =
     bindC (vget nonVolatileTab) (\<lambda>a.
     thenC (tab_set L a extra_buf extra_buf_update extra)
     (bindC (tab_get a seq_num) (\<lambda>s.
      thenC (tab_set L extra seq_num seq_num_update s)
      (bindC (tab_get extra buf) (\<lambda>ba. vmod (\<lambda>v. v\<lparr>raw := (ba, 0)\<rparr>))))))"

definition CleanUp :: "pobj libpmemobj \<Rightarrow> rocksdb \<Rightarrow> unit tab_op" where
  "CleanUp L E =
     bindC (vget nonVolatileTab) (\<lambda>a.
     thenC (tab_set L a dataLen dataLen_update 0) (RebuildBlkList E))"

definition SetCompactionWorking :: "bool \<Rightarrow> unit tab_op" where
  "SetCompactionWorking working =
     vmod (\<lambda>v. v\<lparr>pendding_clean := of_nat (length (blklist v)), in_compaction := working\<rparr>)"

definition IsCompactWorking :: "bool tab_op" where
  "IsCompactWorking = vget in_compaction"

definition max_range_size :: "u64 tab_op" where
  "max_range_size = bindC (vget nonVolatileTab) (\<lambda>a. tab_get a bufSize)"

text \<open>\<open>ConsistencyCheck\<close> reads the sequence number before \<open>raw_\<close> and compares; both branches do nothing.\<close>

definition ConsistencyCheck :: "rocksdb \<Rightarrow> unit tab_op" where
  "ConsistencyCheck E =
     bindC (vget raw) (\<lambda>(ba, i).
     bindC (pread ba get_bytes) (\<lambda>b.
     bindC (liftO (decode_at E b (i - 8))) (\<lambda>data_seq_num.
     bindC (vget nonVolatileTab) (\<lambda>a.
     bindC (tab_get a seq_num) (\<lambda>s.
       if data_seq_num \<noteq> s then returnC () else returnC ())))))"

definition Release :: "unit tab_op" where
  "Release = returnC ()"

section \<open>Runs of the building blocks\<close>

lemma vget_run: "vget f (v, p) = (Val (f v), v, p)"
  and vmod_run: "vmod g (v, p) = (Val (), g v, p)"
  by (simp_all add: vget_def vmod_def)

lemma tx_safe_vget [tx_safe_intros]: "tx_safe A (vget f)"
  by (rule tx_safeI) (auto simp: vget_def)

lemma tx_safe_vmod [tx_safe_intros]: "tx_safe A (vmod g)"
  by (rule tx_safeI) (auto simp: vmod_def)

lemmas run_simps = vget_run vmod_run tab_get_run memcpy_to_run exec_simps

section \<open>The block written by Append\<close>

lemma thenC_return [simp]: "thenC (returnC ()) m = m" "thenC m (returnC ()) = (m :: ('s, unit) cpp)"
  by (rule ext, simp add: exec_simps)
     (rule ext, simp add: thenC_def bindC_def returnC_def split: prod.split outcome.split)

lemma append_body_eq: "append_body L E bloom_data chunk_data =
     bindC (vget nonVolatileTab) (\<lambda>a.
     bindC (tab_get a dataLen) (\<lambda>cur_len.
     let csize = of_nat (length chunk_data) in
     thenC (vmod (\<lambda>v. v\<lparr>blklist := blklist v @
               [\<lparr>bloom_bits = chunk_bloom_bits E, offset = cur_len, chunkLen = csize\<rparr>]\<rparr>))
     (bindC (tab_get a buf) (\<lambda>ba.
      bindC (liftO (read_n CHUNK_BLOOM_FILTER_LEN bloom_data)) (\<lambda>bloom.
      thenC (memcpy_to ba cur_len bloom)
      (thenC (memcpy_to ba (cur_len + 8) (EncodeFixed64 E csize))
      (thenC (memcpy_to ba (cur_len + 8 + 8) chunk_data)
        (tab_set L a dataLen dataLen_update (cur_len + 8 + 8 + csize)))))))))"
  by (simp add: append_body_def append_body_at_def)

lemma Append_eq: "Append L E bloom_data chunk_data new_start new_end =
     bindC (vget nonVolatileTab) (\<lambda>a.
     bindC (tab_get a dataLen) (\<lambda>len.
     bindC (tab_get a bufSize) (\<lambda>bsz.
     bindC (tab_get a chunk_num) (\<lambda>cn.
     thenC (if len + of_nat (length chunk_data) \<ge> bsz \<or> cn > max_chunk_num_to_flush
            then returnC () else returnC ())
     (thenC (transaction_run L (append_body L E bloom_data chunk_data))
       (CheckAndUpdateKeyRange L E a new_start new_end))))))"
  by (simp add: Append_def Append_at_def append_body_def)

definition block_bytes :: "rocksdb \<Rightarrow> byte list \<Rightarrow> byte list \<Rightarrow> byte list" where
  "block_bytes E bloom_data chunk_data =
     take 8 bloom_data @ EncodeFixed64 E (of_nat (length chunk_data)) @ chunk_data"

definition new_block :: "rocksdb \<Rightarrow> u64 \<Rightarrow> byte list \<Rightarrow> ChunkBlk" where
  "new_block E cur chunk_data =
     \<lparr>bloom_bits = chunk_bloom_bits E, offset = cur, chunkLen = of_nat (length chunk_data)\<rparr>"

text \<open>
  Every exit of the body, fitting or not: the undo log leads back to a heap that differs from the old
  one only in bytes of the buffer behind the data length, and the handle has at most the new block
  more.
\<close>

definition tail_written :: "(nat \<rightharpoonup> pobj) \<Rightarrow> nat \<Rightarrow> byte list \<Rightarrow> nat \<Rightarrow> (nat \<rightharpoonup> pobj) \<Rightarrow> bool" where
  "tail_written h ba b n h' \<longleftrightarrow>
     (\<exists>b'. h' = h(ba \<mapsto> Bytes b') \<and> length b' = length b \<and> take n b' = take n b)"

definition block_written ::
  "rocksdb \<Rightarrow> nat \<Rightarrow> NvRangeTab \<Rightarrow> byte list \<Rightarrow> byte list \<Rightarrow> byte list \<Rightarrow> (nat \<rightharpoonup> pobj) \<Rightarrow> (nat \<rightharpoonup> pobj) \<Rightarrow> bool" where
  "block_written E a t b bloom data h h' \<longleftrightarrow>
     (\<exists>b'. poke b (unat (dataLen t)) (block_bytes E bloom data) = Some b' \<and>
        h' = h(buf t \<mapsto> Bytes b', a \<mapsto> RangeTab (t\<lparr>dataLen := dataLen t + 8 + 8 + of_nat (length data)\<rparr>)))"

context coding64
begin

lemma block_bytes_length:
  "8 \<le> length bloom \<Longrightarrow> length (block_bytes E bloom data) = 16 + length data"
  by (simp add: block_bytes_def)

text \<open>The three copies of \<open>Append\<close> are one copy of the block.\<close>

lemma block_pokes:
  assumes "8 \<le> length bloom" and "poke b i (block_bytes E bloom data) = Some b'"
  obtains b1 b2 where "poke b i (take 8 bloom) = Some b1"
    and "poke b1 (i + 8) (EncodeFixed64 E (of_nat (length data))) = Some b2"
    and "poke b2 (i + 16) data = Some b'"
proof -
  have "length (take 8 bloom) = 8" using assms(1) by simp
  with assms(2) obtain b1 where b1: "poke b i (take 8 bloom) = Some b1"
    "poke b1 (i + 8) (EncodeFixed64 E (of_nat (length data)) @ data) = Some b'"
    unfolding block_bytes_def poke_append_split [of b i "take 8 bloom"]
    by (auto split: bind_splits)
  from b1(2) obtain b2 where "poke b1 (i + 8) (EncodeFixed64 E (of_nat (length data))) = Some b2"
    "poke b2 (i + 16) data = Some b'"
    unfolding poke_append_split [of b1] by (auto split: bind_splits simp: add.assoc)
  with b1 that show ?thesis by blast
qed

lemma append_body_in_tx:
  assumes tab: "heap p a = Some (RangeTab t)" and bytes: "heap p (buf t) = Some (Bytes b)"
    and v: "nonVolatileTab v = a" and work: "stage p = TX_STAGE_WORK"
    and bloom: "8 \<le> length bloom"
    and poke: "poke b (unat (dataLen t)) (block_bytes E bloom data) = Some b'" and small: "length b < 2 ^ 64"
  defines "q \<equiv> p\<lparr>heap := (heap p)(buf t \<mapsto> Bytes b')\<rparr>"
    and "w \<equiv> v\<lparr>blklist := blklist v @ [new_block E (dataLen t) data]\<rparr>"
  shows "append_body L E bloom data (v, p) =
    (if add_range_rc L q a = 0
     then (Val (), w, q\<lparr>undo_log := Snapshot a (set_tab dataLen_update (dataLen t)) # undo_log q,
                       heap := (heap q)(a \<mapsto> RangeTab (t\<lparr>dataLen := dataLen t + 8 + 8 + of_nat (length data)\<rparr>))\<rparr>)
     else (Throw Transaction_error, w, abort_pool (add_range_rc L q a) q))"
proof -
  obtain b1 b2 where p1: "poke b (unat (dataLen t)) (take 8 bloom) = Some b1"
    and p2: "poke b1 (unat (dataLen t) + 8) (EncodeFixed64 E (of_nat (length data))) = Some b2"
    and p3: "poke b2 (unat (dataLen t) + 16) data = Some b'"
    using block_pokes [OF bloom poke] by blast
  have fits: "unat (dataLen t) + 16 \<le> length b"
    using p2 poke_length [OF p1] by (auto simp: poke_Some_iff)
  have u8: "unat (dataLen t + 8) = unat (dataLen t) + 8"
    using fits small by (subst unat_add_no_wrap) simp_all
  have u16: "unat (dataLen t + 8 + 8) = unat (dataLen t) + 16"
    using fits small u8 by (subst unat_add_no_wrap) simp_all
  have ne: "a \<noteq> buf t" using tab bytes by auto
  have r: "read_n CHUNK_BLOOM_FILTER_LEN bloom = Val (take 8 bloom)"
    using bloom by (simp add: read_n_def CHUNK_BLOOM_FILTER_LEN_def peek_def)
  have q: "stage q = TX_STAGE_WORK" "heap q a = Some (RangeTab t)"
    using work tab ne by (simp_all add: q_def)
  have m1: "memcpy_to (buf t) (dataLen t) (take 8 bloom) (w, p) =
      (Val (), w, p\<lparr>heap := (heap p)(buf t \<mapsto> Bytes b1)\<rparr>)"
    using bytes p1 by (simp add: memcpy_to_run)
  have m2: "memcpy_to (buf t) (dataLen t + 8) (EncodeFixed64 E (of_nat (length data)))
      (w, p\<lparr>heap := (heap p)(buf t \<mapsto> Bytes b1)\<rparr>) = (Val (), w, p\<lparr>heap := (heap p)(buf t \<mapsto> Bytes b2)\<rparr>)"
    using p2 u8 by (simp add: memcpy_to_run)
  have m3: "memcpy_to (buf t) (dataLen t + 8 + 8) data
      (w, p\<lparr>heap := (heap p)(buf t \<mapsto> Bytes b2)\<rparr>) = (Val (), w, q)"
    using p3 u16 by (simp add: memcpy_to_run q_def)
  have vm: "vmod (\<lambda>v. v\<lparr>blklist := blklist v @ [\<lparr>bloom_bits = chunk_bloom_bits E, offset = dataLen t,
      chunkLen = of_nat (length data)\<rparr>]\<rparr>) (v, p) = (Val (), w, p)"
    by (simp add: vmod_def w_def new_block_def)
  show ?thesis
    unfolding append_body_eq Let_def
    by (simp only: exec_simps vget_run v tab_get_run [OF tab] vm r m1 m2 m3 tab_set_in_tx [OF q])
qed

lemma tx_post_raw:
  assumes "idle p" and "\<And>x. r \<noteq> Val x"
  shows "tx_post {} h 1 r ((open_pool p)\<lparr>heap := h\<rparr>)"
  using assms by (cases r) (auto simp: tx_inv_def idle_def)

lemma memcpy_to_buffer:
  "memcpy_to ba i xs (u, p\<lparr>heap := h(ba \<mapsto> Bytes b)\<rparr>) = (case poke b (unat i) xs of
      None \<Rightarrow> (Die Out_of_bounds, u, p\<lparr>heap := h(ba \<mapsto> Bytes b)\<rparr>)
    | Some b' \<Rightarrow> (Val (), u, p\<lparr>heap := h(ba \<mapsto> Bytes b')\<rparr>))"
  by (subst memcpy_to_run [where bs = b]) (simp_all split: option.split)

text \<open>The three copies either fault, with bytes behind \<open>n\<close> changed at most, or write the block.\<close>

lemma append_copies:
  fixes p :: pmem and h :: "nat \<rightharpoonup> pobj" and ba :: nat and n :: u64 and data bloom :: "byte list"
    and u :: 'v and k :: "('v, unit) prog"
  assumes bloom: "length bloom = 8" and small: "length b < 2 ^ 64"
  defines "q \<equiv> \<lambda>b'. p\<lparr>heap := h(ba \<mapsto> Bytes b')\<rparr>" and "e \<equiv> EncodeFixed64 E (of_nat (length data))"
  defines "m \<equiv> \<lambda>k. thenC (memcpy_to ba n bloom) (thenC (memcpy_to ba (n + 8) e) (thenC (memcpy_to ba (n + 8 + 8) data) k))"
  shows "(\<exists>b'. length b' = length b \<and> take (unat n) b' = take (unat n) b \<and> m k (u, q b) = (Die Out_of_bounds, u, q b')) \<or>
    (\<exists>b'. poke b (unat n) (bloom @ e @ data) = Some b' \<and> m k (u, q b) = k (u, q b'))"
proof (cases "poke b (unat n) bloom")
  case None
  then have "m k (u, q b) = (Die Out_of_bounds, u, q b)"
    by (simp only: m_def q_def exec_simps memcpy_to_buffer option.case)
  then show ?thesis by blast
next
  case (Some b1)
  note p1 = Some
  have f1: "length b1 = length b" "take (unat n) b1 = take (unat n) b" "unat n + 8 \<le> length b"
    using poke_length [OF p1] take_poke_before [OF p1] p1 bloom by (auto simp: poke_Some_iff)
  have u8: "unat (n + 8) = unat n + 8" using f1(3) small by (subst unat_add_no_wrap) simp_all
  have e8: "length e = 8" by (simp add: e_def)
  show ?thesis
  proof (cases "poke b1 (unat n + 8) e")
    case None
    then have "m k (u, q b) = (Die Out_of_bounds, u, q b1)"
      by (simp only: m_def q_def exec_simps memcpy_to_buffer option.case p1 u8)
    with f1 show ?thesis by blast
  next
    case (Some b2)
    note p2 = Some
    have f2: "length b2 = length b" "take (unat n) b2 = take (unat n) b" "unat n + 16 \<le> length b"
      using poke_length [OF p2] take_poke_before [OF p2, of "unat n"] p2 f1 e8 by (auto simp: poke_Some_iff)
    have u16: "unat (n + 8 + 8) = unat n + 16" using f2(3) small u8 by (subst unat_add_no_wrap) simp_all
    show ?thesis
    proof (cases "poke b2 (unat n + 16) data")
      case None
      then have "m k (u, q b) = (Die Out_of_bounds, u, q b2)"
        by (simp only: m_def q_def exec_simps memcpy_to_buffer option.case p1 u8 p2 u16)
      with f2 show ?thesis by blast
    next
      case (Some b3)
      then have "m k (u, q b) = k (u, q b3)"
        by (simp only: m_def q_def exec_simps memcpy_to_buffer option.case p1 u8 p2 u16)
      moreover have "poke b (unat n) (bloom @ e @ data) = Some b3"
        using p1 p2 Some bloom e8 by (simp add: poke_append_split add.assoc)
      ultimately show ?thesis by blast
    qed
  qed
qed

text \<open>The last statement of the body, the snapshotting assignment of the data length.\<close>

lemma append_set_len_post:
  assumes tab: "heap p a = Some (RangeTab t)" and ne: "a \<noteq> ba" and idle: "idle p"
    and run: "tab_set L a dataLen dataLen_update x (u, (open_pool p)\<lparr>heap := (heap p)(ba \<mapsto> Bytes b)\<rparr>) = (r, w, p')"
  shows "tx_post {} ((heap p)(ba \<mapsto> Bytes b)) 1 r p' \<and> w = u \<and> (r = Val () \<longrightarrow> freed p' = [] \<and>
    heap p' = (heap p)(ba \<mapsto> Bytes b, a \<mapsto> RangeTab (t\<lparr>dataLen := x\<rparr>)))"
proof -
  let ?q = "(open_pool p)\<lparr>heap := (heap p)(ba \<mapsto> Bytes b)\<rparr>"
  have inv: "tx_inv {} ((heap p)(ba \<mapsto> Bytes b)) 1 ?q"
    using idle by (simp add: tx_inv_def idle_def)
  have safe: "tx_safe {} (tab_set L a dataLen dataLen_update x :: ('b, unit) prog)"
    by (intro tx_safe_intros field_tab member_tab)
  have q: "stage ?q = TX_STAGE_WORK" "heap ?q a = Some (RangeTab t)" using tab ne by simp_all
  have "w = u \<and> (r = Val () \<longrightarrow> freed p' = [] \<and>
      heap p' = (heap p)(ba \<mapsto> Bytes b, a \<mapsto> RangeTab (t\<lparr>dataLen := x\<rparr>)))"
    using run tab_set_in_tx [OF q, where L = L and f = dataLen and u = dataLen_update and x = x and v = u] idle
    by (auto simp: idle_def split: if_splits simp del: fun_upd_apply)
  with tx_safeD [OF safe inv _ run] show ?thesis by simp
qed

lemma append_body_cases:
  fixes data :: "byte list"
  assumes tab: "heap p a = Some (RangeTab t)" and bytes: "heap p (buf t) = Some (Bytes b)"
    and v: "nonVolatileTab v = a" and small: "length b < 2 ^ 64"
  defines "q \<equiv> \<lambda>b'. (open_pool p)\<lparr>heap := (heap p)(buf t \<mapsto> Bytes b')\<rparr>"
    and "w \<equiv> v\<lparr>blklist := blklist v @ [new_block E (dataLen t) data]\<rparr>"
  shows "(\<exists>b'. length b' = length b \<and> take (unat (dataLen t)) b' = take (unat (dataLen t)) b \<and>
      append_body L E bloom data (v, open_pool p) = (Die Out_of_bounds, w, q b')) \<or>
    (\<exists>b'. poke b (unat (dataLen t)) (block_bytes E bloom data) = Some b' \<and>
      append_body L E bloom data (v, open_pool p) =
        tab_set L a dataLen dataLen_update (dataLen t + 8 + 8 + of_nat (length data)) (w, q b'))"
proof -
  let ?k = "tab_set L a dataLen dataLen_update (dataLen t + 8 + 8 + of_nat (length data)) :: unit tab_op"
  have tab': "heap (open_pool p) a = Some (RangeTab t)" using tab by simp
  have vm: "vmod (\<lambda>v. v\<lparr>blklist := blklist v @ [\<lparr>bloom_bits = chunk_bloom_bits E, offset = dataLen t,
      chunkLen = of_nat (length data)\<rparr>]\<rparr>) (v, open_pool p) = (Val (), w, open_pool p)"
    by (simp add: vmod_def new_block_def w_def)
  note step = append_body_eq Let_def exec_simps vget_run v tab_get_run [OF tab'] vm
  have q_same: "open_pool p = q b" using bytes by (simp add: q_def open_pool_def fun_upd_idem)
  show ?thesis
  proof (cases "8 \<le> length bloom")
    case False
    then have rd: "read_n CHUNK_BLOOM_FILTER_LEN bloom = Die Out_of_bounds"
      by (simp add: read_n_def CHUNK_BLOOM_FILTER_LEN_def peek_def)
    have "append_body L E bloom data (v, open_pool p) = (Die Out_of_bounds, w, q b)"
      unfolding q_same [symmetric] by (simp only: step rd)
    then show ?thesis by blast
  next
    case True
    then have rd: "read_n CHUNK_BLOOM_FILTER_LEN bloom = Val (take 8 bloom)" and l8: "length (take 8 bloom) = 8"
      by (simp_all add: read_n_def CHUNK_BLOOM_FILTER_LEN_def peek_def)
    have "append_body L E bloom data (v, open_pool p) = thenC (memcpy_to (buf t) (dataLen t) (take 8 bloom))
        (thenC (memcpy_to (buf t) (dataLen t + 8) (EncodeFixed64 E (of_nat (length data))))
          (thenC (memcpy_to (buf t) (dataLen t + 8 + 8) data) ?k)) (w, q b)"
      unfolding q_same [symmetric] by (simp only: step rd)
    then show ?thesis
      using append_copies [OF l8 small, where p = "open_pool p" and h = "heap p" and ba = "buf t"
        and n = "dataLen t" and data = data and k = ?k and u = w]
      by (simp add: block_bytes_def q_def)
  qed
qed

lemma append_body_post:
  assumes tab: "heap p a = Some (RangeTab t)" and bytes: "heap p (buf t) = Some (Bytes b)"
    and v: "nonVolatileTab v = a" and idle: "idle p" and small: "length b < 2 ^ 64"
    and run: "append_body L E bloom data (v, open_pool p) = (r, w, p')"
  shows "\<exists>base. tx_post {} base 1 r p' \<and> tail_written (heap p) (buf t) b (unat (dataLen t)) base
    \<and> w = v\<lparr>blklist := blklist v @ [new_block E (dataLen t) data]\<rparr>
    \<and> (r = Val () \<longrightarrow> freed p' = [] \<and> block_written E a t b bloom data (heap p) (heap p'))"
proof -
  let ?n = "unat (dataLen t)" and ?w = "v\<lparr>blklist := blklist v @ [new_block E (dataLen t) data]\<rparr>"
  have ne: "a \<noteq> buf t" using tab bytes by auto
  from append_body_cases [OF tab bytes v small, where data = data and L = L and bloom = bloom] run
  consider (die) b' where "length b' = length b" "take ?n b' = take ?n b" "r = Die Out_of_bounds" "w = ?w"
      "p' = (open_pool p)\<lparr>heap := (heap p)(buf t \<mapsto> Bytes b')\<rparr>"
    | (ok) b' where "poke b ?n (block_bytes E bloom data) = Some b'"
      "tab_set L a dataLen dataLen_update (dataLen t + 8 + 8 + of_nat (length data))
        (?w, (open_pool p)\<lparr>heap := (heap p)(buf t \<mapsto> Bytes b')\<rparr>) = (r, w, p')"
    by auto
  then show ?thesis
  proof cases
    case die
    with tx_post_raw [OF idle, of r "(heap p)(buf t \<mapsto> Bytes b')"] show ?thesis
      by (auto simp: tail_written_def)
  next
    case ok
    then have "length b' = length b" "take ?n b' = take ?n b"
      using poke_length take_poke_before by blast+
    with append_set_len_post [OF tab ne idle ok(2)] ok(1) show ?thesis
      by (auto simp: tail_written_def block_written_def)
  qed
qed

lemma append_overflow:
  assumes tab: "heap p a = Some (RangeTab t)" and bytes: "heap p (buf t) = Some (Bytes b)"
    and v: "nonVolatileTab v = a" and small: "length b < 2 ^ 64" and start: "begin_rc L p = 0"
    and bloom: "8 \<le> length bloom" and over: "length b < unat (dataLen t) + 16 + length data"
  shows "\<exists>w p'. Append L E bloom data s e (v, p) = (Die Out_of_bounds, w, p')"
proof -
  have "poke b (unat (dataLen t)) (block_bytes E bloom data) = None"
    using over by (simp add: poke_None_iff block_bytes_length [OF bloom])
  with append_body_cases [OF tab bytes v small, where data = data and L = L and bloom = bloom] obtain w p' where
    "append_body L E bloom data (v, open_pool p) = (Die Out_of_bounds, w, p')" by auto
  then have "transaction_run L (append_body L E bloom data) (v, p) = (Die Out_of_bounds, w, p')"
    by (simp add: transaction_run_run [OF start] close_tx_def)
  then show ?thesis
    unfolding Append_eq by (simp add: exec_simps vget_run v tab_get_run [OF tab])
qed

end

section \<open>The transaction of Append\<close>

context coding64
begin

lemma append_tx_outcome:
  assumes tab: "heap p a = Some (RangeTab t)" and bytes: "heap p (buf t) = Some (Bytes b)"
    and v: "nonVolatileTab v = a" and idle: "idle p" and small: "length b < 2 ^ 64"
    and start: "begin_rc L p = 0"
    and run: "transaction_run L (append_body L E bloom data) (v, p) = (r, w, p')"
  shows "w = v\<lparr>blklist := blklist v @ [new_block E (dataLen t) data]\<rparr> \<and>
    (case r of
       Val _ \<Rightarrow> idle p' \<and> block_written E a t b bloom data (heap p) (heap p')
     | Throw e \<Rightarrow> idle p' \<and> tail_written (heap p) (buf t) b (unat (dataLen t)) (heap p')
     | Die f \<Rightarrow> tail_written (heap p) (buf t) b (unat (dataLen t)) (heap (recover p')))"
proof -
  obtain r1 w1 p1 where 1: "append_body L E bloom data (v, open_pool p) = (r1, w1, p1)"
    by (cases "append_body L E bloom data (v, open_pool p)") auto
  from append_body_post [OF tab bytes v idle small 1] obtain base where
    post: "tx_post {} base 1 r1 p1" "tail_written (heap p) (buf t) b (unat (dataLen t)) base"
    and w1: "w1 = v\<lparr>blklist := blklist v @ [new_block E (dataLen t) data]\<rparr>"
    and written: "r1 = Val () \<longrightarrow> freed p1 = [] \<and> block_written E a t b bloom data (heap p) (heap p1)" by auto
  have closed: "close_tx r1 w1 p1 = (r, w, p')"
    using transaction_run_run [where tx = "append_body L E bloom data", OF start 1] run by simp
  have "w = w1" using closed by (cases r1) (auto simp: close_tx_def split: if_splits)
  with close_tx_outermost [OF post(1) closed] post(2) w1 written show ?thesis
    by (cases r) (auto simp: commit_pool_def)
qed

lemma append_tx_ok:
  assumes tab: "heap p a = Some (RangeTab t)" and bytes: "heap p (buf t) = Some (Bytes b)"
    and v: "nonVolatileTab v = a" and idle: "idle p" and small: "length b < 2 ^ 64"
    and start: "begin_rc L p = 0" and add: "\<And>q. add_range_rc L q a = 0" and bloom: "8 \<le> length bloom"
    and poke: "poke b (unat (dataLen t)) (block_bytes E bloom data) = Some b'"
  shows "\<exists>p'. transaction_run L (append_body L E bloom data) (v, p) =
      (Val (), v\<lparr>blklist := blklist v @ [new_block E (dataLen t) data]\<rparr>, p') \<and> idle p' \<and>
    heap p' = (heap p)(buf t \<mapsto> Bytes b', a \<mapsto> RangeTab (t\<lparr>dataLen := dataLen t + 8 + 8 + of_nat (length data)\<rparr>))"
proof -
  have tab': "heap (open_pool p) a = Some (RangeTab t)" "heap (open_pool p) (buf t) = Some (Bytes b)"
    using tab bytes by simp_all
  have body: "append_body L E bloom data (v, open_pool p) =
    (Val (), v\<lparr>blklist := blklist v @ [new_block E (dataLen t) data]\<rparr>,
     (open_pool p)\<lparr>undo_log := Snapshot a (set_tab dataLen_update (dataLen t)) # undo_log p,
       heap := (heap p)(buf t \<mapsto> Bytes b', a \<mapsto> RangeTab (t\<lparr>dataLen := dataLen t + 8 + 8 + of_nat (length data)\<rparr>))\<rparr>)"
    using append_body_in_tx [OF tab' v _ bloom poke small, of L] by (simp add: add del: fun_upd_apply)
  show ?thesis
    using idle
    by (simp add: transaction_run_run [where tx = "append_body L E bloom data", OF start body]
        close_tx_def end_pool_def commit_pool_def idle_def del: fun_upd_apply)
qed

end

section \<open>Statements that write one object only\<close>

text \<open>\<open>only_at a p p'\<close>: \<open>p'\<close> differs from \<open>p\<close> at most in the object at offset \<open>a\<close>.\<close>

definition only_at :: "nat \<Rightarrow> 'o pool \<Rightarrow> 'o pool \<Rightarrow> bool" where
  "only_at a p p' \<longleftrightarrow> (\<exists>x. p' = p\<lparr>heap := (heap p)(a := x)\<rparr>)"

lemma only_at_refl [simp]: "only_at a p p"
  unfolding only_at_def by (rule exI [of _ "heap p a"]) simp

lemma only_at_trans: "only_at a p q \<Longrightarrow> only_at a q r \<Longrightarrow> only_at a p r"
  unfolding only_at_def by force

lemma only_atI: "only_at a p (p\<lparr>heap := (heap p)(a := x)\<rparr>)"
  by (auto simp: only_at_def)

lemma only_at_memcpy: "memcpy_to a i xs (v, p) = (r, v', p') \<Longrightarrow> v' = v \<and> only_at a p p'"
  by (auto simp: memcpy_to_def bindC_def pread_def the_or_die_def pwrite_raw_def dieC_def
      intro: only_atI split: option.splits)

lemma only_at_thenC:
  assumes "\<And>v p r v' p'. m (v, p) = (r, v', p') \<Longrightarrow> v' = v \<and> only_at a p p'"
    and "\<And>v p r v' p'. n (v, p) = (r, v', p') \<Longrightarrow> v' = v \<and> only_at a p p'"
    and "thenC m n (v, p) = (r, v', p')"
  shows "v' = v \<and> only_at a p p'"
proof -
  obtain r1 v1 p1 where 1: "m (v, p) = (r1, v1, p1)" by (cases "m (v, p)") auto
  show ?thesis
  proof (cases r1)
    case (Val x)
    with 1 assms(3) have "n (v1, p1) = (r, v', p')" by (simp add: thenC_def bindC_def)
    from assms(1) [OF 1] assms(2) [OF this] show ?thesis by (auto intro: only_at_trans)
  qed (use assms(1) [OF 1] assms(3) 1 in \<open>auto simp: thenC_def bindC_def\<close>)
qed

lemma only_at_write_range: "write_range E kr s e (v, p) = (r, v', p') \<Longrightarrow> v' = v \<and> only_at kr p p'"
  unfolding write_range_def
  by (rule only_at_thenC [OF only_at_memcpy only_at_thenC [OF only_at_memcpy
        only_at_thenC [OF only_at_memcpy only_at_memcpy]]])

text \<open>\<open>extends h h'\<close>: no object of \<open>h\<close> is changed or removed in \<open>h'\<close>.\<close>

definition extends :: "(nat \<rightharpoonup> 'o) \<Rightarrow> (nat \<rightharpoonup> 'o) \<Rightarrow> bool" where
  "extends h h' \<longleftrightarrow> (\<forall>x. h x \<noteq> None \<longrightarrow> h' x = h x)"

lemma extends_refl [simp]: "extends h h"
  by (simp add: extends_def)

lemma GetRealRange_pure: "GetRealRange E a (v, p) = (r, v', p') \<Longrightarrow> v' = v \<and> p' = p"
  by (auto simp: GetRealRange_def exec_simps pread_def the_or_die_def split: option.splits if_splits outcome.splits)

context nvm_env
begin

lemma range_tx_extends:
  assumes idle: "idle p"
    and run: "transaction_run L (bindC (make_persistent_array L sz (Bytes bs)) (\<lambda>kr. write_range E kr s e)) (v, p) = (r, v', p')"
  shows "v' = v \<and> (case r of
      Die f \<Rightarrow> heap (recover p') = heap p
    | _ \<Rightarrow> idle p' \<and> extends (heap p) (heap p'))"
proof -
  let ?tx = "bindC (make_persistent_array L sz (Bytes bs)) (\<lambda>kr. write_range E kr s e)"
  have safe: "tx_safe {} ?tx"
    unfolding write_range_def by (intro tx_safe_intros) simp_all
  obtain r1 v1 p1 where 1: "?tx (v, open_pool p) = (r1, v1, p1)" by (cases "?tx (v, open_pool p)") auto
  have frame: "v1 = v \<and> (r1 = Val () \<longrightarrow> extends (heap p) (heap p1) \<and> freed p1 = [])"
  proof (cases "alloc_off L (open_pool p) sz = 0")
    case True
    with 1 show ?thesis
      by (auto simp: exec_simps make_persistent_array_def pmemobj_tx_stage_def pmemobj_tx_alloc_def)
  next
    case False
    let ?kr = "alloc_off L (open_pool p) sz"
    let ?p1 = "(open_pool p)\<lparr>heap := (heap p)(?kr \<mapsto> Bytes bs), undo_log := Allocated ?kr # undo_log p\<rparr>"
    have "write_range E ?kr s e (v, ?p1) = (r1, v1, p1)"
      using 1 False
      by (simp add: exec_simps make_persistent_array_def pmemobj_tx_stage_def pmemobj_tx_alloc_def Let_def)
    from only_at_write_range [OF this] obtain x where "v1 = v" "p1 = ?p1\<lparr>heap := (heap ?p1)(?kr := x)\<rparr>"
      by (auto simp: only_at_def)
    moreover have "heap p ?kr = None" using alloc_fresh [OF False] by simp
    ultimately show ?thesis using idle by (auto simp: extends_def idle_def)
  qed
  have closed: "close_tx r1 v1 p1 = (r, v', p')"
    using transaction_run_run [where tx = ?tx, OF begin_ok 1] run by simp
  have "v' = v1" using closed by (cases r1) (auto simp: close_tx_def split: if_splits)
  moreover have post: "tx_post {} (heap p) 1 r1 p1"
    by (rule tx_safeD [OF safe tx_inv_open_idle [OF idle] _ 1]) simp
  ultimately show ?thesis
    using close_tx_outermost [OF post closed] frame
    by (cases r) (auto simp: commit_pool_def)
qed

lemma CheckAndUpdateKeyRange_extends:
  assumes "idle p" and "CheckAndUpdateKeyRange L E a s e (v, p) = (r, v', p')"
  shows "v' = v \<and> (case r of
      Die f \<Rightarrow> heap (recover p') = heap p
    | _ \<Rightarrow> idle p' \<and> extends (heap p) (heap p'))"
proof -
  obtain r1 v1 p1 where 1: "GetRealRange E a (v, p) = (r1, v1, p1)" by (cases "GetRealRange E a (v, p)") auto
  from GetRealRange_pure [OF this] have same: "v1 = v" "p1 = p" by auto
  have rec: "heap (recover p) = heap p" using assms(1) by (simp add: recover_def idle_def)
  show ?thesis
  proof (cases r1)
    case (Val se)
    with 1 same assms show ?thesis
      by (cases se) (auto simp: CheckAndUpdateKeyRange_def exec_simps Let_def split: if_splits
          dest: range_tx_extends [OF assms(1)])
  qed (use 1 same assms rec in \<open>auto simp: CheckAndUpdateKeyRange_def exec_simps\<close>)
qed

text \<open>
  Every outcome of \<open>Append\<close>, also a crash inside it: what the next open of the pool finds is the heap
  with the block, or the heap without it, in both cases with fresh objects at most.
\<close>

lemma Append_outcome:
  assumes tab: "heap p a = Some (RangeTab t)" and bytes: "heap p (buf t) = Some (Bytes b)"
    and v: "nonVolatileTab v = a" and idle: "idle p" and small: "length b < 2 ^ 64"
    and run: "Append L E bloom data s e (v, p) = (r, w, p')"
  shows "w = v\<lparr>blklist := blklist v @ [new_block E (dataLen t) data]\<rparr> \<and>
    (\<exists>h. (r \<noteq> Val () \<and> tail_written (heap p) (buf t) b (unat (dataLen t)) h \<or>
          block_written E a t b bloom data (heap p) h) \<and> extends h (heap (recover p')))"
proof -
  obtain r1 w1 p1 where 1: "transaction_run L (append_body L E bloom data) (v, p) = (r1, w1, p1)"
    by (cases "transaction_run L (append_body L E bloom data) (v, p)") auto
  note out = append_tx_outcome [OF tab bytes v idle small begin_ok 1]
  have rest: "(case r1 of Val _ \<Rightarrow> CheckAndUpdateKeyRange L E a s e (w1, p1)
      | Throw e \<Rightarrow> (Throw e, w1, p1) | Die f \<Rightarrow> (Die f, w1, p1)) = (r, w, p')"
    using run unfolding Append_eq
    by (simp only: exec_simps vget_run v tab_get_run [OF tab] if_cancel 1)
  have rec: "heap (recover q) = heap q" if "idle q" for q :: pmem
    using that by (simp add: recover_def idle_def)
  show ?thesis
  proof (cases r1)
    case (Val x)
    with out have o: "idle p1" "block_written E a t b bloom data (heap p) (heap p1)" by simp_all
    have cu: "CheckAndUpdateKeyRange L E a s e (w1, p1) = (r, w, p')" using rest Val by simp
    from CheckAndUpdateKeyRange_extends [OF o(1) cu] rec
    have "w = w1 \<and> extends (heap p1) (heap (recover p'))" by (cases r) auto
    with out o show ?thesis by auto
  qed (use rest out rec in \<open>auto\<close>)
qed

end

section \<open>The sequence of blocks in a buffer\<close>

text \<open>
  \<open>blocks_at E b i blks j\<close>: the bytes of \<open>b\<close> from \<open>i\<close> to \<open>j\<close> are the blocks \<open>blks\<close>, one after the
  other, each a Bloom filter, the length of its chunk, and the chunk.
\<close>

fun blocks_at :: "rocksdb \<Rightarrow> byte list \<Rightarrow> nat \<Rightarrow> ChunkBlk list \<Rightarrow> nat \<Rightarrow> bool" where
  "blocks_at E b i [] j \<longleftrightarrow> i = j"
| "blocks_at E b i (blk # blks) j \<longleftrightarrow>
     bloom_bits blk = chunk_bloom_bits E \<and> unat (offset blk) = i \<and>
     peek b (i + unat (chunk_bloom_bits E)) 8 = Some (EncodeFixed64 E (chunkLen blk)) \<and>
     i + unat (chunk_bloom_bits E) + 8 + unat (chunkLen blk) \<le> length b \<and>
     blocks_at E b (i + unat (chunk_bloom_bits E) + 8 + unat (chunkLen blk)) blks j"

lemma blocks_at_mono: "blocks_at E b i blks j \<Longrightarrow> i \<le> j \<and> (blks \<noteq> [] \<longrightarrow> i + 8 \<le> j \<and> j \<le> length b)"
proof (induction blks arbitrary: i)
  case (Cons blk blks)
  from Cons.prems Cons.IH have
    "i + unat (chunk_bloom_bits E) + 8 + unat (chunkLen blk) \<le> j" by force
  moreover have "j \<le> length b" using Cons by (cases blks) force+
  ultimately show ?case by simp
qed simp

lemma blocks_at_append:
  "blocks_at E b i (xs @ ys) k \<longleftrightarrow> (\<exists>j. blocks_at E b i xs j \<and> blocks_at E b j ys k)"
  by (induction xs arbitrary: i) auto

lemma blocks_at_cong:
  assumes "blocks_at E b i blks j" and "j \<le> n" and "take n b' = take n b" and "length b' = length b"
  shows "blocks_at E b' i blks j"
  using assms(1)
proof (induction blks arbitrary: i)
  case (Cons blk blks)
  let ?k = "i + unat (chunk_bloom_bits E) + 8 + unat (chunkLen blk)"
  from Cons.prems have rest: "blocks_at E b ?k blks j" by simp
  from blocks_at_mono [OF this] assms(2)
  have "peek b' (i + unat (chunk_bloom_bits E)) 8 = peek b (i + unat (chunk_bloom_bits E)) 8"
    by (intro peek_take_cong [of n]) (use assms in auto)
  with Cons.prems Cons.IH [OF rest] assms(4) show ?case by simp
qed simp

context coding64
begin

text \<open>The rebuild loop ends on a sequence of blocks and finds exactly these blocks.\<close>

lemma rebuild_loop_blocks:
  assumes "blocks_at E b (unat off) blks (unat len)" and small: "length b < 2 ^ 64"
  shows "rebuild_loop E b len off acc = Some (Val (acc @ blks))"
  using assms(1)
proof (induction blks arbitrary: off acc)
  case Nil
  then show ?case by (subst rebuild_loop.simps) (simp add: word_less_nat_alt)
next
  case (Cons blk blks)
  let ?k = "unat off + unat (chunk_bloom_bits E) + 8 + unat (chunkLen blk)"
  from Cons.prems have blk: "blk = \<lparr>bloom_bits = chunk_bloom_bits E, offset = off, chunkLen = chunkLen blk\<rparr>"
    and dec: "peek b (unat off + unat (chunk_bloom_bits E)) 8 = Some (EncodeFixed64 E (chunkLen blk))"
    and le: "?k \<le> length b" and rest: "blocks_at E b ?k blks (unat len)"
    by (cases blk; simp add: word_unat_eq_iff)+
  have u1: "unat (off + chunk_bloom_bits E) = unat off + unat (chunk_bloom_bits E)"
    using le small by (intro unat_add_no_wrap) simp
  have u2: "unat (chunk_bloom_bits E + 8) = unat (chunk_bloom_bits E) + 8"
    using le small by (subst unat_add_no_wrap) simp_all
  have u3: "unat (chunk_bloom_bits E + 8 + chunkLen blk) = unat (chunk_bloom_bits E) + 8 + unat (chunkLen blk)"
    using le small u2 by (subst unat_add_no_wrap) simp_all
  have u4: "unat (off + (chunk_bloom_bits E + 8 + chunkLen blk)) = ?k"
    using le small u3 by (subst unat_add_no_wrap) simp_all
  have "off < len" using blocks_at_mono [OF rest] by (simp add: word_less_nat_alt)
  moreover have "decode_at E b (off + chunk_bloom_bits E) = Val (chunkLen blk)"
    using dec u1 by (intro decode_at_peek) simp
  ultimately show ?case
    using Cons.IH [of "off + (chunk_bloom_bits E + 8 + chunkLen blk)" "acc @ [blk]"] rest u4 blk
    by (subst rebuild_loop.simps) simp
qed

lemma new_block_at:
  assumes "chunk_bloom_bits E = 8" and "8 \<le> length bloom" and "length b < 2 ^ 64"
    and poke: "poke b (unat n) (block_bytes E bloom data) = Some b'"
  shows "blocks_at E b' (unat n) [new_block E n data] (unat n + 16 + length data)"
proof -
  obtain b1 b2 where p: "poke b (unat n) (take 8 bloom) = Some b1"
    "poke b1 (unat n + 8) (EncodeFixed64 E (of_nat (length data))) = Some b2"
    "poke b2 (unat n + 16) data = Some b'"
    using block_pokes [OF assms(2) poke] by blast
  have "peek b' (unat n + 8) 8 = peek b2 (unat n + 8) 8"
    using p(3) by (rule peek_poke_before) simp
  also have "\<dots> = Some (EncodeFixed64 E (of_nat (length data)))"
    using peek_poke_same [OF p(2)] by simp
  finally have dec: "peek b' (unat n + 8) 8 = Some (EncodeFixed64 E (of_nat (length data)))" .
  have le: "unat n + 16 + length data \<le> length b'"
    using poke poke_length [OF poke] by (simp add: poke_Some_iff block_bytes_length [OF assms(2)])
  then have "unat (of_nat (length data) :: u64) = length data"
    using assms(3) poke_length [OF poke] by (intro unat_of_nat_u64) simp
  with dec le assms(1) show ?thesis by (simp add: new_block_def)
qed

lemma append_len:
  fixes n :: u64
  assumes bloom: "8 \<le> length bloom" and poke: "poke b (unat n) (block_bytes E bloom data) = Some b'"
    and small: "length b < 2 ^ 64"
  shows "unat (n + 8 + 8 + of_nat (length data)) = unat n + 16 + length data"
proof -
  have "unat n + 16 + length data \<le> length b"
    using poke by (simp add: poke_Some_iff block_bytes_length [OF bloom])
  then have "unat (of_nat (unat n + 16 + length data) :: u64) = unat n + 16 + length data"
    using small by (intro unat_of_nat_u64) simp
  then show ?thesis by (simp add: add.commute)
qed

lemma append_blocks:
  assumes "chunk_bloom_bits E = 8" and "8 \<le> length bloom" and "length b < 2 ^ 64"
    and blocks: "blocks_at E b i blks (unat n)"
    and poke: "poke b (unat n) (block_bytes E bloom data) = Some b'"
  shows "blocks_at E b' i (blks @ [new_block E n data]) (unat n + 16 + length data)"
proof -
  have "blocks_at E b' i blks (unat n)"
    using blocks by (rule blocks_at_cong) (use poke_length take_poke_before poke in blast)+
  with new_block_at [OF assms(1-3) poke] show ?thesis by (auto simp: blocks_at_append)
qed

end

section \<open>Key ranges\<close>

definition range_bytes :: "rocksdb \<Rightarrow> byte list \<Rightarrow> byte list \<Rightarrow> byte list" where
  "range_bytes E s e =
     EncodeFixed64 E (of_nat (length s)) @ s @ EncodeFixed64 E (of_nat (length e)) @ e"

context coding64
begin

lemma range_bytes_length: "length (range_bytes E s e) = length s + length e + 16"
  by (simp add: range_bytes_def)

lemma write_range_run:
  assumes "heap p kr = Some (Bytes bs)" and "length bs = length s + length e + 16" and "length bs < 2 ^ 64"
  shows "write_range E kr s e (v, p) = (Val (), v, p\<lparr>heap := (heap p)(kr \<mapsto> Bytes (range_bytes E s e))\<rparr>)"
proof -
  have whole: "poke bs 0 (range_bytes E s e) = Some (range_bytes E s e)"
    using assms(2) by (intro poke_whole) (simp add: range_bytes_length)
  then obtain b1 b2 b3 where p:
    "poke bs 0 (EncodeFixed64 E (of_nat (length s))) = Some b1" "poke b1 8 s = Some b2"
    "poke b2 (8 + length s) (EncodeFixed64 E (of_nat (length e))) = Some b3"
    "poke b3 (16 + length s) e = Some (range_bytes E s e)"
    unfolding range_bytes_def poke_append_split by (auto split: bind_splits simp: add.commute)
  have u: "unat (of_nat (8 + length s) :: u64) = 8 + length s"
    using assms(2,3) by (intro unat_of_nat_u64) simp
  have u': "unat (of_nat (8 + length s) + 8 :: u64) = 16 + length s"
    using u assms(2,3) by (subst unat_add_no_wrap) simp_all
  have q0: "p = p\<lparr>heap := (heap p)(kr \<mapsto> Bytes bs)\<rparr>" using assms(1) by (simp add: fun_upd_idem)
  have u0: "unat (0 :: u64) = 0" "unat (8 :: u64) = 8" by simp_all
  show ?thesis
    by (subst q0, simp only: write_range_def exec_simps memcpy_to_buffer u u' u0 p option.case)
qed

lemma GetKVData_range_bytes:
  assumes "length (range_bytes E s e) < 2 ^ 64"
  shows "GetKVData E (range_bytes E s e) 0 = Val s"
    and "GetKVData E (range_bytes E s e) (of_nat (length s) + 8) = Val e"
proof -
  have len: "length s + length e + 16 < 2 ^ 64" using assms by (simp add: range_bytes_length)
  have us: "unat (of_nat (length s) :: u64) = length s" and ue: "unat (of_nat (length e) :: u64) = length e"
    using len by (simp_all add: unat_of_nat_u64)
  have u8: "unat (of_nat (length s) + 8 :: u64) = length s + 8"
    using len us by (subst unat_add_no_wrap) simp_all
  have u16: "unat (of_nat (length s) + 8 + 8 :: u64) = length s + 16"
    using len u8 by (subst unat_add_no_wrap) simp_all
  let ?E1 = "EncodeFixed64 E (of_nat (length s))" and ?E2 = "EncodeFixed64 E (of_nat (length e))"
  have "decode_at E (range_bytes E s e) 0 = Val (of_nat (length s))"
    using decode_at_encoded [of 0 "[]" "of_nat (length s)" "s @ ?E2 @ e"] by (simp add: range_bytes_def)
  moreover have "peek (range_bytes E s e) 8 (length s) = Some s"
    using peek_at_append [of ?E1 s "?E2 @ e"] by (simp add: range_bytes_def)
  ultimately show "GetKVData E (range_bytes E s e) 0 = Val s"
    using us by (simp add: GetKVData_def)
  have "decode_at E (range_bytes E s e) (of_nat (length s) + 8) = Val (of_nat (length e))"
    using decode_at_encoded [of "of_nat (length s) + 8" "?E1 @ s" "of_nat (length e)" e] u8
    by (simp add: range_bytes_def)
  moreover have "peek (range_bytes E s e) (length s + 16) (length e) = Some e"
    using peek_at_append [of "?E1 @ s @ ?E2" e "[]"] by (simp add: range_bytes_def add.commute)
  ultimately show "GetKVData E (range_bytes E s e) (of_nat (length s) + 8) = Val e"
    using ue u16 by (simp add: GetKVData_def)
qed

end

context steady_env
begin

lemma range_tx_ok:
  assumes idle: "idle p" and fin: "finite (dom (heap p))" and small: "length s + length e + 16 < 2 ^ 64"
  shows "\<exists>p' kr. transaction_run L (bindC (make_persistent_array L (length s + length e + 16)
        (Bytes (replicate (length s + length e + 16) 0))) (\<lambda>kr. write_range E kr s e)) (v, p) = (Val (), v, p')
    \<and> idle p' \<and> heap p kr = None \<and> heap p' = (heap p)(kr \<mapsto> Bytes (range_bytes E s e))"
proof -
  let ?n = "length s + length e + 16"
  let ?tx = "bindC (make_persistent_array L ?n (Bytes (replicate ?n 0))) (\<lambda>kr. write_range E kr s e)"
  let ?kr = "alloc_off L (open_pool p) ?n"
  let ?p1 = "(open_pool p)\<lparr>heap := (heap p)(?kr \<mapsto> Bytes (replicate ?n 0)), undo_log := Allocated ?kr # undo_log p\<rparr>"
  have kr: "?kr \<noteq> 0" "heap p ?kr = None"
    using alloc_ok [of "open_pool p" ?n] alloc_fresh [of "open_pool p" ?n] fin by simp_all
  have "write_range E ?kr s e (v, ?p1) =
      (Val (), v, ?p1\<lparr>heap := (heap ?p1)(?kr \<mapsto> Bytes (range_bytes E s e))\<rparr>)"
    by (rule write_range_run [where bs = "replicate ?n 0"]) (use small in simp_all)
  then have body: "?tx (v, open_pool p) =
      (Val (), v, ?p1\<lparr>heap := (heap ?p1)(?kr \<mapsto> Bytes (range_bytes E s e))\<rparr>)"
    using kr by (simp add: exec_simps make_persistent_array_def pmemobj_tx_stage_def pmemobj_tx_alloc_def Let_def
        del: fun_upd_apply)
  show ?thesis
    using kr idle
    by (intro exI [of _ ?kr] exI)
       (auto simp: transaction_run_run [where tx = ?tx, OF begin_ok body] close_tx_def end_pool_def
         commit_pool_def idle_def)
qed

text \<open>Statements inside an open transaction on a healthy pool.\<close>

lemma tab_set_open:
  assumes "h a = Some (RangeTab t)"
  shows "tab_set L a f u x (v, (open_pool p)\<lparr>heap := h, undo_log := us\<rparr>) =
    (Val (), v, (open_pool p)\<lparr>heap := h(a \<mapsto> RangeTab (u (\<lambda>_. x) t)),
       undo_log := Snapshot a (set_tab u (f t)) # us\<rparr>)"
  by (subst tab_set_in_tx [where t = t]) (use assms add_ok in simp_all)

lemma make_array_open:
  fixes p :: pmem and h :: "nat \<rightharpoonup> pobj" and n :: nat and ob :: pobj and v :: 'v
  defines "q \<equiv> \<lambda>h us. (open_pool p)\<lparr>heap := h, undo_log := us\<rparr>"
  assumes "finite (dom h)"
  obtains c where "make_persistent_array L n ob (v, q h us) = (Val c, v, q (h(c \<mapsto> ob)) (Allocated c # us))"
    and "c \<noteq> 0" and "h c = None"
proof
  let ?c = "alloc_off L (q h us) n"
  show c: "?c \<noteq> 0" using alloc_ok [of "q h us" n] assms by simp
  then show "h ?c = None" using alloc_fresh [OF c] by (simp add: q_def)
  show "make_persistent_array L n ob (v, q h us) = (Val ?c, v, q (h(?c \<mapsto> ob)) (Allocated ?c # us))"
    using c by (simp add: exec_simps make_persistent_array_def pmemobj_tx_stage_def pmemobj_tx_alloc_def Let_def q_def)
qed

lemma tab_get_open:
  "h a = Some (RangeTab t) \<Longrightarrow> tab_get a f (v, (open_pool p)\<lparr>heap := h, undo_log := us\<rparr>) =
     (Val (f t), v, (open_pool p)\<lparr>heap := h, undo_log := us\<rparr>)"
  by (simp add: pread_def)

lemma run_open:
  assumes "idle p" and "tx (v, (open_pool p)\<lparr>heap := heap p, undo_log := []\<rparr>) =
      (Val (), v', (open_pool p)\<lparr>heap := h, undo_log := us\<rparr>)"
  shows "\<exists>p'. transaction_run L tx (v, p) = (Val (), v', p') \<and> idle p' \<and> heap p' = h"
proof -
  have "(open_pool p)\<lparr>heap := heap p, undo_log := []\<rparr> = open_pool p"
    using assms(1) by (simp add: idle_def open_pool_def)
  with assms show ?thesis
    by (simp add: transaction_run_run [where tx = tx, OF begin_ok] close_tx_def end_pool_def commit_pool_def idle_def)
qed

lemma freq_tx_ok:
  assumes tab: "heap p a = Some (RangeTab t)" and idle: "idle p" and fin: "finite (dom (heap p))"
    and small: "length s + length e + 16 < 2 ^ 64"
  shows "\<exists>p' kr. freqUpdateInfo_update L E a s e (v, p) = (Val (), v, p') \<and> idle p' \<and> kr \<noteq> 0 \<and> a \<noteq> kr \<and>
    heap p' = (heap p)(kr \<mapsto> Bytes (range_bytes E s e), a \<mapsto> RangeTab (t\<lparr>key_range := kr,
       chunk_num := chunk_num t + 1, seq_num := seq_num t + 1\<rparr>))"
proof -
  let ?n = "length s + length e + 16"
  obtain kr where mk: "make_persistent_array L ?n (Bytes (replicate ?n 0)) (v, (open_pool p)\<lparr>heap := heap p, undo_log := []\<rparr>) =
      (Val kr, v, (open_pool p)\<lparr>heap := (heap p)(kr \<mapsto> Bytes (replicate ?n 0)), undo_log := [Allocated kr]\<rparr>)"
    and kr: "kr \<noteq> 0" "heap p kr = None"
    by (rule make_array_open [OF fin])
  have ne: "a \<noteq> kr" using kr(2) tab by auto
  let ?t1 = "t\<lparr>key_range := kr\<rparr>" and ?t2 = "t\<lparr>key_range := kr, chunk_num := chunk_num t + 1\<rparr>"
  let ?h1 = "(heap p)(kr \<mapsto> Bytes (replicate ?n 0), a \<mapsto> RangeTab ?t1)"
  let ?h2 = "\<lambda>t'. (heap p)(kr \<mapsto> Bytes (range_bytes E s e), a \<mapsto> RangeTab t')"
  have wr: "write_range E kr s e (v, (open_pool p)\<lparr>heap := ?h1, undo_log := us\<rparr>) =
      (Val (), v, (open_pool p)\<lparr>heap := ?h2 ?t1, undo_log := us\<rparr>)" for us
    by (subst write_range_run [where bs = "replicate ?n 0"]) (use small ne in \<open>simp_all add: fun_upd_twist\<close>)
  have "((heap p)(kr \<mapsto> Bytes (replicate ?n 0))) a = Some (RangeTab t)" using tab ne by simp
  note set1 = tab_set_open [where h = "(heap p)(kr \<mapsto> Bytes (replicate ?n 0))" and a = a, OF this,
      where f = key_range and u = key_range_update and x = kr]
  have at: "(?h2 t') a = Some (RangeTab t')" for t' by simp
  note s23 = tab_get_open [where h = "?h2 t'" and a = a for t', OF at] tab_set_open [where h = "?h2 t'" and a = a for t', OF at]
  have "\<exists>p'. freqUpdateInfo_update L E a s e (v, p) = (Val (), v, p') \<and> idle p' \<and>
      heap p' = ?h2 (t\<lparr>key_range := kr, chunk_num := chunk_num t + 1, seq_num := seq_num t + 1\<rparr>)"
    unfolding freqUpdateInfo_update_def
    by (rule run_open [OF idle]) (simp only: exec_simps mk set1 wr s23 fun_upd_upd NvRangeTab.simps, simp)
  with kr ne show ?thesis by blast
qed

lemma NvRangeTab_ctor_ok:
  assumes tab: "heap p a = Some (RangeTab t)" and idle: "idle p" and fin: "finite (dom (heap p))"
  shows "\<exists>p' pa ba. NvRangeTab_ctor L E pre n a (v, p) = (Val (), v, p') \<and> idle p' \<and>
    heap p' a = Some (RangeTab \<lparr>hash = nv_hashCode E pre, prefixLen = of_nat (length pre), prefix = pa,
      key_range = 0, chunk_num = 0, seq_num = 0, bufSize = n, buf = ba, dataLen = 0, extra_buf = 0, next = next t\<rparr>) \<and>
    heap p' pa = Some (Bytes pre) \<and> heap p' ba = Some (Bytes (replicate (unat n) 0)) \<and>
    heap p pa = None \<and> heap p ba = None"
proof -
  let ?q = "\<lambda>h us. (open_pool p)\<lparr>heap := h, undo_log := us\<rparr>"
  obtain pa where mk1: "make_persistent_array L (length pre) (Bytes (replicate (length pre) 0)) (v, ?q (heap p) []) =
      (Val pa, v, ?q ((heap p)(pa \<mapsto> Bytes (replicate (length pre) 0))) [Allocated pa])"
    and pa: "heap p pa = None" by (rule make_array_open [OF fin])
  have ne1: "a \<noteq> pa" using pa tab by auto
  let ?h0 = "(heap p)(pa \<mapsto> Bytes (replicate (length pre) 0))"
  let ?h1 = "\<lambda>t'. (heap p)(pa \<mapsto> Bytes pre, a \<mapsto> RangeTab t')"
  let ?t1 = "t\<lparr>prefix := pa, key_range := 0, extra_buf := 0\<rparr>"
  have "?h0 a = Some (RangeTab t)" using tab ne1 by simp
  note set0 = tab_set_open [where h = ?h0 and a = a, OF this]
  have cp: "memcpy_to pa 0 pre (v, ?q (?h0(a \<mapsto> RangeTab t')) us) = (Val (), v, ?q (?h1 t') us)" for t' us
    by (subst memcpy_to_run [where bs = "replicate (length pre) 0"])
       (use ne1 in \<open>simp_all add: poke_whole fun_upd_twist\<close>)
  have at1: "?h1 t' a = Some (RangeTab t')" for t' by simp
  note set1 = tab_set_open [where h = "?h1 t'" and a = a for t', OF at1]
  have fin1: "finite (dom (?h1 ?t1))" using fin by simp
  let ?us = "[Snapshot a (set_tab extra_buf_update (extra_buf (t\<lparr>prefix := pa, key_range := 0\<rparr>))),
     Snapshot a (set_tab key_range_update (key_range (t\<lparr>prefix := pa\<rparr>))),
     Snapshot a (set_tab prefix_update (prefix t)), Allocated pa]"
  obtain ba where mk2: "make_persistent_array L (unat n) (Bytes (replicate (unat n) 0)) (v, ?q (?h1 ?t1) ?us) =
      (Val ba, v, ?q ((?h1 ?t1)(ba \<mapsto> Bytes (replicate (unat n) 0))) (Allocated ba # ?us))"
    and ba: "?h1 ?t1 ba = None" by (rule make_array_open [OF fin1])
  have ne2: "a \<noteq> ba" "pa \<noteq> ba" "heap p ba = None" using ba by (auto split: if_splits)
  let ?h2 = "\<lambda>t'. (?h1 ?t1)(ba \<mapsto> Bytes (replicate (unat n) 0), a \<mapsto> RangeTab t')"
  have "((?h1 ?t1)(ba \<mapsto> Bytes (replicate (unat n) 0))) a = Some (RangeTab ?t1)" using ne2 by simp
  note set2 = tab_set_open [where h = "(?h1 ?t1)(ba \<mapsto> Bytes (replicate (unat n) 0))" and a = a, OF this]
  have at3: "?h2 t' a = Some (RangeTab t')" for t' by simp
  note set3 = tab_set_open [where h = "?h2 t'" and a = a for t', OF at3]
  have "\<exists>p'. NvRangeTab_ctor L E pre n a (v, p) = (Val (), v, p') \<and> idle p' \<and>
      heap p' = ?h2 (?t1\<lparr>buf := ba, hash := nv_hashCode E pre, prefixLen := of_nat (length pre), chunk_num := 0,
        seq_num := 0, bufSize := n, dataLen := 0\<rparr>)"
    unfolding NvRangeTab_ctor_def
    by (rule run_open [OF idle])
       (simp only: exec_simps mk1 set0 cp set1 mk2 set2 set3 fun_upd_upd)
  moreover have "?t1\<lparr>buf := ba, hash := nv_hashCode E pre, prefixLen := of_nat (length pre), chunk_num := 0,
      seq_num := 0, bufSize := n, dataLen := 0\<rparr> = \<lparr>hash = nv_hashCode E pre, prefixLen = of_nat (length pre),
      prefix = pa, key_range = 0, chunk_num = 0, seq_num = 0, bufSize = n, buf = ba, dataLen = 0, extra_buf = 0,
      next = next t\<rparr>"
    by (cases t) simp
  ultimately obtain p' where "NvRangeTab_ctor L E pre n a (v, p) = (Val (), v, p')" "idle p'"
    "heap p' = ?h2 \<lparr>hash = nv_hashCode E pre, prefixLen = of_nat (length pre), prefix = pa, key_range = 0,
      chunk_num = 0, seq_num = 0, bufSize = n, buf = ba, dataLen = 0, extra_buf = 0, next = next t\<rparr>" by auto
  then show ?thesis using ne1 ne2 pa by (intro exI [of _ p'] exI [of _ pa] exI [of _ ba]) simp
qed

lemma CheckAndUpdateKeyRange_ok:
  assumes tab: "heap p a = Some (RangeTab t)" and "key_range t = 0" and idle: "idle p"
    and fin: "finite (dom (heap p))" and small: "length s + length e + 16 < 2 ^ 64"
  shows "\<exists>p'. CheckAndUpdateKeyRange L E a s e (v, p) = (Val (), v, p') \<and> idle p' \<and>
    finite (dom (heap p')) \<and> extends (heap p) (heap p')"
proof -
  let ?s = "if Compare E [] s > 0 then s else []" and ?e = "if Compare E [] e < 0 then e else []"
  have small': "length ?s + length ?e + 16 < 2 ^ 64" using small by auto
  have g: "GetRealRange E a (v, p) = (Val ([], []), v, p)"
    using tab assms(2) by (simp add: GetRealRange_def run_simps)
  from range_tx_ok [OF idle fin small', of v] obtain p' kr where
    tx: "transaction_run L (bindC (make_persistent_array L (length ?s + length ?e + 16)
        (Bytes (replicate (length ?s + length ?e + 16) 0))) (\<lambda>kr. write_range E kr ?s ?e)) (v, p) = (Val (), v, p')"
    and p': "idle p'" "heap p kr = None" "heap p' = (heap p)(kr \<mapsto> Bytes (range_bytes E ?s ?e))" by blast
  have "finite (dom (heap p'))" "extends (heap p) (heap p')"
    using p' fin by (auto simp: extends_def)
  with tx p' idle fin show ?thesis
    unfolding CheckAndUpdateKeyRange_def bindC_exec g Let_def
    by (simp only: prod.case outcome.case split: if_split)
       (auto simp: returnC_def)
qed

end

section \<open>Append on a well-formed range\<close>

text \<open>
  \<open>range_ok E v p\<close>: the handle and its table agree. The buffer has the table's capacity, the blocks
  from offset 16 to the data length are those of the block list, and no key range is stored.
\<close>

definition range_ok :: "rocksdb \<Rightarrow> FixedRangeTab \<Rightarrow> pmem \<Rightarrow> bool" where
  "range_ok E v p \<longleftrightarrow> idle p \<and> finite (dom (heap p)) \<and>
     (\<exists>t b. heap p (nonVolatileTab v) = Some (RangeTab t) \<and> heap p (buf t) = Some (Bytes b) \<and>
        length b < 2 ^ 63 \<and> unat (bufSize t) = length b \<and> key_range t = 0 \<and>
        blocks_at E b 16 (blklist v) (unat (dataLen t)))"

context steady_env
begin

lemma Append_frame:
  assumes tab: "heap p a = Some (RangeTab t)" and bytes: "heap p (buf t) = Some (Bytes b)"
    and v: "nonVolatileTab v = a" and idle: "idle p" and fin: "finite (dom (heap p))"
    and small: "length b < 2 ^ 63" and kr: "key_range t = 0" and bloom: "8 \<le> length bloom"
    and keys: "length s + length e + 16 < 2 ^ 64"
    and poke: "poke b (unat (dataLen t)) (block_bytes E bloom data) = Some b'"
  defines "t' \<equiv> t\<lparr>dataLen := dataLen t + 8 + 8 + of_nat (length data)\<rparr>"
  shows "\<exists>p'. Append L E bloom data s e (v, p) =
      (Val (), v\<lparr>blklist := blklist v @ [new_block E (dataLen t) data]\<rparr>, p') \<and>
    idle p' \<and> finite (dom (heap p')) \<and> extends ((heap p)(buf t \<mapsto> Bytes b', a \<mapsto> RangeTab t')) (heap p') \<and>
    unat (dataLen t') = unat (dataLen t) + 16 + length data"
proof -
  let ?w = "v\<lparr>blklist := blklist v @ [new_block E (dataLen t) data]\<rparr>"
  from append_tx_ok [OF tab bytes v idle _ begin_ok add_ok bloom poke] small obtain p1 where
    tx: "transaction_run L (append_body L E bloom data) (v, p) = (Val (), ?w, p1)" and p1: "idle p1"
    "heap p1 = (heap p)(buf t \<mapsto> Bytes b', a \<mapsto> RangeTab t')" by (auto simp: t'_def)
  have "heap p1 a = Some (RangeTab t')" "key_range t' = 0" "finite (dom (heap p1))"
    using p1 kr fin by (simp_all add: t'_def)
  from CheckAndUpdateKeyRange_ok [OF this(1,2) p1(1) this(3) keys, of ?w] obtain p' where
    cu: "CheckAndUpdateKeyRange L E a s e (?w, p1) = (Val (), ?w, p')"
    and p': "idle p'" "finite (dom (heap p'))" "extends (heap p1) (heap p')" by blast
  have "Append L E bloom data s e (v, p) = (Val (), ?w, p')"
    unfolding Append_eq
    by (simp only: exec_simps vget_run v tab_get_run [OF tab] if_cancel tx cu)
  moreover have "unat (dataLen t') = unat (dataLen t) + 16 + length data"
    using append_len [OF bloom poke] small by (simp add: t'_def)
  ultimately show ?thesis using p' p1(2) by auto
qed

lemma Append_ok:
  assumes tab: "heap p a = Some (RangeTab t)" and bytes: "heap p (buf t) = Some (Bytes b)"
    and v: "nonVolatileTab v = a" and idle: "idle p" and fin: "finite (dom (heap p))"
    and small: "length b < 2 ^ 63" and kr: "key_range t = 0" and bloom: "8 \<le> length bloom"
    and keys: "length s + length e + 16 < 2 ^ 64"
    and poke: "poke b (unat (dataLen t)) (block_bytes E bloom data) = Some b'"
  defines "t' \<equiv> t\<lparr>dataLen := dataLen t + 8 + 8 + of_nat (length data)\<rparr>"
  shows "\<exists>p'. Append L E bloom data s e (v, p) =
      (Val (), v\<lparr>blklist := blklist v @ [new_block E (dataLen t) data]\<rparr>, p') \<and>
    idle p' \<and> finite (dom (heap p')) \<and> heap p' a = Some (RangeTab t') \<and> heap p' (buf t) = Some (Bytes b') \<and>
    unat (dataLen t') = unat (dataLen t) + 16 + length data"
proof -
  have "a \<noteq> buf t" using tab bytes by auto
  then show ?thesis
    using Append_frame [OF tab bytes v idle fin small kr bloom keys poke] by (auto simp: extends_def t'_def)
qed

lemma Append_range_ok:
  assumes ok: "range_ok E v p" and bits: "chunk_bloom_bits E = 8" and bloom: "8 \<le> length bloom"
    and keys: "length s + length e + 16 < 2 ^ 64"
    and tab: "heap p (nonVolatileTab v) = Some (RangeTab t)"
    and fits: "unat (dataLen t) + 16 + length data \<le> unat (bufSize t)"
  shows "\<exists>w p'. Append L E bloom data s e (v, p) = (Val (), w, p') \<and> range_ok E w p' \<and>
    blklist w = blklist v @ [new_block E (dataLen t) data] \<and> nonVolatileTab w = nonVolatileTab v"
proof -
  from ok tab obtain b where idle: "idle p" and fin: "finite (dom (heap p))"
    and bytes: "heap p (buf t) = Some (Bytes b)" and small: "length b < 2 ^ 63"
    and cap: "unat (bufSize t) = length b" and kr: "key_range t = 0"
    and blocks: "blocks_at E b 16 (blklist v) (unat (dataLen t))" by (auto simp: range_ok_def)
  obtain b' where poke: "poke b (unat (dataLen t)) (block_bytes E bloom data) = Some b'"
    using fits cap by (simp add: poke_def block_bytes_length [OF bloom])
  from Append_ok [OF tab bytes refl idle fin small kr bloom keys poke] obtain p' where
    run: "Append L E bloom data s e (v, p) = (Val (), v\<lparr>blklist := blklist v @ [new_block E (dataLen t) data]\<rparr>, p')"
    and p': "idle p'" "finite (dom (heap p'))"
      "heap p' (nonVolatileTab v) = Some (RangeTab (t\<lparr>dataLen := dataLen t + 8 + 8 + of_nat (length data)\<rparr>))"
      "heap p' (buf t) = Some (Bytes b')"
    and len: "unat (dataLen t + 8 + 8 + of_nat (length data)) = unat (dataLen t) + 16 + length data" by auto
  from append_blocks [OF bits bloom _ blocks poke] small len
  have "blocks_at E b' 16 (blklist v @ [new_block E (dataLen t) data]) (unat (dataLen t + 8 + 8 + of_nat (length data)))"
    by simp
  with run p' cap kr small poke_length [OF poke] show ?thesis
    by (fastforce simp: range_ok_def)
qed

end

context coding64
begin

lemma RebuildBlkList_blocks:
  assumes "heap p (nonVolatileTab v) = Some (RangeTab t)" and "heap p (buf t) = Some (Bytes b)"
    and "length b < 2 ^ 64" and "blocks_at E b 16 blks (unat (dataLen t))"
  shows "RebuildBlkList E (v, p) = (Val (), v\<lparr>blklist := blklist v @ blks\<rparr>, p)"
proof -
  have "rebuild_loop E b (dataLen t) 16 (blklist v) = Some (Val (blklist v @ blks))"
    by (rule rebuild_loop_blocks) (use assms in simp_all)
  with assms show ?thesis
    by (simp add: RebuildBlkList_def exec_simps vget_def vmod_def pread_def loop_result_def)
qed

lemma RebuildBlkList_ok:
  assumes "range_ok E v p"
  shows "RebuildBlkList E (v\<lparr>blklist := []\<rparr>, p) = (Val (), v, p)"
  using assms RebuildBlkList_blocks [of p "v\<lparr>blklist := []\<rparr>"] by (auto simp: range_ok_def)

end

end
