(* ===== verification/Range_Tab_Correct.thy ===== *)
theory Range_Tab_Correct
  imports Range_Tab
begin

text \<open>
  Look-up in a range and the properties of \<open>FixedRangeTab\<close>: what \<open>Append\<close>, \<open>RebuildBlkList\<close>, \<open>Get\<close>,
  \<open>CleanUp\<close>, the constructors and the key-range functions guarantee, and where the code departs from
  what its comments intend.
\<close>

section \<open>Look-up\<close>

text \<open>\<open>readable E b blk kvs\<close>: the chunk iterator over the block denotes the sorted pairs \<open>kvs\<close>.\<close>

definition readable :: "rocksdb \<Rightarrow> byte list \<Rightarrow> ChunkBlk \<Rightarrow> (byte list \<times> byte list) list \<Rightarrow> bool" where
  "readable E b blk kvs \<longleftrightarrow>
     (\<exists>it. chunk_iterator_ctor E b (getDatOffset blk) (chunkLen blk) 0 = Val it \<and> iter_reads b it kvs) \<and>
     keys_sorted E kvs \<and> length kvs < 2 ^ 63 \<and>
     unat (offset blk) + unat (chunk_bloom_bits E) \<le> length b"

definition may_match :: "rocksdb \<Rightarrow> byte list \<Rightarrow> ChunkBlk \<Rightarrow> byte list \<Rightarrow> bool" where
  "may_match E b blk key \<longleftrightarrow>
     KeyMayMatch E key (take (unat (chunk_bloom_bits E)) (drop (unat (offset blk)) b))"

definition in_chunk :: "rocksdb \<Rightarrow> (byte list \<times> byte list) list \<Rightarrow> byte list \<Rightarrow> byte list option" where
  "in_chunk E kvs key = map_option snd (find (\<lambda>kv. Compare E (fst kv) key = 0) kvs)"

lemma chunk_answer_found: "in_chunk E kvs key = Some v \<Longrightarrow> chunk_answer E kvs key = Val (OK v)"
  by (auto simp: in_chunk_def chunk_answer_def)

lemma chunk_answer_absent:
  "in_chunk E kvs key = None \<Longrightarrow> chunk_answer E kvs key = Throw Out_of_range \<or> chunk_answer E kvs key = Val NotFound"
  by (simp add: in_chunk_def chunk_answer_def)

context key_order
begin

lemma get_loop_step:
  assumes "i < length blks" and "readable E b (blks ! i) kvs"
  shows "get_loop E b blks key (Suc i) =
    (if may_match E b (blks ! i) key
     then (case chunk_answer E kvs key of
         Val (OK v) \<Rightarrow> Val (OK v) | Val NotFound \<Rightarrow> get_loop E b blks key i
       | Throw e \<Rightarrow> Throw e | Die f \<Rightarrow> Die f)
     else get_loop E b blks key i)"
proof -
  from assms(2) obtain it where
    it: "chunk_iterator_ctor E b (getDatOffset (blks ! i)) (chunkLen (blks ! i)) 0 = Val it"
    and "iter_reads b it kvs" "keys_sorted E kvs" "length kvs < 2 ^ 63" by (auto simp: readable_def)
  then have "searchInChunk E b it key = Some (chunk_answer E kvs key)"
    by (intro searchInChunk_correct)
  with assms it show ?thesis
    by (simp add: readable_def may_match_def peek_def loop_result_def Let_def
        split: outcome.split get_status.split)
qed

lemma get_loop_newest:
  assumes "list_all2 (readable E b) blks kvss" and "in_chunk E (kvss ! i) key = Some v"
    and "may_match E b (blks ! i) key"
    and "\<forall>j. i < j \<and> j < length blks \<longrightarrow>
           \<not> may_match E b (blks ! j) key \<or> chunk_answer E (kvss ! j) key = Val NotFound"
    and "i < m" and "m \<le> length blks"
  shows "get_loop E b blks key m = Val (OK v)"
  using assms(5,6)
proof (induction m)
  case (Suc m)
  have step: "get_loop E b blks key (Suc m) =
    (if may_match E b (blks ! m) key
     then (case chunk_answer E (kvss ! m) key of
         Val (OK v) \<Rightarrow> Val (OK v) | Val NotFound \<Rightarrow> get_loop E b blks key m
       | Throw e \<Rightarrow> Throw e | Die f \<Rightarrow> Die f)
     else get_loop E b blks key m)"
    using Suc.prems assms(1) by (intro get_loop_step) (auto simp: list_all2_conv_all_nth)
  show ?case
  proof (cases "m = i")
    case True
    with step assms(3) chunk_answer_found [OF assms(2)] show ?thesis by simp
  next
    case False
    with Suc assms(4) step show ?thesis by auto
  qed
qed simp

lemma get_loop_absent:
  assumes "list_all2 (readable E b) blks kvss" and "\<forall>j < length blks. in_chunk E (kvss ! j) key = None"
    and "m \<le> length blks"
  shows "get_loop E b blks key m = Throw Out_of_range"
  using assms(3)
proof (induction m)
  case (Suc m)
  have "chunk_answer E (kvss ! m) key = Throw Out_of_range \<or> chunk_answer E (kvss ! m) key = Val NotFound"
    using Suc.prems assms(2) by (intro chunk_answer_absent) simp
  moreover have "readable E b (blks ! m) (kvss ! m)"
    using Suc.prems assms(1) by (simp add: list_all2_conv_all_nth)
  ultimately show ?case
    using Suc get_loop_step [of m blks b "kvss ! m" key] by auto
qed simp

end

lemma tab_Get_run:
  assumes "heap p (nonVolatileTab v) = Some (RangeTab t)" and "heap p (buf t) = Some (Bytes b)"
  shows "tab_Get E key (v, p) = (get_loop E b (blklist v) key (length (blklist v)), v, p)"
  using assms by (simp add: tab_Get_def exec_simps vget_def pread_def)

text \<open>A rebuild only adds blocks, and the first one it adds is at the offset where it starts.\<close>

lemma rebuild_loop_first:
  assumes "rebuild_loop E b len off acc = Some (Val blks)"
  shows "\<exists>bs. blks = acc @ bs \<and> (bs \<noteq> [] \<longrightarrow> offset (hd bs) = off)"
proof -
  define P where "P = (\<lambda>(off :: u64) (acc :: ChunkBlk list) y. \<forall>z. y = Val z \<longrightarrow>
    (\<exists>bs. z = acc @ bs \<and> (bs \<noteq> [] \<longrightarrow> offset (hd bs) = off)))"
  have "P off acc y" if "rebuild_loop E b len off acc = Some y" for y
  proof (rule rebuild_loop.raw_induct [of "\<lambda>E b len. P", OF _ that], goal_cases)
    case (1 rec E b len off acc y)
    show ?case
    proof (cases "off < len")
      case True
      show ?thesis
      proof (cases "decode_at E b (off + chunk_bloom_bits E)")
        case (Val clen)
        with 1(2) True have "rec E b len (off + (chunk_bloom_bits E + 8 + clen))
          (acc @ [\<lparr>bloom_bits = chunk_bloom_bits E, offset = off, chunkLen = clen\<rparr>]) = Some y" by simp
        from 1(1) [OF this] show ?thesis by (fastforce simp: P_def)
      qed (use 1(2) True in \<open>auto simp: P_def\<close>)
    qed (use 1(2) in \<open>auto simp: P_def\<close>)
  qed
  from this [OF assms] show ?thesis by (simp add: P_def)
qed

text \<open>The block that \<open>Append\<close> writes for a chunk of sorted pairs reads back as these pairs.\<close>

context coding64
begin

lemma appended_block_readable:
  fixes n :: u64
  assumes bits: "chunk_bloom_bits E = 8" and bloom: "8 \<le> length bloom" and small: "length b < 2 ^ 63"
    and gap: "length gap = 8 * length kvs \<and> length kvs < 2 ^ 31" and sorted: "keys_sorted E kvs"
    and poke: "poke b (unat n) (block_bytes E bloom (chunk_bytes E gap kvs)) = Some b'"
  shows "readable E b' (new_block E n (chunk_bytes E gap kvs)) kvs"
    and "may_match E b' (new_block E n (chunk_bytes E gap kvs)) key \<longleftrightarrow> KeyMayMatch E key (take 8 bloom)"
proof -
  let ?chunk = "chunk_bytes E gap kvs"
  let ?pre = "take (unat n) b @ take 8 bloom @ EncodeFixed64 E (of_nat (length ?chunk))"
  let ?post = "drop (unat n + (16 + length ?chunk)) b"
  have fits: "unat n + 16 + length ?chunk \<le> length b"
    and b': "b' = take (unat n) b @ block_bytes E bloom ?chunk @ ?post"
    using poke by (auto simp: poke_Some_iff block_bytes_length [OF bloom])
  then have b'': "b' = ?pre @ ?chunk @ ?post" by (simp add: block_bytes_def)
  have pre: "length ?pre = unat n + 16" using bloom fits by simp
  have len: "length b' = length b" using poke_length [OF poke] .
  have dat: "of_nat (length ?pre) = getDatOffset (new_block E n ?chunk)"
    unfolding pre by (simp add: getDatOffset_def new_block_def bits)
  obtain it where it: "chunk_iterator_ctor E b' (of_nat (length ?pre)) (of_nat (length ?chunk)) 0 = Val it"
    "iter_reads b' it kvs"
    using chunk_iterator_reads_gapped [OF _ _ b''] gap small len by auto
  have "16 * length kvs \<le> length (pairs_bytes E kvs)" using pairs_bytes_length_ge [of kvs] by simp
  then have "length kvs < 2 ^ 63" using fits small by (simp add: chunk_bytes_def)
  then show "readable E b' (new_block E n ?chunk) kvs"
    using it sorted fits len unfolding dat by (auto simp: readable_def new_block_def bits)
  show "may_match E b' (new_block E n ?chunk) key \<longleftrightarrow> KeyMayMatch E key (take 8 bloom)"
    using fits bloom by (simp add: may_match_def new_block_def bits b'')
qed

lemma newest_block_found:
  assumes "key_order E" and "chunk_bloom_bits E = 8" and "8 \<le> length bloom" and "length b < 2 ^ 63"
    and "length gap = 8 * length kvs \<and> length kvs < 2 ^ 31" and "keys_sorted E kvs"
    and "poke b (unat n) (block_bytes E bloom (chunk_bytes E gap kvs)) = Some b'"
    and "in_chunk E kvs key = Some val" and "KeyMayMatch E key (take 8 bloom)"
    and "blklist w = blks @ [new_block E n (chunk_bytes E gap kvs)]"
    and "heap p (nonVolatileTab w) = Some (RangeTab t)" and "heap p (buf t) = Some (Bytes b')"
  shows "tab_Get E key (w, p) = (Val (OK val), w, p)"
proof -
  note blk = appended_block_readable [OF assms(2-7)]
  have "get_loop E b' (blklist w) key (length (blklist w)) = Val (OK val)"
    using key_order.get_loop_step [OF assms(1), of "length blks" "blklist w" b' kvs key] blk assms(9,10)
      chunk_answer_found [OF assms(8)] by simp
  then show ?thesis using tab_Get_run [OF assms(11,12)] by simp
qed

end

text \<open>What is appended is found: the newest block is searched first.\<close>

context steady_env
begin

lemma Append_get:
  assumes ord: "key_order E" and tab: "heap p (nonVolatileTab v) = Some (RangeTab t)" and bytes: "heap p (buf t) = Some (Bytes b)"
    and idle: "idle p" and fin: "finite (dom (heap p))" and small: "length b < 2 ^ 63" and kr: "key_range t = 0"
    and bits: "chunk_bloom_bits E = 8" and bloom: "8 \<le> length bloom" and keys: "length s + length e + 16 < 2 ^ 64"
    and gap: "length gap = 8 * length kvs \<and> length kvs < 2 ^ 31" and sorted: "keys_sorted E kvs"
    and fits: "unat (dataLen t) + 16 + length (chunk_bytes E gap kvs) \<le> length b"
    and found: "in_chunk E kvs key = Some val" and may: "KeyMayMatch E key (take 8 bloom)"
  shows "\<exists>w p'. Append L E bloom (chunk_bytes E gap kvs) s e (v, p) = (Val (), w, p') \<and>
    tab_Get E key (w, p') = (Val (OK val), w, p')"
proof -
  let ?chunk = "chunk_bytes E gap kvs"
  obtain b' where poke: "poke b (unat (dataLen t)) (block_bytes E bloom ?chunk) = Some b'"
    using fits block_bytes_length [OF bloom] by (simp add: poke_def)
  from Append_ok [OF tab bytes refl idle fin small kr bloom keys poke] obtain p' where
    run: "Append L E bloom ?chunk s e (v, p) = (Val (), v\<lparr>blklist := blklist v @ [new_block E (dataLen t) ?chunk]\<rparr>, p')"
    and heap: "heap p' (nonVolatileTab v) = Some (RangeTab (t\<lparr>dataLen := dataLen t + 8 + 8 + of_nat (length ?chunk)\<rparr>))"
      "heap p' (buf t) = Some (Bytes b')" by auto
  let ?w = "v\<lparr>blklist := blklist v @ [new_block E (dataLen t) ?chunk]\<rparr>"
  have "tab_Get E key (?w, p') = (Val (OK val), ?w, p')"
    by (rule newest_block_found [OF ord bits bloom small gap sorted poke found may]) (simp_all add: heap(1), simp add: heap(2))
  with run show ?thesis by blast
qed

end

section \<open>A process killed inside Append\<close>

text \<open>Statements that write nothing but bytes of a buffer from position \<open>n\<close> on.\<close>

definition tail_stmt :: "nat \<Rightarrow> nat \<Rightarrow> unit tab_op \<Rightarrow> bool" where
  "tail_stmt ba n m \<longleftrightarrow> (\<forall>u p h b r u' p'. m (u, p\<lparr>heap := h(ba \<mapsto> Bytes b)\<rparr>) = (r, u', p') \<longrightarrow>
     u' = u \<and> (\<forall>e. r \<noteq> Throw e) \<and>
     (\<exists>b'. length b' = length b \<and> take n b' = take n b \<and> p' = p\<lparr>heap := h(ba \<mapsto> Bytes b')\<rparr>))"

named_theorems tail_intros "statements that write only the end of a buffer"

lemma tail_stmtE:
  assumes "tail_stmt ba n m" and "m (u, p\<lparr>heap := h(ba \<mapsto> Bytes b)\<rparr>) = (r, u', p')"
  obtains b' where "u' = u" and "\<forall>e. r \<noteq> Throw e" and "length b' = length b" and "take n b' = take n b"
    and "p' = p\<lparr>heap := h(ba \<mapsto> Bytes b')\<rparr>"
  using tail_stmt_def [THEN iffD1, rule_format, OF assms] by blast

lemma tail_memcpy [tail_intros]: "n \<le> unat i \<Longrightarrow> tail_stmt ba n (memcpy_to ba i xs)"
  unfolding tail_stmt_def
  by (auto simp: memcpy_to_run split: option.splits dest: poke_length take_poke_before [where j = n])

lemma tail_returnC [tail_intros]: "tail_stmt ba n (returnC ())" and tail_dieC [tail_intros]: "tail_stmt ba n (dieC f)"
  by (auto simp: tail_stmt_def returnC_def dieC_def)

lemma tail_thenC [tail_intros]:
  assumes m: "tail_stmt ba n m" and k: "tail_stmt ba n k"
  shows "tail_stmt ba n (thenC m k)"
  unfolding tail_stmt_def
proof (intro allI impI)
  fix u p h b r u' p'
  assume run: "thenC m k (u, p\<lparr>heap := h(ba \<mapsto> Bytes b)\<rparr>) = (r, u', p')"
  obtain r1 u1 p1 where 1: "m (u, p\<lparr>heap := h(ba \<mapsto> Bytes b)\<rparr>) = (r1, u1, p1)" by (rule prod_cases3)
  from tail_stmtE [OF m 1] obtain b1 where b1: "u1 = u" "\<forall>e. r1 \<noteq> Throw e" "length b1 = length b" "take n b1 = take n b"
    "p1 = p\<lparr>heap := h(ba \<mapsto> Bytes b1)\<rparr>" .
  show "u' = u \<and> (\<forall>e. r \<noteq> Throw e) \<and>
     (\<exists>b'. length b' = length b \<and> take n b' = take n b \<and> p' = p\<lparr>heap := h(ba \<mapsto> Bytes b')\<rparr>)"
  proof (cases r1)
    case (Val x)
    with run 1 b1(1,5) have "k (u, p\<lparr>heap := h(ba \<mapsto> Bytes b1)\<rparr>) = (r, u', p')" by (simp add: exec_simps)
    from tail_stmtE [OF k this] b1(3,4) show ?thesis by metis
  next
    case (Die f)
    with run 1 b1 show ?thesis by (auto simp: exec_simps)
  qed (use b1 in simp)
qed

lemma tail_kill [tail_intros]: "tail_stmt ba n tear \<Longrightarrow> tail_stmt ba n (kill_points at tear j)"
  unfolding kill_points_def by (simp add: tail_intros)

lemma kill_points_None: "kill_points None tear = (\<lambda>_. returnC ())"
  by (rule ext) (simp add: kill_points_def)

text \<open>Statements that never return: the kill, and what has it on its way.\<close>

definition stops :: "('s, unit) cpp \<Rightarrow> bool" where
  "stops m \<longleftrightarrow> (\<forall>s. fst (m s) \<noteq> Val ())"

lemma stops_kill: "stops (kill_points (Some j) tear j)"
  by (auto simp: stops_def kill_points_def exec_simps dieC_def thenC_def bindC_def split: prod.splits outcome.splits)

lemma stops_thenC: "stops m \<or> stops k \<Longrightarrow> stops (thenC m k)"
  by (auto simp: stops_def thenC_def bindC_def split: prod.splits outcome.splits) (metis fst_conv)+

lemma thenC_assoc: "thenC (thenC l m) k = thenC l (thenC m k)"
  by (rule ext) (auto simp: thenC_def bindC_def split: prod.splits outcome.splits)

context coding64
begin

lemma killed_body:
  fixes data :: "byte list"
  assumes tab: "heap p a = Some (RangeTab t)" and bytes: "heap p (buf t) = Some (Bytes b)"
    and v: "nonVolatileTab v = a" and idle: "idle p" and small: "length b < 2 ^ 64"
    and bloom: "8 \<le> length bloom" and room: "unat (dataLen t) + 16 + length data \<le> length b"
    and tear: "tail_stmt (buf t) (unat (dataLen t)) tear" and k: "k < 5"
    and run: "append_body_at (kill_points (Some k) tear) L E bloom data (v, open_pool p) = (r, w, p')"
  shows "r \<noteq> Val () \<and> w = v\<lparr>blklist := blklist v @ [new_block E (dataLen t) data]\<rparr> \<and>
    (\<exists>base. tx_post {} base 1 r p' \<and> tail_written (heap p) (buf t) b (unat (dataLen t)) base)"
proof -
  let ?pt = "kill_points (Some k) tear" and ?n = "unat (dataLen t)"
  let ?w = "v\<lparr>blklist := blklist v @ [new_block E (dataLen t) data]\<rparr>"
  let ?set = "tab_set L a dataLen dataLen_update (dataLen t + 8 + 8 + of_nat (length data)) :: unit tab_op"
  define front where "front =
    thenC (?pt 0) (thenC (memcpy_to (buf t) (dataLen t) (take 8 bloom))
    (thenC (?pt 1) (thenC (memcpy_to (buf t) (dataLen t + 8) (EncodeFixed64 E (of_nat (length data))))
    (thenC (?pt 2) (thenC (memcpy_to (buf t) (dataLen t + 8 + 8) data) (?pt 3))))))"
  have ne: "a \<noteq> buf t" using tab bytes by auto
  have u8: "unat (dataLen t + 8) = ?n + 8" using room small by (subst unat_add_no_wrap) simp_all
  have u16: "unat (dataLen t + 8 + 8) = ?n + 16" using room small u8 by (subst unat_add_no_wrap) simp_all
  have vm: "vmod (\<lambda>v. v\<lparr>blklist := blklist v @ [\<lparr>bloom_bits = chunk_bloom_bits E, offset = dataLen t,
      chunkLen = of_nat (length data)\<rparr>]\<rparr>) (v, open_pool p) = (Val (), ?w, open_pool p)"
    by (simp add: vmod_def new_block_def)
  have rd: "read_n CHUNK_BLOOM_FILTER_LEN bloom = Val (take 8 bloom)"
    using bloom by (simp add: read_n_def CHUNK_BLOOM_FILTER_LEN_def peek_def)
  have tab': "heap (open_pool p) a = Some (RangeTab t)" using tab by simp
  have same: "open_pool p = (open_pool p)\<lparr>heap := (heap p)(buf t \<mapsto> Bytes b)\<rparr>"
    using bytes by (simp add: open_pool_def fun_upd_idem)
  have body: "append_body_at ?pt L E bloom data (v, open_pool p) =
      thenC front (thenC ?set (?pt 4)) (?w, (open_pool p)\<lparr>heap := (heap p)(buf t \<mapsto> Bytes b)\<rparr>)"
    unfolding append_body_at_def Let_def front_def thenC_assoc same [symmetric]
    by (simp only: exec_simps vget_run v tab_get_run [OF tab'] vm rd)
  have front: "tail_stmt (buf t) ?n front"
    unfolding front_def by (intro tail_intros tear) (simp_all only: u8 u16)
  obtain r1 w1 p1 where 1: "front (?w, (open_pool p)\<lparr>heap := (heap p)(buf t \<mapsto> Bytes b)\<rparr>) = (r1, w1, p1)"
    by (rule prod_cases3)
  from tail_stmtE [OF front 1] obtain b1 where b1: "w1 = ?w" "\<forall>e. r1 \<noteq> Throw e" "length b1 = length b" "take ?n b1 = take ?n b"
    "p1 = (open_pool p)\<lparr>heap := (heap p)(buf t \<mapsto> Bytes b1)\<rparr>" .
  have base: "tail_written (heap p) (buf t) b ?n ((heap p)(buf t \<mapsto> Bytes b1))"
    using b1 by (auto simp: tail_written_def)
  show ?thesis
  proof (cases r1)
    case (Die f)
    with run 1 b1 body have "r = Die f" "w = ?w" "p' = p1" by (simp_all add: exec_simps)
    with tx_post_raw [OF idle, of r "(heap p)(buf t \<mapsto> Bytes b1)"] b1(5) base show ?thesis by auto
  next
    case (Val x)
    have "k = 4"
    proof (rule ccontr)
      assume "k \<noteq> 4"
      with k have "k \<in> {0, 1, 2, 3}" by auto
      then have "stops front" unfolding front_def using stops_kill [of _ tear] by (elim insertE emptyE) (simp_all add: stops_thenC)
      then have "fst (front (?w, (open_pool p)\<lparr>heap := (heap p)(buf t \<mapsto> Bytes b)\<rparr>)) \<noteq> Val ()" by (simp add: stops_def)
      with 1 Val show False by simp
    qed
    obtain r2 w2 p2 where 2: "?set (?w, p1) = (r2, w2, p2)" by (rule prod_cases3)
    note post = append_set_len_post [OF tab ne idle 2 [unfolded b1(5)]]
    have "(r, w, p') = (case r2 of Val _ \<Rightarrow> (Die Killed, w2, p2) | Throw e \<Rightarrow> (Throw e, w2, p2) | Die f \<Rightarrow> (Die f, w2, p2))"
      using run 1 2 Val b1(1) body \<open>k = 4\<close> by (auto simp: exec_simps kill_points_def split: outcome.splits)
    moreover have "rollback (undo_log p2) (heap p2) = (heap p)(buf t \<mapsto> Bytes b1)" using post tx_post_rollback by blast
    ultimately have "r \<noteq> Val () \<and> w = ?w \<and> tx_post {} ((heap p)(buf t \<mapsto> Bytes b1)) 1 r p'"
      using post by (cases r2) auto
    with base show ?thesis by blast
  qed (use b1 in simp)
qed

text \<open>Killed before the commit: the next open finds the buffer changed behind the data length at most.\<close>

lemma killed_tx:
  fixes data :: "byte list"
  assumes tab: "heap p a = Some (RangeTab t)" and bytes: "heap p (buf t) = Some (Bytes b)"
    and v: "nonVolatileTab v = a" and idle: "idle p" and small: "length b < 2 ^ 64" and start: "begin_rc L p = 0"
    and bloom: "8 \<le> length bloom" and room: "unat (dataLen t) + 16 + length data \<le> length b"
    and tear: "tail_stmt (buf t) (unat (dataLen t)) tear" and k: "k < 5"
    and run: "Append_at (kill_points (Some k) tear) L E bloom data s e (v, p) = (r, w, p')"
  shows "r \<noteq> Val () \<and> w = v\<lparr>blklist := blklist v @ [new_block E (dataLen t) data]\<rparr> \<and>
    tail_written (heap p) (buf t) b (unat (dataLen t)) (heap (recover p'))"
proof -
  let ?tx = "append_body_at (kill_points (Some k) tear) L E bloom data"
  obtain r1 w1 p1 where 1: "?tx (v, open_pool p) = (r1, w1, p1)" by (rule prod_cases3)
  from killed_body [OF tab bytes v idle small bloom room tear k 1] obtain base where
    r1: "r1 \<noteq> Val ()" and w1: "w1 = v\<lparr>blklist := blklist v @ [new_block E (dataLen t) data]\<rparr>"
    and post: "tx_post {} base 1 r1 p1" "tail_written (heap p) (buf t) b (unat (dataLen t)) base" by blast
  obtain r2 w2 p2 where 2: "close_tx r1 w1 p1 = (r2, w2, p2)" by (rule prod_cases3)
  have tx: "transaction_run L ?tx (v, p) = (r2, w2, p2)"
    using transaction_run_run [where tx = ?tx, OF start 1] 2 by simp
  from close_tx_outermost [OF post(1) 2] r1 have r2: "r2 \<noteq> Val ()" by (cases r2) auto
  then have "(r, w, p') = (r2, w2, p2)"
    using run by (cases r2) (auto simp: Append_at_def exec_simps vget_run v tab_get_run [OF tab] tx simp del: thenC_return)
  moreover have "w2 = w1" using 2 by (cases r1) (auto simp: close_tx_def split: if_splits)
  moreover have "heap (recover p2) = base"
    using close_tx_outermost [OF post(1) 2] r2 by (cases r2) (auto simp: recover_def idle_def)
  ultimately show ?thesis using r2 w1 post(2) by simp
qed

text \<open>What a rebuild finds after an append that wrote the block, or bytes behind the data length at most.\<close>

lemma rebuild_after_append:
  assumes bits: "chunk_bloom_bits E = 8" and bloom: "8 \<le> length bloom" and tab: "heap p (nonVolatileTab v) = Some (RangeTab t)"
    and bytes: "heap p (buf t) = Some (Bytes b)" and small: "length b < 2 ^ 63"
    and blocks: "blocks_at E b 16 (blklist v) (unat (dataLen t))" and ne: "nonVolatileTab v \<noteq> buf t" and ext: "extends h (heap q)"
  shows "tail_written (heap p) (buf t) b (unat (dataLen t)) h \<Longrightarrow>
      RebuildBlkList E (v\<lparr>blklist := []\<rparr>, q) = (Val (), v\<lparr>blklist := blklist v\<rparr>, q)"
    and "block_written E (nonVolatileTab v) t b bloom data (heap p) h \<Longrightarrow>
      RebuildBlkList E (v\<lparr>blklist := []\<rparr>, q) = (Val (), v\<lparr>blklist := blklist v @ [new_block E (dataLen t) data]\<rparr>, q)"
proof -
  assume "tail_written (heap p) (buf t) b (unat (dataLen t)) h"
  then obtain b' where b': "h = (heap p)(buf t \<mapsto> Bytes b')" "length b' = length b"
    "take (unat (dataLen t)) b' = take (unat (dataLen t)) b" by (auto simp: tail_written_def)
  have "heap q (nonVolatileTab v) = Some (RangeTab t)" "heap q (buf t) = Some (Bytes b')"
    using ext b' tab ne by (auto simp: extends_def)
  then show "RebuildBlkList E (v\<lparr>blklist := []\<rparr>, q) = (Val (), v\<lparr>blklist := blklist v\<rparr>, q)"
    using RebuildBlkList_blocks [where p = q and v = "v\<lparr>blklist := []\<rparr>"]
      blocks_at_cong [OF blocks order.refl b'(3,2)] b' small by simp
next
  assume "block_written E (nonVolatileTab v) t b bloom data (heap p) h"
  then obtain b' where poke: "poke b (unat (dataLen t)) (block_bytes E bloom data) = Some b'"
    and h: "h = (heap p)(buf t \<mapsto> Bytes b', nonVolatileTab v \<mapsto>
      RangeTab (t\<lparr>dataLen := dataLen t + 8 + 8 + of_nat (length data)\<rparr>))" by (auto simp: block_written_def)
  let ?t = "t\<lparr>dataLen := dataLen t + 8 + 8 + of_nat (length data)\<rparr>"
  have heap: "heap q (nonVolatileTab v) = Some (RangeTab ?t)" "heap q (buf ?t) = Some (Bytes b')"
    using ext h ne by (auto simp: extends_def)
  have "blocks_at E b' 16 (blklist v @ [new_block E (dataLen t) data]) (unat (dataLen ?t))"
    using append_blocks [OF bits bloom _ blocks poke] small append_len [OF bloom poke] by simp
  then show "RebuildBlkList E (v\<lparr>blklist := []\<rparr>, q) = (Val (), v\<lparr>blklist := blklist v @ [new_block E (dataLen t) data]\<rparr>, q)"
    using RebuildBlkList_blocks [of q "v\<lparr>blklist := []\<rparr>" ?t b'] heap poke_length [OF poke] small by auto
qed

end

context nvm_env
begin

text \<open>Every outcome of \<open>Append\<close> with a kill at any of the points, or with none.\<close>

lemma killed_outcome:
  fixes data :: "byte list"
  assumes tab: "heap p a = Some (RangeTab t)" and bytes: "heap p (buf t) = Some (Bytes b)"
    and v: "nonVolatileTab v = a" and idle: "idle p" and small: "length b < 2 ^ 64"
    and bloom: "8 \<le> length bloom" and room: "unat (dataLen t) + 16 + length data \<le> length b"
    and tear: "tail_stmt (buf t) (unat (dataLen t)) tear"
    and run: "Append_at (kill_points at tear) L E bloom data s e (v, p) = (r, w, p')"
  shows "\<exists>h. (r \<noteq> Val () \<and> (at = Some 5 \<longrightarrow> r \<noteq> Die Killed) \<and> tail_written (heap p) (buf t) b (unat (dataLen t)) h \<or>
      (\<forall>k < 5. at \<noteq> Some k) \<and> block_written E a t b bloom data (heap p) h) \<and> extends h (heap (recover p'))"
proof -
  consider (copy) k where "at = Some k" "k < 5" | (commit) "at = Some 5" | (none) "\<forall>k < 6. at \<noteq> Some k"
  proof (cases "\<exists>k < 6. at = Some k")
    case True
    then obtain k where "k < 6" "at = Some k" by blast
    with that(1) [of k] that(2) show ?thesis by (cases "k = 5") auto
  qed (use that(3) in blast)
  then show ?thesis
  proof cases
    case copy
    with killed_tx [OF tab bytes v idle small begin_ok bloom room tear] run show ?thesis by fastforce
  next
    case none
    then have off: "kill_points at tear j = returnC ()" if "j < 6" for j using that by (simp add: kill_points_def)
    have "Append_at (kill_points at tear) = Append"
      unfolding Append_def by (intro ext) (simp add: Append_at_def append_body_at_def off)
    with Append_outcome [OF tab bytes v idle small, of bloom data s e r w p'] run none show ?thesis by auto
  next
    case commit
    let ?body = "append_body L E bloom data"
    have off: "append_body_at (kill_points at tear) L E bloom data = ?body"
      by (simp add: append_body_def append_body_at_def kill_points_def commit)
    have five: "kill_points at tear 5 = dieC Killed" by (simp add: kill_points_def commit)
    obtain b' where poke: "poke b (unat (dataLen t)) (block_bytes E bloom data) = Some b'"
      using room by (simp add: poke_def block_bytes_length [OF bloom])
    obtain r1 w1 p1 where 1: "transaction_run L ?body (v, p) = (r1, w1, p1)" by (rule prod_cases3)
    note out = append_tx_outcome [OF tab bytes v idle small begin_ok 1]
    have "heap (open_pool p) a = Some (RangeTab t)" "heap (open_pool p) (buf t) = Some (Bytes b)" using tab bytes by simp_all
    from append_body_in_tx [OF this v _ bloom poke small, of L]
    obtain r0 w0 p0 where 0: "?body (v, open_pool p) = (r0, w0, p0)"
      "r0 = Val () \<and> stage p0 = TX_STAGE_WORK \<or> r0 = Throw Transaction_error"
      by (cases "?body (v, open_pool p)") (simp split: if_splits)
    then have alive: "\<forall>f. r1 \<noteq> Die f"
      using transaction_run_run [where tx = ?body, OF begin_ok 0(1)] 1 by (auto simp: close_tx_def split: if_splits)
    have "(r, w, p') = (if r1 = Val () then Die Killed else r1, w1, p1)"
      using run alive by (cases r1) (auto simp: Append_at_def off five exec_simps vget_run v tab_get_run [OF tab] 1)
    moreover have "heap (recover q) = heap q" if "idle q" for q :: pmem using that by (simp add: recover_def idle_def)
    ultimately show ?thesis using out alive commit by (cases r1) auto
  qed
qed

end

section \<open>A concrete range\<close>

text \<open>A table at offset 1 with a 100-byte buffer at offset 2, as witnesses use it.\<close>

definition demo_tab :: "u64 \<Rightarrow> NvRangeTab" where
  "demo_tab len = \<lparr>hash = 0, prefixLen = 0, prefix = 0, key_range = 0, chunk_num = 0, seq_num = 0,
     bufSize = 100, buf = 2, dataLen = len, extra_buf = 0, next = 0\<rparr>"

definition demo_pool :: "NvRangeTab \<Rightarrow> byte list \<Rightarrow> pmem" where
  "demo_pool t b = \<lparr>heap = [1 \<mapsto> RangeTab t, 2 \<mapsto> Bytes b], stage = TX_STAGE_NONE, depth = 0,
     undo_log = [], freed = [], errnum = 0\<rparr>"

definition demo_range :: FixedRangeTab where
  "demo_range = \<lparr>nonVolatileTab = 1, blklist = [], raw = (2, 16), in_compaction = False, pendding_clean = 0\<rparr>"

lemma idle_demo_pool [simp]: "idle (demo_pool t b)"
  by (simp add: demo_pool_def idle_def)

lemma demo_bits [simp]: "chunk_bloom_bits default_rocksdb = 8"
  by (simp add: default_rocksdb_def)

lemma demo_rocksdb [simp]:
  "Compare default_rocksdb = bytewise_compare" "KeyMayMatch default_rocksdb k f"
  by (simp_all add: default_rocksdb_def)

text \<open>The same range after one chunk with the pair \<open>([5], [6])\<close> was appended at offset 16.\<close>

definition demo_chunk :: "byte list" where
  "demo_chunk = chunk_bytes default_rocksdb (replicate 8 0) [([5], [6])]"

definition demo_buf :: "byte list" where
  "demo_buf = replicate 16 0 @ block_bytes default_rocksdb (replicate 8 1) demo_chunk @ replicate 26 0"

definition demo_full :: FixedRangeTab where
  "demo_full = demo_range\<lparr>blklist := [new_block default_rocksdb 16 demo_chunk]\<rparr>"

lemma demo_chunk_length [simp]: "length demo_chunk = 42"
  by (simp add: demo_chunk_def chunk_bytes_def le.offset_table_length pairs_bytes_def encode_pair_def)

lemma demo_full_readable: "list_all2 (readable default_rocksdb demo_buf) (blklist demo_full) [[([5], [6])]]"
proof -
  have "length (block_bytes default_rocksdb (replicate 8 1) demo_chunk) = 58"
    by (simp add: le.block_bytes_length)
  then have "poke (replicate 100 0) (unat (16 :: u64)) (block_bytes default_rocksdb (replicate 8 1) demo_chunk) = Some demo_buf"
    by (simp add: poke_def demo_buf_def)
  then have "readable default_rocksdb demo_buf (new_block default_rocksdb 16 demo_chunk) [([5], [6])]"
    unfolding demo_chunk_def
    by (rule le.appended_block_readable(1) [rotated -1]) (simp_all add: keys_sorted_def)
  then show ?thesis by (simp add: demo_full_def)
qed

lemma demo_range_ok: "range_ok default_rocksdb demo_range (demo_pool (demo_tab 16) (replicate 100 0))"
  by (simp add: range_ok_def demo_range_def) (simp add: demo_pool_def demo_tab_def)

section \<open>Properties\<close>

text \<open>C7: \<open>Append\<close> on a well-formed range with room does its work: it returns, the block list grows by
  the new block at the old data length, the range stays well-formed, and a rebuild of the block list
  from persistent memory alone yields exactly the block list the handle holds.\<close>

theorem append_then_rebuild:
  assumes "steady_env L E" and "range_ok E v p" and "chunk_bloom_bits E = 8" and "8 \<le> length bloom"
    and "length s + length e + 16 < 2 ^ 64" and "heap p (nonVolatileTab v) = Some (RangeTab t)"
    and "unat (dataLen t) + 16 + length data \<le> unat (bufSize t)"
  shows "\<exists>w p'. Append L E bloom data s e (v, p) = (Val (), w, p') \<and> range_ok E w p' \<and>
    blklist w = blklist v @ [new_block E (dataLen t) data] \<and>
    RebuildBlkList E (w\<lparr>blklist := []\<rparr>, p') = (Val (), w, p')"
  using steady_env.Append_range_ok [OF assms] steady_env.axioms(2) [OF assms(1)]
    coding64.RebuildBlkList_ok by blast

theorem append_then_rebuild_witness:
  "\<exists>w p'. Append healthy default_rocksdb (replicate 8 1) [7, 8] [1] [2]
      (demo_range, demo_pool (demo_tab 16) (replicate 100 0)) = (Val (), w, p') \<and>
    blklist w = [new_block default_rocksdb 16 [7, 8]] \<and>
    RebuildBlkList default_rocksdb (w\<lparr>blklist := []\<rparr>, p') = (Val (), w, p')"
  using append_then_rebuild [OF nvm.steady_env_axioms demo_range_ok, of "replicate 8 1" "[1]" "[2]" "demo_tab 16" "[7, 8]"]
  by (auto simp: demo_range_def demo_pool_def demo_tab_def)

text \<open>C30: \<open>RebuildBlkList\<close> ends on every buffer that holds a sequence of blocks from offset 16 to the
  data length, without reading outside the buffer, and appends exactly these blocks, in buffer order.\<close>

theorem rebuild_finds_blocks:
  assumes "coding64 E" and "heap p (nonVolatileTab v) = Some (RangeTab t)" and "heap p (buf t) = Some (Bytes b)"
    and "length b < 2 ^ 64" and "blocks_at E b 16 blks (unat (dataLen t))"
  shows "RebuildBlkList E (v, p) = (Val (), v\<lparr>blklist := blklist v @ blks\<rparr>, p)"
  by (rule coding64.RebuildBlkList_blocks [OF assms])

theorem rebuild_finds_blocks_witness:
  "RebuildBlkList default_rocksdb (demo_range, demo_pool (demo_tab 33)
      (replicate 16 0 @ replicate 8 1 @ EncodeFixed64 default_rocksdb 1 @ [9])) =
    (Val (), demo_range\<lparr>blklist := [\<lparr>bloom_bits = 8, offset = 16, chunkLen = 1\<rparr>]\<rparr>,
     demo_pool (demo_tab 33) (replicate 16 0 @ replicate 8 1 @ EncodeFixed64 default_rocksdb 1 @ [9]))"
proof -
  let ?b = "replicate 16 0 @ replicate 8 1 @ EncodeFixed64 default_rocksdb 1 @ [9 :: byte]"
  have "blocks_at default_rocksdb ?b 16 [\<lparr>bloom_bits = 8, offset = 16, chunkLen = 1\<rparr>] (unat (dataLen (demo_tab 33)))"
    by (simp add: peek_def demo_tab_def)
  from rebuild_finds_blocks [OF le.coding64_axioms _ _ _ this, of "demo_pool (demo_tab 33) ?b" demo_range]
  show ?thesis by (simp add: demo_pool_def demo_range_def demo_tab_def)
qed

text \<open>C6: \<open>Append\<close> is atomic across failures and crashes. It is called on a well-formed range with room for the chunk. Whether it returns, throws
  (for lack of log space or of memory), or the process is killed (before, between or after the three copies of the block, in the
  middle of a copy with any bytes from the old data length on overwritten, after the assignment of the data length,
  or after the commit), rebuilding the block list from the reopened pool yields either the old block list or the old
  one with the new block at its end: the old one when the process was killed before the commit, the new one whenever \<open>Append\<close> returned or was
  killed after the commit. (The stores done before the kill are kept, in order: a process dies here, not the machine. A chunk that does not fit is
  copied past the end of the buffer, about which nothing is claimed.)\<close>

theorem append_crash_atomic:
  assumes "nvm_env L E" and "range_ok E v p" and "chunk_bloom_bits E = 8" and "8 \<le> length bloom"
    and "heap p (nonVolatileTab v) = Some (RangeTab t)" and "unat (dataLen t) + 16 + length data \<le> unat (bufSize t)"
    and "unat (dataLen t) \<le> unat i"
    and "Append_at (kill_points at (memcpy_to (buf t) i torn)) L E bloom data s e (v, p) = (r, w, p')"
  shows "(at = None \<longrightarrow> Append L E bloom data s e (v, p) = (r, w, p')) \<and>
    (\<exists>blks. RebuildBlkList E (v\<lparr>blklist := []\<rparr>, recover p') = (Val (), v\<lparr>blklist := blks\<rparr>, recover p') \<and>
      (r \<noteq> Val () \<and> (at = Some 5 \<longrightarrow> r \<noteq> Die Killed) \<and> blks = blklist v \<or>
       (\<forall>k < 5. at \<noteq> Some k) \<and> blks = blklist v @ [new_block E (dataLen t) data]))"
proof -
  from assms(2,5) obtain b where idle: "idle p" and bytes: "heap p (buf t) = Some (Bytes b)"
    and small: "length b < 2 ^ 63" and blocks: "blocks_at E b 16 (blklist v) (unat (dataLen t))"
    and cap: "unat (bufSize t) = length b" by (auto simp: range_ok_def)
  have ne: "nonVolatileTab v \<noteq> buf t" using assms(5) bytes by auto
  from nvm_env.killed_outcome [OF assms(1,5) bytes refl idle _ assms(4) _ tail_memcpy [OF assms(7)] assms(8)] assms(6) cap small
  obtain h where
    h: "r \<noteq> Val () \<and> (at = Some 5 \<longrightarrow> r \<noteq> Die Killed) \<and> tail_written (heap p) (buf t) b (unat (dataLen t)) h \<or>
        (\<forall>k < 5. at \<noteq> Some k) \<and> block_written E (nonVolatileTab v) t b bloom data (heap p) h"
    and ext: "extends h (heap (recover p'))" by auto
  note rebuilt = coding64.rebuild_after_append [OF nvm_env.axioms(2) [OF assms(1)] assms(3-5) bytes small blocks ne ext]
  have "at = None \<longrightarrow> Append L E bloom data s e (v, p) = (r, w, p')"
    using assms(8) by (auto simp: Append_def kill_points_None)
  with h rebuilt show ?thesis by blast
qed

theorem append_crash_atomic_witness:
  "\<exists>r w p'. Append_at (kill_points (Some 2) (memcpy_to 2 32 [9, 9])) healthy default_rocksdb (replicate 8 1) [7, 8] [1] [2]
      (demo_range, demo_pool (demo_tab 16) (replicate 100 0)) = (r, w, p') \<and>
    RebuildBlkList default_rocksdb (demo_range\<lparr>blklist := []\<rparr>, recover p') =
      (Val (), demo_range\<lparr>blklist := []\<rparr>, recover p')"
proof -
  let ?p = "demo_pool (demo_tab 16) (replicate 100 0)"
  let ?a = "Append_at (kill_points (Some 2) (memcpy_to 2 32 [9, 9])) healthy default_rocksdb (replicate 8 1) [7, 8] [1] [2]"
  obtain r w p' where run: "?a (demo_range, ?p) = (r, w, p')" by (rule prod_cases3)
  have tab: "heap ?p (nonVolatileTab demo_range) = Some (RangeTab (demo_tab 16))" and buf: "buf (demo_tab 16) = 2"
    by (simp_all add: demo_pool_def demo_range_def demo_tab_def)
  from append_crash_atomic [OF nvm.nvm_env_axioms demo_range_ok _ _ tab _ _ run [folded buf]] run show ?thesis
    by (auto simp: demo_range_def demo_tab_def dest: spec [of _ 2])
qed

text \<open>C38: When the snapshot of the data length fails, \<open>Append\<close> throws \<open>transaction_error\<close> with the table
  unchanged, but the new block stays in the volatile block list although it was never committed (the
  list is extended before the transaction is known to succeed and nothing takes the block out again).\<close>

theorem append_failure_leaves_phantom_block:
  assumes "coding64 E" and "heap p a = Some (RangeTab t)" and "heap p (buf t) = Some (Bytes b)"
    and "nonVolatileTab v = a" and "idle p" and "length b < 2 ^ 64" and "8 \<le> length bloom"
    and "unat (dataLen t) + 16 + length data \<le> length b"
    and "begin_rc L p = 0" and "\<forall>q. add_range_rc L q a \<noteq> 0"
  shows "\<exists>w p'. Append L E bloom data s e (v, p) = (Throw Transaction_error, w, p') \<and>
    heap p' a = Some (RangeTab t) \<and> blklist w = blklist v @ [new_block E (dataLen t) data]"
proof -
  obtain b' where poke: "poke b (unat (dataLen t)) (block_bytes E bloom data) = Some b'"
    using assms(8) coding64.block_bytes_length [OF assms(1,7)] by (simp add: poke_def)
  have tab: "heap (open_pool p) a = Some (RangeTab t)" "heap (open_pool p) (buf t) = Some (Bytes b)"
    using assms by simp_all
  let ?q = "(open_pool p)\<lparr>heap := (heap p)(buf t \<mapsto> Bytes b')\<rparr>"
  let ?w = "v\<lparr>blklist := blklist v @ [new_block E (dataLen t) data]\<rparr>"
  have body: "append_body L E bloom data (v, open_pool p) =
      (Throw Transaction_error, ?w, abort_pool (add_range_rc L ?q a) ?q)"
    using coding64.append_body_in_tx [OF assms(1) tab assms(4) _ assms(7) poke assms(6), of L] assms(10) by simp
  have ne: "a \<noteq> buf t" using assms(2,3) by auto
  let ?p' = "end_pool (abort_pool (add_range_rc L ?q a) ?q)"
  have run: "transaction_run L (append_body L E bloom data) (v, p) = (Throw Transaction_error, ?w, ?p')"
    by (simp add: transaction_run_run [where tx = "append_body L E bloom data", OF assms(9) body] close_tx_def
        abort_pool_def)
  have "Append L E bloom data s e (v, p) = (Throw Transaction_error, ?w, ?p')"
    unfolding Append_eq by (simp only: exec_simps vget_run assms(4) tab_get_run [OF assms(2)] if_cancel run)
  moreover have "heap ?p' a = Some (RangeTab t)"
    using assms(2,5) ne by (simp add: abort_pool_def end_pool_def idle_def)
  ultimately show ?thesis by simp
qed

theorem append_failure_leaves_phantom_block_witness:
  "\<exists>w p'. Append exhausted default_rocksdb (replicate 8 1) [7, 8] [1] [2]
      (demo_range, demo_pool (demo_tab 16) (replicate 100 0)) = (Throw Transaction_error, w, p') \<and>
    heap p' 1 = Some (RangeTab (demo_tab 16)) \<and> blklist w = [new_block default_rocksdb 16 [7, 8]]"
  using append_failure_leaves_phantom_block [OF le.coding64_axioms, of "demo_pool (demo_tab 16) (replicate 100 0)" 1
      "demo_tab 16" "replicate 100 0" demo_range "replicate 8 1" "[7, 8]" exhausted "[1]" "[2]"]
  by (simp add: demo_range_def demo_tab_def demo_pool_def exhausted_def healthy_def ENOMEM_def idle_def)

text \<open>C39: Nothing stops \<open>Append\<close> on a full buffer: the test for it has an empty body, so a chunk that
  does not fit behind the data length is copied past the end of the buffer.\<close>

theorem append_overruns_full_buffer:
  assumes "coding64 E" and "heap p a = Some (RangeTab t)" and "heap p (buf t) = Some (Bytes b)"
    and "nonVolatileTab v = a" and "length b < 2 ^ 64" and "begin_rc L p = 0" and "8 \<le> length bloom"
    and "length b < unat (dataLen t) + 16 + length data"
  shows "\<exists>w p'. Append L E bloom data s e (v, p) = (Die Out_of_bounds, w, p')"
  by (rule coding64.append_overflow [OF assms])

theorem append_overruns_full_buffer_witness:
  "\<exists>w p'. Append healthy default_rocksdb (replicate 8 1) [7] [1] [2]
      (demo_range, demo_pool (demo_tab 96) (replicate 100 0)) = (Die Out_of_bounds, w, p')"
  by (rule append_overruns_full_buffer [OF le.coding64_axioms, where a = 1 and t = "demo_tab 96" and b = "replicate 100 0"])
     (simp_all add: demo_range_def demo_tab_def demo_pool_def healthy_def)

text \<open>\<open>CleanUp\<close> sets the data length to 0 but leaves the block list as it is: the rebuild it calls adds
  no block and removes none, so the handle still refers to every block that was cleaned up.\<close>

theorem cleanup_keeps_stale_blocks:
  assumes "heap p (nonVolatileTab v) = Some (RangeTab t)" and "heap p (buf t) = Some (Bytes b)" and "idle p"
  shows "CleanUp L E (v, p) =
    (Val (), v, p\<lparr>heap := (heap p)(nonVolatileTab v \<mapsto> RangeTab (t\<lparr>dataLen := 0\<rparr>))\<rparr>)"
proof -
  have ne: "nonVolatileTab v \<noteq> buf t" using assms(1,2) by auto
  have loop: "rebuild_loop E b 0 16 blks = Some (Val blks)" for blks
    by (simp add: rebuild_loop.simps)
  show ?thesis
    using assms ne
    by (simp add: CleanUp_def RebuildBlkList_def exec_simps vget_run vmod_run tab_set_outside_tx idle_def
        pread_def loop loop_result_def)
qed

theorem cleanup_keeps_stale_blocks_witness:
  "CleanUp healthy default_rocksdb (demo_range\<lparr>blklist := [new_block default_rocksdb 16 [7]]\<rparr>,
      demo_pool (demo_tab 33) (replicate 100 0)) =
    (Val (), demo_range\<lparr>blklist := [new_block default_rocksdb 16 [7]]\<rparr>,
     (demo_pool (demo_tab 33) (replicate 100 0))\<lparr>heap := [1 \<mapsto> RangeTab (demo_tab 0), 2 \<mapsto> Bytes (replicate 100 0)]\<rparr>)"
  using cleanup_keeps_stale_blocks [of "demo_pool (demo_tab 33) (replicate 100 0)"
      "demo_range\<lparr>blklist := [new_block default_rocksdb 16 [7]]\<rparr>" "demo_tab 33" "replicate 100 0" healthy default_rocksdb]
  by (simp add: demo_range_def demo_pool_def demo_tab_def idle_def fun_upd_twist)

text \<open>C14: \<open>Get\<close> returns the newest value: when block \<open>i\<close> holds the key, its bloom filter admits it, and no
  newer block either admits the key or ends its search other than with \<open>NotFound\<close>, the value of block
  \<open>i\<close> is returned, whatever older blocks hold.\<close>

theorem get_returns_newest:
  assumes "key_order E" and "heap p (nonVolatileTab v) = Some (RangeTab t)" and "heap p (buf t) = Some (Bytes b)"
    and "list_all2 (readable E b) (blklist v) kvss" and "i < length (blklist v)"
    and "in_chunk E (kvss ! i) key = Some val" and "may_match E b (blklist v ! i) key"
    and "\<forall>j. i < j \<and> j < length (blklist v) \<longrightarrow>
           \<not> may_match E b (blklist v ! j) key \<or> chunk_answer E (kvss ! j) key = Val NotFound"
  shows "tab_Get E key (v, p) = (Val (OK val), v, p)"
  using key_order.get_loop_newest [OF assms(1,4,6,7,8,5) order.refl] tab_Get_run [OF assms(2,3)] by simp

theorem get_returns_newest_witness:
  "tab_Get default_rocksdb [5] (demo_full, demo_pool (demo_tab 74) demo_buf) =
    (Val (OK [6]), demo_full, demo_pool (demo_tab 74) demo_buf)"
  by (rule get_returns_newest [OF bytewise.key_order_axioms _ _ demo_full_readable, of _ "demo_tab 74" 0])
     (simp_all add: demo_full_def demo_range_def demo_pool_def demo_tab_def in_chunk_def may_match_def)

text \<open>C37: \<open>Get\<close> never reports \<open>NotFound\<close>: for a key that no block holds, the loop condition \<open>i >= 0\<close> on an
  unsigned index never fails, the index wraps and \<open>blklist.at\<close> throws \<open>std::out_of_range\<close>.\<close>

theorem get_absent_throws:
  assumes "key_order E" and "heap p (nonVolatileTab v) = Some (RangeTab t)" and "heap p (buf t) = Some (Bytes b)"
    and "list_all2 (readable E b) (blklist v) kvss"
    and "\<forall>j < length (blklist v). in_chunk E (kvss ! j) key = None"
  shows "tab_Get E key (v, p) = (Throw Out_of_range, v, p)"
  using key_order.get_loop_absent [OF assms(1,4,5) order.refl] tab_Get_run [OF assms(2,3)] by simp

theorem get_absent_throws_witness:
  "tab_Get default_rocksdb [7] (demo_full, demo_pool (demo_tab 74) demo_buf) =
    (Throw Out_of_range, demo_full, demo_pool (demo_tab 74) demo_buf)"
  by (rule get_absent_throws [OF bytewise.key_order_axioms _ _ demo_full_readable, of _ "demo_tab 74"])
     (simp_all add: demo_full_def demo_range_def demo_pool_def demo_tab_def in_chunk_def)

text \<open>The first chunk of a fresh range is lost to a rebuild: the data length of a fresh table is 0, so
  \<open>Append\<close> writes the block at offset 0, over the header, while \<open>RebuildBlkList\<close> starts at offset 16 and
  never yields that block.\<close>

theorem fresh_range_block_not_rebuilt:
  assumes "steady_env L E" and "heap p a = Some (RangeTab t)" and "heap p (buf t) = Some (Bytes b)"
    and "nonVolatileTab v = a" and "idle p" and "finite (dom (heap p))" and "length b < 2 ^ 63"
    and "key_range t = 0" and "8 \<le> length bloom" and "length s + length e + 16 < 2 ^ 64"
    and "dataLen t = 0" and "blklist v = []" and "16 + length data \<le> length b"
  shows "\<exists>w p'. Append L E bloom data s e (v, p) = (Val (), w, p') \<and> blklist w = [new_block E 0 data] \<and>
    (\<forall>u q. RebuildBlkList E (w\<lparr>blklist := []\<rparr>, p') = (Val (), u, q) \<longrightarrow>
       (blklist u \<noteq> [] \<longrightarrow> offset (hd (blklist u)) = 16) \<and> blklist u \<noteq> blklist w)"
proof -
  have "8 \<le> length bloom" by fact
  then obtain b' where poke: "poke b (unat (dataLen t)) (block_bytes E bloom data) = Some b'"
    using assms(11,13) coding64.block_bytes_length [OF steady_env.axioms(2) [OF assms(1)]] by (auto simp: poke_def)
  from steady_env.Append_ok [OF assms(1-10) poke] obtain p' where
    run: "Append L E bloom data s e (v, p) = (Val (), v\<lparr>blklist := [new_block E 0 data]\<rparr>, p')"
    and heap: "heap p' a = Some (RangeTab (t\<lparr>dataLen := dataLen t + 8 + 8 + of_nat (length data)\<rparr>))"
      "heap p' (buf t) = Some (Bytes b')" using assms(11,12) by auto
  have "blklist u \<noteq> [] \<longrightarrow> offset (hd (blklist u)) = 16"
    if "RebuildBlkList E (v\<lparr>blklist := []\<rparr>, p') = (Val (), u, q)" for u q
    using that heap assms(4) rebuild_loop_first [of E b' "8 + 8 + of_nat (length data)" 16 "[]"] assms(11)
    by (auto simp: RebuildBlkList_def exec_simps vget_run vmod_run pread_def loop_result_def
        split: option.splits outcome.splits)
  with run show ?thesis
    by (intro exI [of _ "v\<lparr>blklist := [new_block E 0 data]\<rparr>"] exI [of _ p']) (auto simp: new_block_def)
qed

theorem fresh_range_block_not_rebuilt_witness:
  "\<exists>w p'. Append healthy default_rocksdb (replicate 8 1) [7, 8] [1] [2]
      (demo_range, demo_pool (demo_tab 0) (replicate 100 0)) = (Val (), w, p') \<and>
    (\<forall>u q. RebuildBlkList default_rocksdb (w\<lparr>blklist := []\<rparr>, p') = (Val (), u, q) \<longrightarrow> blklist u \<noteq> blklist w)"
  using fresh_range_block_not_rebuilt [OF nvm.steady_env_axioms, of "demo_pool (demo_tab 0) (replicate 100 0)" 1
      "demo_tab 0" "replicate 100 0" demo_range "replicate 8 1" "[1]" "[2]" "[7, 8]"]
  by (fastforce simp: demo_range_def demo_pool_def demo_tab_def idle_def)

text \<open>What is appended is found: after \<open>Append\<close> of a chunk of sorted pairs (laid out as the chunk iterator
  reads it) to a well-formed range with room, \<open>Get\<close> returns the value that the chunk holds for a key its
  bloom filter admits, whatever older blocks hold.\<close>

theorem append_then_get:
  assumes "steady_env L E" and "key_order E" and "range_ok E v p" and "chunk_bloom_bits E = 8"
    and "8 \<le> length bloom" and "length s + length e + 16 < 2 ^ 64"
    and "heap p (nonVolatileTab v) = Some (RangeTab t)"
    and "length gap = 8 * length kvs \<and> length kvs < 2 ^ 31" and "keys_sorted E kvs"
    and "unat (dataLen t) + 16 + length (chunk_bytes E gap kvs) \<le> unat (bufSize t)"
    and "in_chunk E kvs key = Some val" and "KeyMayMatch E key (take 8 bloom)"
  shows "\<exists>w p'. Append L E bloom (chunk_bytes E gap kvs) s e (v, p) = (Val (), w, p') \<and>
    tab_Get E key (w, p') = (Val (OK val), w, p')"
proof -
  from assms(3,7) obtain b where "idle p" "finite (dom (heap p))" "heap p (buf t) = Some (Bytes b)" "length b < 2 ^ 63"
    "unat (bufSize t) = length b" "key_range t = 0" by (auto simp: range_ok_def)
  with assms steady_env.Append_get [OF assms(1,2,7)] show ?thesis by simp
qed

theorem append_then_get_witness:
  "\<exists>w p'. Append healthy default_rocksdb (replicate 8 1) (chunk_bytes default_rocksdb (replicate 8 0) [([5], [6])]) [1] [2]
      (demo_range, demo_pool (demo_tab 16) (replicate 100 0)) = (Val (), w, p') \<and>
    tab_Get default_rocksdb [5] (w, p') = (Val (OK [6]), w, p')"
  by (rule append_then_get [OF nvm.steady_env_axioms bytewise.key_order_axioms demo_range_ok,
        where t = "demo_tab 16" and kvs = "[([5], [6])]"])
     (simp_all add: demo_range_def demo_pool_def demo_tab_def keys_sorted_def in_chunk_def chunk_bytes_def
       le.offset_table_length pairs_bytes_def encode_pair_def)

text \<open>Reopening a range discards its chunks: \<open>Append\<close> never changes \<open>seq_num_\<close>, so a range that was
  created with sequence number 0 and appended to is still taken for a new one by the constructor, which
  zeroes the header and starts with an empty block list instead of rebuilding it.\<close>

theorem reopen_discards_chunks:
  assumes "steady_env L E" and "range_ok E v p" and "chunk_bloom_bits E = 8" and "8 \<le> length bloom"
    and "length s + length e + 16 < 2 ^ 64" and "heap p (nonVolatileTab v) = Some (RangeTab t)"
    and "unat (dataLen t) + 16 + length data \<le> unat (bufSize t)" and "seq_num t = 0"
  shows "\<exists>w p' u q. Append L E bloom data s e (v, p) = (Val (), w, p') \<and> blklist w \<noteq> [] \<and>
    FixedRangeTab_ctor E (nonVolatileTab v) (w, p') = (Val (), u, q) \<and> blklist u = []"
proof -
  note coding = steady_env.axioms(2) [OF assms(1)]
  from assms(2,6) obtain b where idle: "idle p" and fin: "finite (dom (heap p))"
    and bytes: "heap p (buf t) = Some (Bytes b)" and small: "length b < 2 ^ 63"
    and cap: "unat (bufSize t) = length b" and kr: "key_range t = 0" by (auto simp: range_ok_def)
  obtain b' where poke: "poke b (unat (dataLen t)) (block_bytes E bloom data) = Some b'"
    using assms(7) cap coding64.block_bytes_length [OF coding assms(4)] by (simp add: poke_def)
  let ?t = "t\<lparr>dataLen := dataLen t + 8 + 8 + of_nat (length data)\<rparr>"
  from steady_env.Append_ok [OF assms(1,6) bytes refl idle fin small kr assms(4,5) poke] obtain p' where
    run: "Append L E bloom data s e (v, p) = (Val (), v\<lparr>blklist := blklist v @ [new_block E (dataLen t) data]\<rparr>, p')"
    and heap: "heap p' (nonVolatileTab v) = Some (RangeTab ?t)" "heap p' (buf t) = Some (Bytes b')" by auto
  have "16 \<le> length b'" using poke_length [OF poke] assms(7) cap by simp
  then obtain b1 b2 where "poke b' 0 (EncodeFixed64 E 0) = Some b1" "poke b1 8 (EncodeFixed64 E 0) = Some b2"
    by (simp add: poke_def coding64.encode_length [OF coding])
  then have "\<exists>u q. FixedRangeTab_ctor E (nonVolatileTab v) (v\<lparr>blklist := blks\<rparr>, p') = (Val (), u, q) \<and> blklist u = []"
    for blks
    using heap assms(8)
    by (simp add: FixedRangeTab_ctor_def exec_simps vmod_run pread_def memcpy_to_run)
  with run show ?thesis by fastforce
qed

theorem reopen_discards_chunks_witness:
  "\<exists>w p' u q. Append healthy default_rocksdb (replicate 8 1) [7, 8] [1] [2]
      (demo_range, demo_pool (demo_tab 16) (replicate 100 0)) = (Val (), w, p') \<and> blklist w \<noteq> [] \<and>
    FixedRangeTab_ctor default_rocksdb (nonVolatileTab demo_range) (w, p') = (Val (), u, q) \<and> blklist u = []"
  by (rule reopen_discards_chunks [OF nvm.steady_env_axioms demo_range_ok, where t = "demo_tab 16"])
     (simp_all add: demo_range_def demo_pool_def demo_tab_def)

text \<open>\<open>CheckAndUpdateKeyRange\<close> never updates the key range: the widened range is written into a fresh
  buffer that is not assigned to \<open>key_range_\<close>. The table is unchanged, \<open>GetRealRange\<close> still returns two
  empty slices, and the buffer stays allocated with nothing referring to it.\<close>

theorem key_range_update_is_lost:
  assumes "steady_env L E" and "heap p a = Some (RangeTab t)" and "key_range t = 0" and "idle p"
    and "finite (dom (heap p))" and "length s + length e + 16 < 2 ^ 64" and "Compare E [] e < 0"
  shows "\<exists>p' kr st. CheckAndUpdateKeyRange L E a s e (v, p) = (Val (), v, p') \<and>
    heap p kr = None \<and> heap p' = (heap p)(kr \<mapsto> Bytes (range_bytes E st e)) \<and>
    GetRealRange E a (v, p') = (Val ([], []), v, p')"
proof -
  let ?s = "if Compare E [] s > 0 then s else []"
  have small: "length ?s + length e + 16 < 2 ^ 64" using assms(6) by auto
  have g: "GetRealRange E a (v, p) = (Val ([], []), v, p)"
    using assms(2,3) by (simp add: GetRealRange_def run_simps)
  from steady_env.range_tx_ok [OF assms(1,4,5) small, of v] obtain p' kr where
    tx: "transaction_run L (bindC (make_persistent_array L (length ?s + length e + 16)
        (Bytes (replicate (length ?s + length e + 16) 0))) (\<lambda>kr. write_range E kr ?s e)) (v, p) = (Val (), v, p')"
    and p': "heap p kr = None" "heap p' = (heap p)(kr \<mapsto> Bytes (range_bytes E ?s e))" by blast
  have "CheckAndUpdateKeyRange L E a s e (v, p) = (Val (), v, p')"
    using tx assms(7) unfolding CheckAndUpdateKeyRange_def bindC_exec g Let_def
    by (cases "Compare E [] s > 0") simp_all
  moreover have "heap p' a = Some (RangeTab t)" using p' assms(2) by auto
  then have "GetRealRange E a (v, p') = (Val ([], []), v, p')"
    using assms(3) by (simp add: GetRealRange_def run_simps)
  ultimately show ?thesis using p' by blast
qed

theorem key_range_update_is_lost_witness:
  "\<exists>p' kr st. CheckAndUpdateKeyRange healthy default_rocksdb 1 [1] [2] (demo_range, demo_pool (demo_tab 16) []) =
      (Val (), demo_range, p') \<and>
    heap (demo_pool (demo_tab 16) []) kr = None \<and>
    heap p' = (heap (demo_pool (demo_tab 16) []))(kr \<mapsto> Bytes (range_bytes default_rocksdb st [2])) \<and>
    GetRealRange default_rocksdb 1 (demo_range, p') = (Val ([], []), demo_range, p')"
  by (rule key_range_update_is_lost [OF nvm.steady_env_axioms, where t = "demo_tab 16"])
     (simp_all add: demo_pool_def demo_tab_def idle_def)

text \<open>The key range that \<open>freqUpdateInfo::update\<close> stores is the one \<open>GetRealRange\<close> reads back, and the
  update counts one chunk and one sequence number.\<close>

theorem key_range_roundtrip:
  assumes "steady_env L E" and "heap p a = Some (RangeTab t)" and "idle p" and "finite (dom (heap p))"
    and "length s + length e + 16 < 2 ^ 64"
  shows "\<exists>p' kr. freqUpdateInfo_update L E a s e (v, p) = (Val (), v, p') \<and> idle p' \<and>
    heap p' a = Some (RangeTab (t\<lparr>key_range := kr, chunk_num := chunk_num t + 1, seq_num := seq_num t + 1\<rparr>)) \<and>
    GetRealRange E a (v, p') = (Val (s, e), v, p')"
proof -
  from steady_env.freq_tx_ok [OF assms, of v] obtain p' kr where
    run: "freqUpdateInfo_update L E a s e (v, p) = (Val (), v, p')" and p': "idle p'" "kr \<noteq> 0" "a \<noteq> kr"
    "heap p' = (heap p)(kr \<mapsto> Bytes (range_bytes E s e), a \<mapsto> RangeTab (t\<lparr>key_range := kr,
       chunk_num := chunk_num t + 1, seq_num := seq_num t + 1\<rparr>))" by blast
  note coding = steady_env.axioms(2) [OF assms(1)]
  have "length (range_bytes E s e) < 2 ^ 64" using assms(5) by (simp add: coding64.range_bytes_length [OF coding])
  then have "GetRealRange E a (v, p') = (Val (s, e), v, p')"
    using p' coding64.GetKVData_range_bytes [OF coding]
    by (simp add: GetRealRange_def exec_simps pread_def)
  with run p' show ?thesis by fastforce
qed

theorem key_range_roundtrip_witness:
  "\<exists>p' kr. freqUpdateInfo_update healthy default_rocksdb 1 [1, 2] [3] ((), demo_pool (demo_tab 16) []) = (Val (), (), p') \<and>
    idle p' \<and> heap p' 1 = Some (RangeTab ((demo_tab 16)\<lparr>key_range := kr, chunk_num := 1, seq_num := 1\<rparr>)) \<and>
    GetRealRange default_rocksdb 1 ((), p') = (Val ([1, 2], [3]), (), p')"
  using key_range_roundtrip [OF nvm.steady_env_axioms, of "demo_pool (demo_tab 16) []" 1 "demo_tab 16" "[1, 2]" "[3]" "()"]
  by (simp add: demo_pool_def demo_tab_def idle_def)

text \<open>The constructor of a range table, run on a healthy pool, leaves an empty table: the stored prefix,
  a zeroed buffer of the requested capacity, no key range, no extra buffer and all counters 0; and the
  \<open>hashCode()\<close> that recomputes the hash from the stored prefix reads one byte past the end of it.\<close>

theorem new_range_table:
  assumes "steady_env L E" and "heap p a = Some (RangeTab t)" and "idle p" and "finite (dom (heap p))"
    and "length pre < 2 ^ 63"
  shows "\<exists>p' pa ba. NvRangeTab_ctor L E pre n a (v, p) = (Val (), v, p') \<and>
    heap p' a = Some (RangeTab \<lparr>hash = nv_hashCode E pre, prefixLen = of_nat (length pre), prefix = pa,
      key_range = 0, chunk_num = 0, seq_num = 0, bufSize = n, buf = ba, dataLen = 0, extra_buf = 0, next = next t\<rparr>) \<and>
    heap p' pa = Some (Bytes pre) \<and> heap p' ba = Some (Bytes (replicate (unat n) 0)) \<and>
    tab_hashCode E a (v, p') = (Die Out_of_bounds, v, p')"
proof -
  from steady_env.NvRangeTab_ctor_ok [OF assms(1-4), of pre n v] obtain p' pa ba where
    run: "NvRangeTab_ctor L E pre n a (v, p) = (Val (), v, p')" and heap: "heap p' a = Some (RangeTab
      \<lparr>hash = nv_hashCode E pre, prefixLen = of_nat (length pre), prefix = pa, key_range = 0, chunk_num = 0,
       seq_num = 0, bufSize = n, buf = ba, dataLen = 0, extra_buf = 0, next = next t\<rparr>)"
      "heap p' pa = Some (Bytes pre)" "heap p' ba = Some (Bytes (replicate (unat n) 0))" by blast
  have "unat (of_nat (Suc (length pre)) :: u64) = Suc (length pre)"
    using assms(5) by (intro unat_of_nat_u64) simp
  then have "unat (of_nat (length pre) + 1 :: u64) = Suc (length pre)"
    by (simp add: add.commute)
  then have "tab_hashCode E a (v, p') = (Die Out_of_bounds, v, p')"
    using heap by (simp add: tab_hashCode_def exec_simps pread_def read_n_def peek_def)
  with run heap show ?thesis by blast
qed

theorem new_range_table_witness:
  "\<exists>p' pa ba. NvRangeTab_ctor healthy default_rocksdb [1, 2] 32 1 ((), demo_pool (demo_tab 5) []) = (Val (), (), p') \<and>
    heap p' 1 = Some (RangeTab \<lparr>hash = nv_hashCode default_rocksdb [1, 2], prefixLen = of_nat (length [1, 2 :: byte]), prefix = pa,
      key_range = 0, chunk_num = 0, seq_num = 0, bufSize = 32, buf = ba, dataLen = 0, extra_buf = 0,
      next = next (demo_tab 5)\<rparr>) \<and>
    heap p' pa = Some (Bytes [1, 2]) \<and> heap p' ba = Some (Bytes (replicate (unat (32 :: u64)) 0)) \<and>
    tab_hashCode default_rocksdb 1 ((), p') = (Die Out_of_bounds, (), p')"
  by (rule new_range_table [OF nvm.steady_env_axioms]) (simp_all add: demo_pool_def idle_def)

end
