(* ===== verification/Pmem_Hash_Map.thy ===== *)
theory Pmem_Hash_Map
  imports Range_Tab "HOL-Library.Multiset"
begin

text \<open>
  The persistent hash map \<open>pmem_hash_map<T>\<close> of \<open>src/pmem_hash_map.h\<close>: a table of buckets, each a linked
  list of nodes that refer to contents of type \<open>T\<close>. The template parameter enters only through
  \<open>hashCode()\<close>, which is an argument of \<open>put\<close>. The lemmas relate the heap to the list of buckets it
  represents, and the locale \<open>content_store\<close> states what a user of the map relies on.
\<close>

section \<open>Single-precision numbers\<close>

text \<open>
  \<open>(m, e)\<close> is \<open>m / 2 ^ e\<close>. A product or a converted integer is rounded to 24 significant bits, to
  nearest, ties to even. A conversion to \<open>uint32_t\<close> truncates; a value that does not fit is undefined
  in C++ and a fault here.
\<close>

fun bit_length :: "nat \<Rightarrow> nat" where
  "bit_length n = (if n = 0 then 0 else Suc (bit_length (n div 2)))"

declare bit_length.simps [simp del]

definition round_even :: "nat \<Rightarrow> nat \<Rightarrow> nat" where
  "round_even k m =
     (let q = m div 2 ^ k; r = m mod 2 ^ k in
      if 2 * r < 2 ^ k \<or> (2 * r = 2 ^ k \<and> even q) then q else q + 1)"

definition round24 :: "nat \<Rightarrow> nat" where
  "round24 m = (let k = bit_length m - 24 in if k = 0 then m else round_even k m * 2 ^ k)"

definition f32_of_u32 :: "u32 \<Rightarrow> float32" where
  "f32_of_u32 n = (round24 (unat n), 0)"

definition f32_mult :: "float32 \<Rightarrow> float32 \<Rightarrow> float32" where
  "f32_mult x y = (round24 (fst x * fst y), snd x + snd y)"

definition u32_of_f32 :: "float32 \<Rightarrow> u32 outcome" where
  "u32_of_f32 x =
     (let n = fst x div 2 ^ snd x in if n < 2 ^ 32 then Val (of_nat n) else Die Contract_broken)"

section \<open>Access to the map and its buckets\<close>

abbreviation map_get :: "nat \<Rightarrow> (pmem_hash_map \<Rightarrow> 'f) \<Rightarrow> ('v, 'f) prog" where
  "map_get a f \<equiv> pread a (get_map f)"

abbreviation map_set ::
  "pobj libpmemobj \<Rightarrow> nat \<Rightarrow> (pmem_hash_map \<Rightarrow> 'f) \<Rightarrow> (('f \<Rightarrow> 'f) \<Rightarrow> pmem_hash_map \<Rightarrow> pmem_hash_map) \<Rightarrow> 'f \<Rightarrow> ('v, unit) prog" where
  "map_set L a f u x \<equiv> p_assign L a (get_map f) (set_map u) x"

abbreviation node_set ::
  "pobj libpmemobj \<Rightarrow> nat \<Rightarrow> (Node2 \<Rightarrow> 'f) \<Rightarrow> (('f \<Rightarrow> 'f) \<Rightarrow> Node2 \<Rightarrow> Node2) \<Rightarrow> 'f \<Rightarrow> ('v, unit) prog" where
  "node_set L a f u x \<equiv> p_assign L a (get_node f) (set_node u) x"

fun get_array :: "pobj \<Rightarrow> nat list option" where
  "get_array (NodeArray xs) = Some xs"
| "get_array _ = None"

text \<open>\<open>tab_[i]\<close>, read and assigned.\<close>

definition slot_at :: "(nat \<rightharpoonup> pobj) \<Rightarrow> nat \<Rightarrow> nat \<Rightarrow> nat outcome" where
  "slot_at h ta i =
     (case Option.bind (h ta) get_array of
        None \<Rightarrow> Die Null_deref
      | Some xs \<Rightarrow> if i < length xs then Val (xs ! i) else Die Out_of_bounds)"

definition with_heap :: "((nat \<rightharpoonup> pobj) \<Rightarrow> 'a outcome) \<Rightarrow> ('v, 'a) prog" where
  "with_heap f = (\<lambda>(v, p). (f (heap p), v, p))"

definition slot_get :: "nat \<Rightarrow> u64 \<Rightarrow> ('v, nat) prog" where
  "slot_get ta i = with_heap (\<lambda>h. slot_at h ta (unat i))"

definition slot_set :: "pobj libpmemobj \<Rightarrow> nat \<Rightarrow> u64 \<Rightarrow> nat \<Rightarrow> ('v, unit) prog" where
  "slot_set L ta i x =
     thenC (slot_get ta i) (p_assign L ta (get_slot (unat i)) (set_slot (unat i)) x)"

definition mod_u64 :: "u64 \<Rightarrow> u64 \<Rightarrow> ('v, u64) prog" where
  "mod_u64 x y = (if y = 0 then dieC Div_by_zero else returnC (x mod y))"

section \<open>Operations\<close>

text \<open>
  \<open>init\<close>; the constructor has the same body. \<open>tabLen_\<close> is a \<open>p<uint32_t>\<close>, so the 64-bit argument is
  truncated when it is stored, while the array is allocated with the full argument.
\<close>

definition hash_map_init :: "pobj libpmemobj \<Rightarrow> float32 \<Rightarrow> u64 \<Rightarrow> nat \<Rightarrow> ('v, unit) prog" where
  "hash_map_init L lf n a =
     transaction_run L
       (thenC (map_set L a tabLen tabLen_update (ucast n))
       (bindC (make_persistent_array L (16 * unat n) (NodeArray (replicate (unat n) 0))) (\<lambda>ta.
        thenC (map_set L a tab tab_update ta)
        (thenC (map_set L a loadFactor loadFactor_update lf)
        (bindC (map_get a tabLen) (\<lambda>l.
         bindC (map_get a loadFactor) (\<lambda>f.
         bindC (liftO (u32_of_f32 (f32_mult (f32_of_u32 l) f))) (\<lambda>th.
         thenC (map_set L a threshold threshold_update th)
           (map_set L a map_size map_size_update 0)))))))))"

definition pmem_hash_map_ctor :: "pobj libpmemobj \<Rightarrow> float32 \<Rightarrow> u64 \<Rightarrow> nat \<Rightarrow> ('v, unit) prog" where
  "pmem_hash_map_ctor L lf n a =
     transaction_run L
       (thenC (map_set L a tabLen tabLen_update (ucast n))
       (bindC (make_persistent_array L (16 * unat n) (NodeArray (replicate (unat n) 0))) (\<lambda>ta.
        thenC (map_set L a tab tab_update ta)
        (thenC (map_set L a loadFactor loadFactor_update lf)
        (bindC (map_get a tabLen) (\<lambda>l.
         bindC (map_get a loadFactor) (\<lambda>f.
         bindC (liftO (u32_of_f32 (f32_mult (f32_of_u32 l) f))) (\<lambda>th.
         thenC (map_set L a threshold threshold_update th)
           (map_set L a map_size map_size_update 0)))))))))"

text \<open>The inner loop of \<open>getAll\<close> over one bucket; \<open>None\<close> when the list of nodes never ends.\<close>

partial_function (option) walk :: "(nat \<rightharpoonup> pobj) \<Rightarrow> nat \<Rightarrow> nat list \<Rightarrow> nat list outcome option" where
  "walk h a acc =
     (if a = 0 then Some (Val acc)
      else case Option.bind (h a) (get_node (\<lambda>n. n)) of
        None \<Rightarrow> Some (Die Null_deref)
      | Some n \<Rightarrow> walk h (node_next n) (acc @ [p_content n]))"

text \<open>The outer loop: bucket \<open>i\<close>, with \<open>n\<close> buckets to go.\<close>

fun getAll_loop :: "(nat \<rightharpoonup> pobj) \<Rightarrow> nat \<Rightarrow> nat \<Rightarrow> nat \<Rightarrow> nat list \<Rightarrow> nat list outcome" where
  "getAll_loop h ta i 0 acc = Val acc"
| "getAll_loop h ta i (Suc n) acc =
     bindO (slot_at h ta i) (\<lambda>a.
     bindO (loop_result (walk h a acc)) (\<lambda>acc'. getAll_loop h ta (Suc i) n acc'))"

definition getAll :: "nat \<Rightarrow> nat list \<Rightarrow> ('v, nat list) prog" where
  "getAll a contentVec =
     bindC (map_get a tabLen) (\<lambda>l.
     bindC (map_get a tab) (\<lambda>ta.
       with_heap (\<lambda>h. getAll_loop h ta 0 (unat l) contentVec)))"

text \<open>
  \<open>put\<close>: the index is computed twice from the stored table length, the old head of the bucket is read
  before the transaction, and the new node becomes the head. The size is not counted.
\<close>

definition map_put :: "pobj libpmemobj \<Rightarrow> (nat \<Rightarrow> ('v, u64) prog) \<Rightarrow> nat \<Rightarrow> nat \<Rightarrow> ('v, unit) prog" where
  "map_put L hashCode a c =
     bindC (hashCode c) (\<lambda>hash0.
     bindC (map_get a tabLen) (\<lambda>l.
     bindC (mod_u64 hash0 (ucast l)) (\<lambda>hash.
     bindC (map_get a tab) (\<lambda>ta.
     bindC (mod_u64 hash (ucast l)) (\<lambda>i.
     bindC (slot_get ta i) (\<lambda>bucketHeadNode.
     transaction_run L
       (bindC (make_persistent L 32 (Node \<lparr>node_next = 0, p_content = 0\<rparr>) (\<lambda>_. returnC ())) (\<lambda>newhead.
        thenC (node_set L newhead p_content p_content_update c)
        (thenC (node_set L newhead node_next node_next_update bucketHeadNode)
        (bindC (map_get a tabLen) (\<lambda>l'.
         bindC (mod_u64 hash (ucast l')) (\<lambda>j.
         bindC (map_get a tab) (\<lambda>ta'. slot_set L ta' j newhead)))))))))))))"

section \<open>What the heap represents\<close>

text \<open>\<open>chain h a cs\<close>: the linked list of nodes from \<open>a\<close> ends and its contents are \<open>cs\<close>.\<close>

inductive chain :: "(nat \<rightharpoonup> pobj) \<Rightarrow> nat \<Rightarrow> nat list \<Rightarrow> bool" for h where
  chain_Nil: "chain h 0 []"
| chain_Cons: "a \<noteq> 0 \<Longrightarrow> h a = Some (Node n) \<Longrightarrow> chain h (node_next n) cs \<Longrightarrow> chain h a (p_content n # cs)"

inductive_cases chain_NilE: "chain h a []"
inductive_cases chain_ConsE: "chain h a (c # cs)"

definition is_map :: "nat \<Rightarrow> pmem \<Rightarrow> nat list list \<Rightarrow> bool" where
  "is_map a p css \<longleftrightarrow> idle p \<and> finite (dom (heap p)) \<and>
     (\<exists>m xs. heap p a = Some (HashMap m) \<and> heap p (tab m) = Some (NodeArray xs) \<and>
        length xs = unat (tabLen m) \<and> list_all2 (chain (heap p)) xs css)"

lemma walk_chain: "chain h a cs \<Longrightarrow> walk h a acc = Some (Val (acc @ cs))"
proof (induction arbitrary: acc rule: chain.induct)
  case chain_Nil
  then show ?case by (simp add: walk.simps)
next
  case (chain_Cons a n cs)
  then show ?case by (subst walk.simps) simp
qed

lemma chain_cong:
  assumes "chain h a cs" and "\<And>x n. h x = Some (Node n) \<Longrightarrow> h' x = Some (Node n)"
  shows "chain h' a cs"
  using assms by (induction rule: chain.induct) (auto intro: chain.intros)

lemma getAll_loop_chains:
  assumes "h ta = Some (NodeArray xs)" and "list_all2 (chain h) (drop i xs) css"
  shows "getAll_loop h ta i (length css) acc = Val (acc @ concat css)"
  using assms(2)
proof (induction css arbitrary: i acc rule: list.induct)
  case (Cons cs css)
  then have i: "i < length xs" by (auto dest: list_all2_lengthD)
  then have "drop i xs = xs ! i # drop (Suc i) xs" by (simp add: Cons_nth_drop_Suc)
  with Cons.prems have c: "chain h (xs ! i) cs" and r: "list_all2 (chain h) (drop (Suc i) xs) css" by simp_all
  show ?case
    using i Cons.IH [OF r] by (simp add: slot_at_def assms(1) walk_chain [OF c] loop_result_def)
qed simp

lemma getAll_is_map:
  assumes "is_map a p css"
  shows "getAll a vec (v, p) = (Val (vec @ concat css), v, p)"
proof -
  from assms obtain m xs where m: "heap p a = Some (HashMap m)" "heap p (tab m) = Some (NodeArray xs)"
    and "length xs = unat (tabLen m)" and css: "list_all2 (chain (heap p)) xs css" by (auto simp: is_map_def)
  with getAll_loop_chains [of "heap p" "tab m" xs 0 css vec] list_all2_lengthD [OF css] show ?thesis
    by (simp add: getAll_def exec_simps pread_def with_heap_def)
qed

section \<open>put and init on a healthy pool\<close>

context steady_env
begin

lemma map_get_open:
  "h a = Some (HashMap m) \<Longrightarrow> map_get a f (v, (open_pool p)\<lparr>heap := h, undo_log := us\<rparr>) =
     (Val (f m), v, (open_pool p)\<lparr>heap := h, undo_log := us\<rparr>)"
  by (simp add: pread_def)

lemma p_assign_open:
  assumes "h a = Some ob" and "g ob = Some y"
  shows "p_assign L a g s x (v, (open_pool p)\<lparr>heap := h, undo_log := us\<rparr>) =
    (Val (), v, (open_pool p)\<lparr>heap := h(a \<mapsto> s x ob), undo_log := Snapshot a (s y) # us\<rparr>)"
  by (subst p_assign_in_tx [where ob = ob and old = y]) (use assms add_ok in simp_all)

lemma make_node_open:
  fixes p :: pmem and h :: "nat \<rightharpoonup> pobj" and n :: nat and ob :: pobj and v :: 'v
  defines "q \<equiv> \<lambda>h us. (open_pool p)\<lparr>heap := h, undo_log := us\<rparr>"
  assumes "finite (dom h)"
  obtains c where "make_persistent L n ob (\<lambda>_. returnC ()) (v, q h us) = (Val c, v, q (h(c \<mapsto> ob)) (Allocated c # us))"
    and "c \<noteq> 0" and "h c = None"
proof
  let ?c = "alloc_off L (q h us) n"
  show c: "?c \<noteq> 0" using alloc_ok [of "q h us" n] assms by simp
  then show "h ?c = None" using alloc_fresh [OF c] by (simp add: q_def)
  show "make_persistent L n ob (\<lambda>_. returnC ()) (v, q h us) = (Val ?c, v, q (h(?c \<mapsto> ob)) (Allocated ?c # us))"
    using c by (simp add: exec_simps make_persistent_def pmemobj_tx_stage_def pmemobj_tx_alloc_def Let_def q_def tryC_def)
qed

lemma map_put_ok:
  assumes rep: "is_map a p css" and pos: "css \<noteq> []" and hash: "hashCode c (v, p) = (Val hc, v, p)"
  defines "i \<equiv> unat hc mod length css"
  shows "\<exists>p'. map_put L hashCode a c (v, p) = (Val (), v, p') \<and> is_map a p' (css[i := c # css ! i]) \<and>
    (\<forall>x. heap p x \<noteq> None \<longrightarrow> get_array (the (heap p x)) = None \<longrightarrow> heap p' x = heap p x)"
proof -
  from rep obtain m xs where idle: "idle p" and fin: "finite (dom (heap p))"
    and m: "heap p a = Some (HashMap m)" and xs: "heap p (tab m) = Some (NodeArray xs)"
    and len: "length xs = unat (tabLen m)" and css: "list_all2 (chain (heap p)) xs css" by (auto simp: is_map_def)
  let ?l = "ucast (tabLen m) :: u64" and ?q = "\<lambda>h us. (open_pool p)\<lparr>heap := h, undo_log := us\<rparr>"
  let ?w = "hc mod ?l"
  have l: "unat ?l = length css" using len list_all2_lengthD [OF css] by (simp add: unat_ucast_u64)
  then have l0: "?l \<noteq> 0" using pos by (metis length_0_conv unat_0)
  have w: "unat ?w = i" by (simp add: unat_mod l i_def)
  have ww: "?w mod ?l = ?w" by (simp add: word_unat_eq_iff unat_mod)
  have "length xs = length css" "0 < length css" using list_all2_lengthD [OF css] pos by simp_all
  then have i: "i < length xs" by (simp add: i_def)
  obtain nh where mk: "make_persistent L 32 (Node \<lparr>node_next = 0, p_content = 0\<rparr>) (\<lambda>_. returnC ()) (v, ?q (heap p) []) =
      (Val nh, v, ?q ((heap p)(nh \<mapsto> Node \<lparr>node_next = 0, p_content = 0\<rparr>)) [Allocated nh])"
    and nh: "nh \<noteq> 0" "heap p nh = None" by (rule make_node_open [OF fin])
  let ?h = "\<lambda>nd. (heap p)(nh \<mapsto> Node nd)"
  have ne: "a \<noteq> nh" "tab m \<noteq> nh" "a \<noteq> tab m" using nh m xs by auto
  let ?nd = "\<lparr>node_next = xs ! i, p_content = c\<rparr>"
  have at: "?h nd nh = Some (Node nd)" "get_node f (Node nd) = Some (f nd)" for nd and f :: "Node2 \<Rightarrow> nat" by simp_all
  note sets = p_assign_open [where h = "?h nd" and a = nh and g = "get_node f" for nd and f :: "Node2 \<Rightarrow> nat", OF at]
  have gets: "map_get a f (v, ?q (?h nd) us) = (Val (f m), v, ?q (?h nd) us)" for f :: "pmem_hash_map \<Rightarrow> 'f" and nd us
    using m ne by (intro map_get_open) simp
  have slot: "slot_set L (tab m) ?w nh (v, ?q (?h ?nd) us) =
      (Val (), v, ?q ((?h ?nd)(tab m \<mapsto> NodeArray (xs[i := nh]))) (Snapshot (tab m) (set_slot i (xs ! i)) # us))" for us
  proof -
    have g: "slot_get (tab m) ?w (v, ?q (?h ?nd) us) = (Val (xs ! i), v, ?q (?h ?nd) us)"
      using xs ne i w by (simp add: slot_get_def with_heap_def slot_at_def)
    show ?thesis
      unfolding slot_set_def thenC_exec g prod.case outcome.case w
      by (subst p_assign_open [where ob = "NodeArray xs" and y = "xs ! i"]) (use xs ne i in simp_all)
  qed
  have mods: "mod_u64 hc ?l s = (Val ?w, s)" "mod_u64 ?w ?l s = (Val ?w, s)" for s :: "'a \<times> pmem"
    using l0 ww by (simp_all add: mod_u64_def returnC_def)
  let ?h' = "(?h ?nd)(tab m \<mapsto> NodeArray (xs[i := nh]))"
  let ?tx = "bindC (make_persistent L 32 (Node \<lparr>node_next = 0, p_content = 0\<rparr>) (\<lambda>_. returnC ())) (\<lambda>newhead.
        thenC (node_set L newhead p_content p_content_update c)
        (thenC (node_set L newhead node_next node_next_update (xs ! i))
        (bindC (map_get a tabLen) (\<lambda>l'.
         bindC (mod_u64 ?w (ucast l')) (\<lambda>j.
         bindC (map_get a tab) (\<lambda>ta'. slot_set L ta' j newhead))))))"
  have "\<exists>p'. transaction_run L ?tx (v, p) = (Val (), v, p') \<and> idle p' \<and> heap p' = ?h'"
    by (rule run_open [OF idle])
       (simp only: exec_simps mk sets set_node.simps fun_upd_upd gets mods slot Node2.update_convs)
  then obtain p' where p': "transaction_run L ?tx (v, p) = (Val (), v, p')" "idle p'" "heap p' = ?h'" by blast
  have g: "map_get a f (v, p) = (Val (f m), v, p)" for f :: "pmem_hash_map \<Rightarrow> 'f"
    using m by (simp add: pread_def)
  have sg: "slot_get (tab m) ?w (v, p) = (Val (xs ! i), v, p)"
    using xs i w by (simp add: slot_get_def with_heap_def slot_at_def)
  have run: "map_put L hashCode a c (v, p) = (Val (), v, p')"
    unfolding map_put_def by (simp only: exec_simps hash g mods sg p'(1))
  have keep: "?h' x = Some (Node n)" if "heap p x = Some (Node n)" for x n
    using that nh xs by auto
  have chains: "list_all2 (chain ?h') (xs[i := nh]) (css[i := c # css ! i])"
  proof (rule list_all2_update_cong)
    show "list_all2 (chain ?h') xs css"
      using css by (rule list_all2_mono) (rule chain_cong [OF _ keep])
    have "chain (heap p) (xs ! i) (css ! i)" using css i by (simp add: list_all2_conv_all_nth)
    then have "chain ?h' (xs ! i) (css ! i)" by (rule chain_cong) (rule keep)
    with chain_Cons [of nh ?h' ?nd "css ! i"] nh ne show "chain ?h' nh (c # css ! i)" by simp
  qed
  then have "is_map a p' (css[i := c # css ! i])"
    using p' fin m ne len by (auto simp: is_map_def)
  moreover have "heap p' x = heap p x" if "heap p x \<noteq> None" "get_array (the (heap p x)) = None" for x
    using that p'(3) nh xs by auto
  ultimately show ?thesis using run by blast
qed

end

lemma bit_length_le: "m < 2 ^ k \<Longrightarrow> bit_length m \<le> k"
proof (induction k arbitrary: m)
  case (Suc k)
  then have "m div 2 < 2 ^ k" by simp
  from Suc.IH [OF this] show ?case by (simp add: bit_length.simps [of m])
qed (simp add: bit_length.simps)

lemma round24_exact: "m < 2 ^ 24 \<Longrightarrow> round24 m = m"
  using bit_length_le [of m 24] by (simp add: round24_def)

text \<open>For tables below \<open>2 ^ 22\<close> buckets the threshold at load factor 0.75 is exact.\<close>

lemma threshold_exact:
  assumes "unat (n :: u32) < 2 ^ 22"
  shows "u32_of_f32 (f32_mult (f32_of_u32 n) (3, 2)) = Val (of_nat (unat n * 3 div 4))"
proof -
  have "unat n * 3 < 2 ^ 24" and "unat n < 2 ^ 24" using assms by simp_all
  moreover from this have "unat n * 3 div 4 < 2 ^ 32" by simp
  ultimately show ?thesis
    by (simp add: f32_of_u32_def f32_mult_def u32_of_f32_def round24_exact Let_def)
qed

context steady_env
begin

lemma hash_map_init_ok:
  assumes m: "heap p a = Some (HashMap m)" and idle: "idle p" and fin: "finite (dom (heap p))"
    and th: "u32_of_f32 (f32_mult (f32_of_u32 (ucast n)) lf) = Val th"
  shows "\<exists>p' ta. hash_map_init L lf n a (v, p) = (Val (), v, p') \<and> idle p' \<and> finite (dom (heap p')) \<and>
    heap p' a = Some (HashMap \<lparr>tabLen = ucast n, tab = ta, loadFactor = lf, threshold = th, map_size = 0\<rparr>) \<and>
    heap p' ta = Some (NodeArray (replicate (unat n) 0))"
proof -
  let ?q = "\<lambda>h us. (open_pool p)\<lparr>heap := h, undo_log := us\<rparr>"
  let ?m1 = "m\<lparr>tabLen := ucast n\<rparr>" and ?ar = "NodeArray (replicate (unat n) 0)"
  let ?h1 = "(heap p)(a \<mapsto> HashMap ?m1)"
  have at0: "get_map f (HashMap k) = Some (f k)" for f :: "pmem_hash_map \<Rightarrow> 'f" and k by simp
  note set1 = p_assign_open [where h = "heap p" and a = a and g = "get_map tabLen" and s = "set_map tabLen_update"
      and x = "ucast n", OF m at0]
  have "finite (dom ?h1)" using fin by simp
  then obtain ta where mk: "make_persistent_array L (16 * unat n) ?ar (v, ?q ?h1 [Snapshot a (set_map tabLen_update (tabLen m))]) =
      (Val ta, v, ?q (?h1(ta \<mapsto> ?ar)) [Allocated ta, Snapshot a (set_map tabLen_update (tabLen m))])"
    and ta: "?h1 ta = None" by (rule make_array_open)
  have ne: "a \<noteq> ta" using ta by auto
  let ?h2 = "\<lambda>k. (heap p)(ta \<mapsto> ?ar, a \<mapsto> HashMap k)"
  have h2: "?h1(ta \<mapsto> ?ar) = ?h2 ?m1" using ne by (simp add: fun_upd_twist)
  have at: "?h2 k a = Some (HashMap k)" for k by simp
  note s2 = p_assign_open [where h = "?h2 k" and a = a and g = "get_map f" for k and f :: "pmem_hash_map \<Rightarrow> 'f", OF at at0]
    map_get_open [where h = "?h2 k" and a = a for k, OF at]
  have sel: "tabLen (?m1\<lparr>tab := ta, loadFactor := lf\<rparr>) = ucast n" "loadFactor (?m1\<lparr>tab := ta, loadFactor := lf\<rparr>) = lf"
    by simp_all
  have "\<exists>p'. hash_map_init L lf n a (v, p) = (Val (), v, p') \<and> idle p' \<and>
      heap p' = ?h2 (?m1\<lparr>tab := ta, loadFactor := lf, threshold := th, map_size := 0\<rparr>)"
    unfolding hash_map_init_def
    by (rule run_open [OF idle])
       (simp only: exec_simps set1 set_map.simps mk h2 s2 fun_upd_upd sel th)
  moreover have "?m1\<lparr>tab := ta, loadFactor := lf, threshold := th, map_size := 0\<rparr> =
      \<lparr>tabLen = ucast n, tab = ta, loadFactor = lf, threshold = th, map_size = 0\<rparr>" by (cases m) simp
  ultimately obtain p' where "hash_map_init L lf n a (v, p) = (Val (), v, p')" "idle p'"
    "heap p' = ?h2 \<lparr>tabLen = ucast n, tab = ta, loadFactor = lf, threshold = th, map_size = 0\<rparr>" by auto
  then show ?thesis using ne fin by (intro exI [of _ p'] exI [of _ ta]) simp
qed

end

lemma chain_nulls: "list_all2 (chain h) (replicate n 0) (replicate n [])"
  by (simp add: list_all2_conv_all_nth chain_Nil)

lemma ctor_is_init: "pmem_hash_map_ctor = hash_map_init"
  by (intro ext) (simp add: pmem_hash_map_ctor_def hash_map_init_def)

section \<open>The map as a store of contents\<close>

primrec puts :: "(nat \<Rightarrow> 's \<Rightarrow> 's option) \<Rightarrow> nat list \<Rightarrow> 's \<Rightarrow> 's option" where
  "puts f [] s = Some s"
| "puts f (c # cs) s = Option.bind (f c s) (puts f cs)"

text \<open>
  What a user of the map relies on: a state represents a multiset of contents, \<open>put\<close> adds one and
  \<open>getAll\<close> lists them.
\<close>

locale content_store =
  fixes rep :: "'s \<Rightarrow> nat multiset \<Rightarrow> bool" and put :: "nat \<Rightarrow> 's \<Rightarrow> 's option" and all :: "'s \<Rightarrow> nat list option"
  assumes put_rep: "rep s M \<Longrightarrow> \<exists>s'. put c s = Some s' \<and> rep s' (add_mset c M)"
    and all_rep: "rep s M \<Longrightarrow> \<exists>cs. all s = Some cs \<and> mset cs = M"
begin

lemma puts_rep: "rep s M \<Longrightarrow> \<exists>s'. puts put cs s = Some s' \<and> rep s' (mset cs + M)"
proof (induction cs arbitrary: s M)
  case (Cons c cs)
  from put_rep [OF Cons.prems, of c] obtain s' where s': "put c s = Some s'" "rep s' (add_mset c M)" by blast
  from Cons.IH [OF s'(2)] s'(1) show ?case by simp
qed simp

lemma all_after_puts:
  "rep s M \<Longrightarrow> \<exists>s' ds. puts put cs s = Some s' \<and> all s' = Some ds \<and> mset ds = mset cs + M"
  using puts_rep [of s M cs] all_rep by blast

end

text \<open>The map with a hash function of the contents, as such a store.\<close>

definition put_opt :: "pobj libpmemobj \<Rightarrow> (nat \<Rightarrow> u64) \<Rightarrow> nat \<Rightarrow> nat \<Rightarrow> pmem \<Rightarrow> pmem option" where
  "put_opt L g a c p = (case map_put L (\<lambda>c. returnC (g c)) a c ((), p) of (Val _, _, p') \<Rightarrow> Some p' | _ \<Rightarrow> None)"

definition all_opt :: "nat \<Rightarrow> pmem \<Rightarrow> nat list option" where
  "all_opt a p = (case getAll a [] ((), p) of (Val cs, _, _) \<Rightarrow> Some cs | _ \<Rightarrow> None)"

definition map_rep :: "nat \<Rightarrow> pmem \<Rightarrow> nat multiset \<Rightarrow> bool" where
  "map_rep a p M \<longleftrightarrow> (\<exists>css. css \<noteq> [] \<and> is_map a p css \<and> mset (concat css) = M)"

lemma mset_concat_update:
  "i < length css \<Longrightarrow> mset (concat (css[i := c # css ! i])) = add_mset c (mset (concat css))"
  by (induction css arbitrary: i) (auto split: nat.split)

sublocale steady_env \<subseteq> store: content_store "map_rep a" "put_opt L g a" "all_opt a" for a g
proof (unfold_locales, goal_cases)
  case (1 p M c)
  then obtain css where css: "css \<noteq> []" "is_map a p css" "mset (concat css) = M" by (auto simp: map_rep_def)
  let ?i = "unat (g c) mod length css"
  have i: "?i < length css" using css(1) by simp
  from map_put_ok [OF css(2,1), of "\<lambda>c. returnC (g c)" c "()" "g c"] obtain p' where
    "map_put L (\<lambda>c. returnC (g c)) a c ((), p) = (Val (), (), p')" "is_map a p' (css[?i := c # css ! ?i])"
    by (auto simp: returnC_def)
  with mset_concat_update [OF i, of c] css show ?case
    by (intro exI [of _ p']) (auto simp: put_opt_def map_rep_def intro!: exI [of _ "css[?i := c # css ! ?i]"])
next
  case (2 p M)
  then show ?case by (auto simp: map_rep_def all_opt_def getAll_is_map)
qed

context steady_env
begin

lemma map_puts_getAll:
  assumes "is_map a p css" and "css \<noteq> []"
  shows "\<exists>p' ds. puts (put_opt L g a) cs p = Some p' \<and> getAll a [] ((), p') = (Val ds, (), p') \<and>
    mset ds = mset cs + mset (concat css)"
proof -
  have "map_rep a p (mset (concat css))" using assms by (auto simp: map_rep_def)
  from store.puts_rep [OF this, of g cs] obtain p' where
    "puts (put_opt L g a) cs p = Some p'" "map_rep a p' (mset cs + mset (concat css))" by blast
  then show ?thesis by (auto simp: map_rep_def getAll_is_map)
qed

end

section \<open>Failure of put\<close>

lemma tx_safe_with_heap [tx_safe_intros]: "tx_safe A (with_heap f)"
  by (rule tx_safeI, case_tac "f (heap p)") (auto simp: with_heap_def tx_inv_rollback)

lemma tx_safe_mod_u64 [tx_safe_intros]: "tx_safe A (mod_u64 x y)"
  unfolding mod_u64_def by (intro tx_safe_intros)

lemma tx_safe_slot_set [tx_safe_intros]: "tx_safe A (slot_set L ta i x)"
  unfolding slot_set_def slot_get_def by (intro tx_safe_intros field_slot)

text \<open>A statement that changes no state.\<close>

definition quiet :: "('s, 'a) cpp \<Rightarrow> bool" where
  "quiet m \<longleftrightarrow> (\<forall>s. snd (m s) = s)"

lemma quiet_bindC:
  assumes "quiet m" and "bindC m k s = (r, s')"
  obtains x where "k x s = (r, s')" | "s' = s"
  using assms by (cases "m s"; cases "fst (m s)") (auto simp: bindC_def quiet_def dest: spec [of _ s])

lemma quiet_reads: "quiet (pread a g)" "quiet (mod_u64 x y)" "quiet (slot_get ta i)"
  by (auto simp: quiet_def pread_def mod_u64_def slot_get_def with_heap_def dieC_def returnC_def)

context nvm_env
begin

lemma map_put_undone:
  assumes idle: "idle p" and h: "quiet (hashCode c)"
    and run: "map_put L hashCode a c (v, p) = (r, v', p')"
  shows "case r of Val _ \<Rightarrow> True | Throw e \<Rightarrow> heap p' = heap p \<and> idle p' | Die f \<Rightarrow> heap (recover p') = heap p" (is "?undone r p'")
proof -
  have same: "?undone r' p" for r' :: "unit outcome"
    using idle by (cases r') (simp_all add: recover_def idle_def)
  have tx: ?thesis if "transaction_run L
       (bindC (make_persistent L 32 (Node \<lparr>node_next = 0, p_content = 0\<rparr>) (\<lambda>_. returnC ())) (\<lambda>newhead.
        thenC (node_set L newhead p_content p_content_update c)
        (thenC (node_set L newhead node_next node_next_update hd)
        (bindC (map_get a tabLen) (\<lambda>l'.
         bindC (mod_u64 w (ucast l')) (\<lambda>j.
         bindC (map_get a tab) (\<lambda>ta'. slot_set L ta' j newhead))))))) (v, p) = (r, v', p')" (is "transaction_run L ?tx _ = _") for hd w
  proof -
    have safe: "tx_safe {} ?tx"
      by (intro tx_safe_intros tx_safe_fields)
    from exec_tx_atomic [OF safe idle begin_ok, of "[]" v r v' p'] that
    show ?thesis unfolding transaction_run_def by (cases r) auto
  qed
  show ?thesis
    using run unfolding map_put_def
    by (elim quiet_bindC [OF h] quiet_bindC [OF quiet_reads(1)] quiet_bindC [OF quiet_reads(2)]
        quiet_bindC [OF quiet_reads(3)])
       (auto simp: same dest: tx)
qed

end

section \<open>Properties\<close>

text \<open>A map at offset 1, before \<open>init\<close>, and one with two empty buckets.\<close>

definition raw_map :: pmem_hash_map where
  "raw_map = \<lparr>tabLen = 0, tab = 0, loadFactor = (0, 0), threshold = 0, map_size = 0\<rparr>"

definition raw_map_pool :: pmem where
  "raw_map_pool = \<lparr>heap = [1 \<mapsto> HashMap raw_map], stage = TX_STAGE_NONE, depth = 0, undo_log = [], freed = [], errnum = 0\<rparr>"

definition two_buckets :: pmem where
  "two_buckets = raw_map_pool\<lparr>heap := [1 \<mapsto> HashMap (raw_map\<lparr>tabLen := 2, tab := 2\<rparr>), 2 \<mapsto> NodeArray [0, 0]]\<rparr>"

lemma two_buckets_map: "is_map 1 two_buckets [[], []]"
  by (simp add: is_map_def two_buckets_def raw_map_pool_def idle_def chain_Nil)

text \<open>C11: The map is a store of contents: after any sequence of \<open>put\<close>s from a represented map, \<open>getAll\<close>
  returns the contents that were there and the ones that were put, each as often as it was put, and
  nothing else.\<close>

theorem map_collects_puts:
  assumes "steady_env L E" and "is_map a p css" and "css \<noteq> []"
  shows "\<exists>p' ds. puts (put_opt L g a) cs p = Some p' \<and> getAll a [] ((), p') = (Val ds, (), p') \<and>
    mset ds = mset cs + mset (concat css)"
  using steady_env.map_puts_getAll [OF assms] .

theorem map_collects_puts_witness:
  "\<exists>p' ds. puts (put_opt healthy of_nat 1) [7, 9, 7] two_buckets = Some p' \<and> getAll 1 [] ((), p') = (Val ds, (), p') \<and>
    mset ds = {#7, 7, 9#}"
  using map_collects_puts [OF nvm.steady_env_axioms two_buckets_map, of of_nat "[7, 9, 7]"] by (simp add: add_mset_commute)

text \<open>\<open>put\<close> makes the new content the first of its bucket, the hash modulo the table length, and
  changes no other bucket and no object but the bucket array.\<close>

theorem put_prepends_to_bucket:
  assumes "steady_env L E" and "is_map a p css" and "css \<noteq> []" and "hashCode c (v, p) = (Val hc, v, p)"
  shows "\<exists>p'. map_put L hashCode a c (v, p) = (Val (), v, p') \<and>
    is_map a p' (css[unat hc mod length css := c # css ! (unat hc mod length css)]) \<and>
    (\<forall>x. heap p x \<noteq> None \<longrightarrow> get_array (the (heap p x)) = None \<longrightarrow> heap p' x = heap p x)"
  by (rule steady_env.map_put_ok [where hashCode = hashCode and c = c, OF assms])

theorem put_prepends_to_bucket_witness:
  "\<exists>p'. map_put healthy (\<lambda>_. returnC 0) 1 7 ((), two_buckets) = (Val (), (), p') \<and> is_map 1 p' [[7], []]"
proof -
  have "returnC 0 ((), two_buckets) = (Val (0 :: u64), (), two_buckets)" by (simp add: returnC_def)
  from put_prepends_to_bucket [OF nvm.steady_env_axioms two_buckets_map, where hashCode = "\<lambda>_. returnC 0" and c = 7, OF _ this]
  show ?thesis by auto
qed

text \<open>C32: A \<open>put\<close> that throws (an allocation or a snapshot fails) leaves every persistent object as it was, without any recovery, and
  the thread outside any transaction; when the process dies in it, the recovery at the next open restores every object. (The hash function
  reads only, and \<open>pmemobj_tx_begin\<close> succeeds.)\<close>

theorem failed_put_undone:
  assumes "nvm_env L E" and "idle p" and "quiet (hashCode c)"
    and "map_put L hashCode a c (v, p) = (r, v', p')"
  shows "case r of Val _ \<Rightarrow> True | Throw e \<Rightarrow> heap p' = heap p \<and> idle p' | Die f \<Rightarrow> heap (recover p') = heap p"
  by (rule nvm_env.map_put_undone [OF assms])

theorem failed_put_undone_witness:
  "\<exists>p'. map_put exhausted (\<lambda>_. returnC 0) 1 7 ((), two_buckets) = (Throw Transaction_alloc_error, (), p') \<and>
    heap p' = heap two_buckets"
proof -
  have idle: "idle two_buckets" by (simp add: two_buckets_def raw_map_pool_def idle_def)
  have q: "quiet (returnC 0 :: (unit \<times> pmem, u64) cpp)" by (simp add: quiet_def returnC_def)
  have body: "bindC (make_persistent exhausted 32 ob k) f ((), open_pool two_buckets) =
      (Throw Transaction_alloc_error, (), abort_pool ENOMEM (open_pool two_buckets))" for ob k f
    by (simp add: make_persistent_def exec_simps pmemobj_tx_stage_def pmemobj_tx_alloc_def exhausted_def)
  have tx: "transaction_run exhausted (bindC (make_persistent exhausted 32 ob k) f) ((), two_buckets) =
      (Throw Transaction_alloc_error, (), end_pool (abort_pool ENOMEM (open_pool two_buckets)))" for ob k f
    by (simp add: transaction_run_run [where tx = "bindC (make_persistent exhausted 32 ob k) f", OF exhausted.begin_ok body]
        close_tx_def abort_pool_def)
  have g: "map_get 1 tabLen ((), two_buckets) = (Val 2, (), two_buckets)"
    "map_get 1 tab ((), two_buckets) = (Val 2, (), two_buckets)"
    "slot_get 2 0 ((), two_buckets) = (Val 0, (), two_buckets)"
    "mod_u64 0 (ucast (2 :: u32)) ((), two_buckets) = (Val 0, (), two_buckets)"
    by (simp_all add: two_buckets_def pread_def slot_get_def with_heap_def slot_at_def mod_u64_def returnC_def)
  have "map_put exhausted (\<lambda>_. returnC 0) 1 7 ((), two_buckets) =
      (Throw Transaction_alloc_error, (), end_pool (abort_pool ENOMEM (open_pool two_buckets)))"
    unfolding map_put_def by (simp only: exec_simps g tx)
  with failed_put_undone [OF full.nvm_env_axioms idle, where hashCode = "\<lambda>_. returnC 0", OF q] show ?thesis by fastforce
qed

text \<open>\<open>init\<close> builds an empty map: with fewer than \<open>2 ^ 22\<close> buckets and load factor 0.75 the threshold is
  exactly three quarters of the number of buckets, rounded down, and \<open>getAll\<close> returns nothing.\<close>

theorem init_builds_empty_map:
  assumes "steady_env L E" and "heap p a = Some (HashMap m)" and "idle p" and "finite (dom (heap p))"
    and "unat n < 2 ^ 22"
  shows "\<exists>p' ta. hash_map_init L (3, 2) n a (v, p) = (Val (), v, p') \<and> is_map a p' (replicate (unat n) []) \<and>
    heap p' a = Some (HashMap \<lparr>tabLen = ucast n, tab = ta, loadFactor = (3, 2),
      threshold = of_nat (unat n * 3 div 4), map_size = 0\<rparr>) \<and>
    getAll a [] (v, p') = (Val [], v, p')"
proof -
  have n: "unat (ucast n :: u32) = unat n"
    using assms(5) by (simp add: unsigned_ucast_eq take_bit_nat_eq_self_iff)
  have "u32_of_f32 (f32_mult (f32_of_u32 (ucast n)) (3, 2)) = Val (of_nat (unat n * 3 div 4))"
    using threshold_exact [of "ucast n"] n assms(5) by simp
  from steady_env.hash_map_init_ok [OF assms(1-4) this, of v] obtain p' ta where
    p': "hash_map_init L (3, 2) n a (v, p) = (Val (), v, p')" "idle p'" "finite (dom (heap p'))"
    "heap p' a = Some (HashMap \<lparr>tabLen = ucast n, tab = ta, loadFactor = (3, 2),
      threshold = of_nat (unat n * 3 div 4), map_size = 0\<rparr>)"
    "heap p' ta = Some (NodeArray (replicate (unat n) 0))" by blast
  have "is_map a p' (replicate (unat n) [])"
    using p' n chain_nulls by (simp add: is_map_def)
  with p' getAll_is_map [OF this, of "[]" v] show ?thesis by auto
qed

theorem init_builds_empty_map_witness:
  "\<exists>p' ta. hash_map_init healthy (3, 2) 10 1 ((), raw_map_pool) = (Val (), (), p') \<and> is_map 1 p' (replicate 10 []) \<and>
    heap p' 1 = Some (HashMap \<lparr>tabLen = 10, tab = ta, loadFactor = (3, 2), threshold = 7, map_size = 0\<rparr>) \<and>
    getAll 1 [] ((), p') = (Val [], (), p')"
  using init_builds_empty_map [OF nvm.steady_env_axioms, of raw_map_pool 1 raw_map 10 "()"]
  by (simp add: raw_map_pool_def idle_def)

text \<open>The table length is stored in 32 bits: a multiple of \<open>2 ^ 32\<close> buckets is allocated in full but
  recorded as 0 buckets, and every \<open>put\<close> into such a map divides by zero.\<close>

theorem table_length_truncated:
  assumes "steady_env L E" and "heap p a = Some (HashMap m)" and "idle p" and "finite (dom (heap p))"
    and "unat n mod 2 ^ 32 = 0" and "\<forall>s. hashCode c s = (Val hc, s)"
  shows "\<exists>p'. hash_map_init L (3, 2) n a (v, p) = (Val (), v, p') \<and>
    map_put L hashCode a c (v, p') = (Die Div_by_zero, v, p')"
proof -
  have "unat (ucast n :: u32) = 0"
    using assms(5) by (simp add: unsigned_ucast_eq take_bit_eq_mod)
  then have n: "(ucast n :: u32) = 0" by (simp add: unat_eq_0)
  have "u32_of_f32 (f32_mult (f32_of_u32 (ucast n)) (3, 2)) = Val 0"
    using threshold_exact [of 0] n by simp
  from steady_env.hash_map_init_ok [OF assms(1-4) this, of v] obtain p' ta where
    p': "hash_map_init L (3, 2) n a (v, p) = (Val (), v, p')"
    "heap p' a = Some (HashMap \<lparr>tabLen = ucast n, tab = ta, loadFactor = (3, 2), threshold = 0, map_size = 0\<rparr>)" by blast
  then have "map_put L hashCode a c (v, p') = (Die Div_by_zero, v, p')"
    using assms(6) n by (simp add: map_put_def exec_simps pread_def mod_u64_def)
  with p' show ?thesis by blast
qed

theorem table_length_truncated_witness:
  "\<exists>p'. hash_map_init healthy (3, 2) 4294967296 1 ((), raw_map_pool) = (Val (), (), p') \<and>
    map_put healthy (\<lambda>_. returnC 0) 1 7 ((), p') = (Die Div_by_zero, (), p')"
  by (rule table_length_truncated [OF nvm.steady_env_axioms, where m = raw_map and hc = 0])
     (simp_all add: raw_map_pool_def idle_def returnC_def)

end
