(* ===== verification/Prefix_Map.thy ===== *)
theory Prefix_Map
  imports Pmem_Hash_Map
begin

text \<open>
  The prefix map of \<open>src/pmem_hash_map.cc\<close>: the earlier interface of the hash map, still the one the
  write cache calls, in which a bucket is a linked list of range tables and a range is looked up by its
  prefix. The file does not compile as it stands; what it leaves out is read as follows: \<open>tab\<close> and
  \<open>tabLen\<close> are the members \<open>tab_\<close> and \<open>tabLen_\<close> of the header, \<open>make_persistent<p_node>\<close> makes the node
  itself, a persistent pointer passed to \<open>memcpy\<close> or \<open>strcmp\<close> is its address, and the initial sequence
  number, written \<open>?\<close>, is the argument \<open>seq0\<close>.
\<close>

section \<open>C strings\<close>

text \<open>\<open>strcmp(p, q) == 0\<close> on two arrays; running past the end of one is out of bounds.\<close>

fun strcmp_eq :: "byte list \<Rightarrow> byte list \<Rightarrow> bool outcome" where
  "strcmp_eq [] bs = Die Out_of_bounds"
| "strcmp_eq (a # as) [] = Die Out_of_bounds"
| "strcmp_eq (a # as) (b # bs) =
     (if a \<noteq> b then Val False else if a = 0 then Val True else strcmp_eq as bs)"

definition c_str :: "byte list \<Rightarrow> byte list" where
  "c_str s = s @ [0]"

lemma strcmp_eq_terminated:
  assumes "0 \<in> set as" and "0 \<in> set bs"
  shows "strcmp_eq as bs = Val (takeWhile (\<lambda>c. c \<noteq> 0) as = takeWhile (\<lambda>c. c \<noteq> 0) bs)"
  using assms by (induction as bs rule: strcmp_eq.induct) auto

section \<open>Operations\<close>

definition prefix_eq :: "(nat \<rightharpoonup> pobj) \<Rightarrow> nat \<Rightarrow> byte list \<Rightarrow> bool outcome" where
  "prefix_eq h pa key =
     bindO (the_or_die Null_deref (Option.bind (h pa) get_bytes)) (\<lambda>bs. strcmp_eq bs (c_str key))"

text \<open>The loop over a bucket: the first node with the hash and the prefix, or null.\<close>

partial_function (option) find_node :: "(nat \<rightharpoonup> pobj) \<Rightarrow> u64 \<Rightarrow> byte list \<Rightarrow> nat \<Rightarrow> nat outcome option" where
  "find_node h hsh key a =
     (if a = 0 then Some (Val 0)
      else case Option.bind (h a) (get_tab (\<lambda>t. t)) of
        None \<Rightarrow> Some (Die Null_deref)
      | Some t \<Rightarrow>
          (if hash t = hsh
           then (case prefix_eq h (prefix t) key of
               Val eq \<Rightarrow> if eq then Some (Val a) else find_node h hsh key (next t)
             | Throw e \<Rightarrow> Some (Throw e)
             | Die f \<Rightarrow> Some (Die f))
           else find_node h hsh key (next t)))"

definition bucket_head :: "nat \<Rightarrow> u64 \<Rightarrow> ('v, nat) prog" where
  "bucket_head a hsh =
     bindC (map_get a tabLen) (\<lambda>l.
     bindC (mod_u64 hsh (ucast l)) (\<lambda>i.
     bindC (map_get a tab) (\<lambda>ta. slot_get ta i)))"

definition getNode_hash :: "nat \<Rightarrow> u64 \<Rightarrow> byte list \<Rightarrow> ('v, nat) prog" where
  "getNode_hash a hsh key =
     bindC (bucket_head a hsh) (\<lambda>nod. with_heap (\<lambda>h. loop_result (find_node h hsh key nod)))"

definition getNode :: "rocksdb \<Rightarrow> nat \<Rightarrow> byte list \<Rightarrow> u64 \<Rightarrow> ('v, nat) prog" where
  "getNode E a key prefix_len = getNode_hash a (CityHash64WithSeed E key prefix_len 16) key"

text \<open>\<open>get\<close>: the source stores the node it finds in a variable \<open>node\<close> that is not declared and tests \<open>nod\<close>; the model
  takes both names for the one local variable.\<close>

definition map_get_buf :: "rocksdb \<Rightarrow> nat \<Rightarrow> byte list \<Rightarrow> u64 \<Rightarrow> ('v, nat) prog" where
  "map_get_buf E a key prefix_len =
     bindC (getNode E a key prefix_len) (\<lambda>nod. if nod = 0 then returnC 0 else tab_get nod buf)"

definition fresh_tab :: NvRangeTab where
  "fresh_tab = \<lparr>hash = 0, prefixLen = 0, prefix = 0, key_range = 0, chunk_num = 0, seq_num = 0,
     bufSize = 0, buf = 0, dataLen = 0, extra_buf = 0, next = 0\<rparr>"

text \<open>The transaction of \<open>putAndGet\<close>: the members of the new node, and its place at the head of its bucket.\<close>

definition fill_node :: "pobj libpmemobj \<Rightarrow> u64 \<Rightarrow> u64 \<Rightarrow> byte list \<Rightarrow> u64 \<Rightarrow> nat \<Rightarrow> ('v, unit) prog" where
  "fill_node L seq0 hsh pre n nh =
     thenC (tab_set L nh hash hash_update hsh)
     (thenC (tab_set L nh prefixLen prefixLen_update (of_nat (length pre)))
     (bindC (make_persistent_array L (length pre + 1) (Bytes (replicate (length pre + 1) 0))) (\<lambda>pa.
      thenC (tab_set L nh prefix prefix_update pa)
      (thenC (memcpy_to pa 0 (c_str pre))
      (thenC (tab_set L nh key_range key_range_update 0)
      (thenC (tab_set L nh chunk_num chunk_num_update 0)
      (thenC (tab_set L nh seq_num seq_num_update seq0)
      (thenC (tab_set L nh bufSize bufSize_update n)
      (bindC (make_persistent_array L (unat n) (Bytes (replicate (unat n) 0))) (\<lambda>ba.
       thenC (tab_set L nh buf buf_update ba)
         (tab_set L nh dataLen dataLen_update 0)))))))))))"

definition link_node :: "pobj libpmemobj \<Rightarrow> nat \<Rightarrow> u64 \<Rightarrow> nat \<Rightarrow> nat \<Rightarrow> ('v, unit) prog" where
  "link_node L a hsh head nh =
     thenC (tab_set L nh next next_update head)
     (bindC (map_get a tabLen) (\<lambda>l.
      bindC (mod_u64 hsh (ucast l)) (\<lambda>i.
      bindC (map_get a tab) (\<lambda>ta. slot_set L ta i nh))))"

definition put_body ::
  "pobj libpmemobj \<Rightarrow> u64 \<Rightarrow> nat \<Rightarrow> u64 \<Rightarrow> byte list \<Rightarrow> u64 \<Rightarrow> nat \<Rightarrow> ('v, nat) prog" where
  "put_body L seq0 a hsh pre n head =
     bindC (make_persistent L 88 (RangeTab fresh_tab) (\<lambda>_. returnC ())) (\<lambda>nh.
     thenC (fill_node L seq0 hsh pre n nh)
     (thenC (link_node L a hsh head nh) (returnC nh)))"

text \<open>
  \<open>transaction::run\<close> takes a closure without result; the node it made is in the captured variable
  \<open>newhead\<close>, here the first component of the volatile state.
\<close>

definition putAndGet :: "pobj libpmemobj \<Rightarrow> rocksdb \<Rightarrow> u64 \<Rightarrow> nat \<Rightarrow> byte list \<Rightarrow> u64 \<Rightarrow> (nat \<times> 'v, nat) prog" where
  "putAndGet L E seq0 a pre n =
     (let hsh = CityHash64WithSeed E pre (of_nat (length pre)) 16 in
      bindC (bucket_head a hsh) (\<lambda>head.
      bindC (with_heap (\<lambda>h. loop_result (find_node h hsh pre head))) (\<lambda>found.
      thenC (vmod (\<lambda>(_, v). (found, v)))
      (thenC
        (if found = 0
         then transaction_run L (bindC (put_body L seq0 a hsh pre n head) (\<lambda>nh. vmod (\<lambda>(_, v). (nh, v))))
         else returnC ())
        (vget fst)))))"

definition put_prefix :: "pobj libpmemobj \<Rightarrow> rocksdb \<Rightarrow> u64 \<Rightarrow> nat \<Rightarrow> byte list \<Rightarrow> u64 \<Rightarrow> (nat \<times> 'v, u64) prog" where
  "put_prefix L E seq0 a pre n = bindC (putAndGet L E seq0 a pre n) (\<lambda>nod. tab_get nod hash)"

text \<open>\<open>put(pop, p_content)\<close> of this file: a content is linked only into an empty bucket.\<close>

definition cc_put :: "pobj libpmemobj \<Rightarrow> (nat \<Rightarrow> ('v, u64) prog) \<Rightarrow> nat \<Rightarrow> nat \<Rightarrow> ('v, bool) prog" where
  "cc_put L hashCode a c =
     bindC (hashCode c) (\<lambda>hsh.
     bindC (bucket_head a hsh) (\<lambda>head.
     thenC
       (if head = 0
        then transaction_run L
          (bindC (make_persistent L 32 (Node \<lparr>node_next = 0, p_content = 0\<rparr>) (\<lambda>_. returnC ())) (\<lambda>newhead.
           thenC (node_set L newhead p_content p_content_update c)
           (thenC (node_set L newhead node_next node_next_update 0)
           (bindC (map_get a tabLen) (\<lambda>l.
            bindC (mod_u64 hsh (ucast l)) (\<lambda>i.
            bindC (map_get a tab) (\<lambda>ta. slot_set L ta i newhead)))))))
        else returnC ())
       (returnC True)))"

section \<open>What the heap represents\<close>

text \<open>\<open>nodes h a as\<close>: the linked list of range tables from \<open>a\<close> is \<open>as\<close>, each with a terminated prefix.\<close>

inductive nodes :: "(nat \<rightharpoonup> pobj) \<Rightarrow> nat \<Rightarrow> nat list \<Rightarrow> bool" for h where
  nodes_Nil: "nodes h 0 []"
| nodes_Cons: "a \<noteq> 0 \<Longrightarrow> h a = Some (RangeTab t) \<Longrightarrow> h (prefix t) = Some (Bytes bs) \<Longrightarrow> 0 \<in> set bs \<Longrightarrow>
    nodes h (next t) as \<Longrightarrow> nodes h a (a # as)"

inductive_cases nodes_ConsE: "nodes h a (b # as)"

definition node_matches :: "(nat \<rightharpoonup> pobj) \<Rightarrow> u64 \<Rightarrow> byte list \<Rightarrow> nat \<Rightarrow> bool" where
  "node_matches h hsh key a \<longleftrightarrow>
     (case Option.bind (h a) (get_tab (\<lambda>t. t)) of
        None \<Rightarrow> False
      | Some t \<Rightarrow> hash t = hsh \<and> prefix_eq h (prefix t) key = Val True)"

definition first_match :: "(nat \<rightharpoonup> pobj) \<Rightarrow> u64 \<Rightarrow> byte list \<Rightarrow> nat list \<Rightarrow> nat" where
  "first_match h hsh key as = (case find (node_matches h hsh key) as of None \<Rightarrow> 0 | Some a \<Rightarrow> a)"

definition is_prefix_map :: "nat \<Rightarrow> pmem \<Rightarrow> nat list list \<Rightarrow> bool" where
  "is_prefix_map a p nss \<longleftrightarrow> idle p \<and> finite (dom (heap p)) \<and>
     (\<exists>m xs. heap p a = Some (HashMap m) \<and> heap p (tab m) = Some (NodeArray xs) \<and>
        length xs = unat (tabLen m) \<and> list_all2 (nodes (heap p)) xs nss)"

lemma prefix_eq_terminated:
  assumes "h pa = Some (Bytes bs)" and "0 \<in> set bs"
  shows "prefix_eq h pa key = Val (takeWhile (\<lambda>c. c \<noteq> 0) bs = takeWhile (\<lambda>c. c \<noteq> 0) (c_str key))"
  using assms by (simp add: prefix_eq_def strcmp_eq_terminated c_str_def)

text \<open>The loop ends on every such list and finds the first match.\<close>

lemma find_node_first: "nodes h a as \<Longrightarrow> find_node h hsh key a = Some (Val (first_match h hsh key as))"
proof (induction rule: nodes.induct)
  case nodes_Nil
  then show ?case by (simp add: find_node.simps first_match_def)
next
  case (nodes_Cons a t bs as)
  then show ?case
    by (subst find_node.simps) (simp add: first_match_def node_matches_def prefix_eq_terminated)
qed

lemma nodes_cong:
  assumes "nodes h a as" and "\<And>x t. h x = Some (RangeTab t) \<Longrightarrow> h' x = Some (RangeTab t)"
    and "\<And>x bs. h x = Some (Bytes bs) \<Longrightarrow> h' x = Some (Bytes bs)"
  shows "nodes h' a as"
  using assms by (induction rule: nodes.induct) (auto intro: nodes.intros)

lemma nodes_nonzero: "nodes h a as \<Longrightarrow> x \<in> set as \<Longrightarrow> x \<noteq> 0"
  by (induction rule: nodes.induct) auto

section \<open>putAndGet on a healthy pool\<close>

lemma bucket_head_at:
  assumes m: "heap p a = Some (HashMap m)" and xs: "heap p (tab m) = Some (NodeArray xs)"
    and len: "length xs = unat (tabLen m)" and k: "length xs = k" "k \<noteq> 0"
  shows "unat (ucast (tabLen m) :: u64) = k" and "unat hsh mod k < length xs"
    and "bucket_head a hsh (v, p) = (Val (xs ! (unat hsh mod k)), v, p)"
proof -
  let ?l = "ucast (tabLen m) :: u64"
  show l: "unat ?l = k" using len k by (simp add: unat_ucast_u64)
  then have l0: "?l \<noteq> 0" using k(2) by (metis unat_0)
  have w: "unat (hsh mod ?l) = unat hsh mod k" by (simp add: unat_mod l)
  show i: "unat hsh mod k < length xs" using k by simp
  show "bucket_head a hsh (v, p) = (Val (xs ! (unat hsh mod k)), v, p)"
    using m xs l0 i
    by (simp add: bucket_head_def exec_simps pread_def mod_u64_def slot_get_def with_heap_def slot_at_def w)
qed

lemma bucket_head_run:
  fixes v :: 'v
  assumes "is_prefix_map a p nss" and "nss \<noteq> []"
  obtains m xs where "heap p a = Some (HashMap m)" and "heap p (tab m) = Some (NodeArray xs)"
    and "unat (ucast (tabLen m) :: u64) = length nss" and "list_all2 (nodes (heap p)) xs nss"
    and "unat hsh mod length nss < length xs"
    and "bucket_head a hsh (v, p) = (Val (xs ! (unat hsh mod length nss)), v, p)"
proof -
  from assms obtain m xs where m: "heap p a = Some (HashMap m)" "heap p (tab m) = Some (NodeArray xs)"
    and len: "length xs = unat (tabLen m)" and nss: "list_all2 (nodes (heap p)) xs nss" by (auto simp: is_prefix_map_def)
  have k: "length xs = length nss" "length nss \<noteq> 0" using list_all2_lengthD [OF nss] assms(2) by simp_all
  note at = bucket_head_at [OF m len k]
  show ?thesis by (rule that [OF m at(1) nss at(2,3)])
qed

text \<open>A prefix that is in the map already: the node is returned and nothing changes.\<close>

lemma putAndGet_found:
  fixes E :: rocksdb and pre :: "byte list"
  assumes rep: "is_prefix_map a p nss" "nss \<noteq> []"
  defines "hsh \<equiv> CityHash64WithSeed E pre (of_nat (length pre)) 16"
  assumes found: "first_match (heap p) hsh pre (nss ! (unat hsh mod length nss)) = x" and "x \<noteq> 0"
  shows "putAndGet L E seq0 a pre n ((c, v), p) = (Val x, (x, v), p)"
proof -
  obtain m xs where nss: "list_all2 (nodes (heap p)) xs nss" and i: "unat hsh mod length nss < length xs"
    and head: "bucket_head a hsh ((c, v), p) = (Val (xs ! (unat hsh mod length nss)), (c, v), p)"
    by (rule bucket_head_run [OF rep])
  have "find_node (heap p) hsh pre (xs ! (unat hsh mod length nss)) = Some (Val x)"
    using nss i found by (auto simp: list_all2_conv_all_nth intro!: find_node_first)
  with \<open>x \<noteq> 0\<close> show ?thesis
    by (simp add: putAndGet_def Let_def hsh_def [symmetric] exec_simps head with_heap_def loop_result_def
        vmod_def vget_def)
qed

lemma getNode_run:
  fixes E :: rocksdb and key :: "byte list" and n :: u64
  assumes rep: "is_prefix_map a p nss" "nss \<noteq> []"
  defines "hsh \<equiv> CityHash64WithSeed E key n 16"
  shows "getNode E a key n (v, p) = (Val (first_match (heap p) hsh key (nss ! (unat hsh mod length nss))), v, p)"
proof -
  obtain m xs where nss: "list_all2 (nodes (heap p)) xs nss" and i: "unat hsh mod length nss < length xs"
    and head: "bucket_head a hsh (v, p) = (Val (xs ! (unat hsh mod length nss)), v, p)"
    by (rule bucket_head_run [OF rep])
  have "find_node (heap p) hsh key (xs ! (unat hsh mod length nss)) =
      Some (Val (first_match (heap p) hsh key (nss ! (unat hsh mod length nss))))"
    using nss i by (auto simp: list_all2_conv_all_nth intro!: find_node_first)
  then show ?thesis
    by (simp add: getNode_def getNode_hash_def hsh_def [symmetric] exec_simps head with_heap_def loop_result_def)
qed

text \<open>The node that \<open>putAndGet\<close> builds.\<close>

definition new_node :: "u64 \<Rightarrow> u64 \<Rightarrow> byte list \<Rightarrow> u64 \<Rightarrow> nat \<Rightarrow> nat \<Rightarrow> nat \<Rightarrow> NvRangeTab" where
  "new_node hsh seq0 pre n pa ba head = \<lparr>hash = hsh, prefixLen = of_nat (length pre), prefix = pa, key_range = 0,
     chunk_num = 0, seq_num = seq0, bufSize = n, buf = ba, dataLen = 0, extra_buf = 0, next = head\<rparr>"

context steady_env
begin

lemma fill_node_ok:
  fixes p :: pmem and h :: "nat \<rightharpoonup> pobj" and us :: "pobj undo list" and v :: 'v and pre :: "byte list" and n :: u64
  defines "q \<equiv> \<lambda>h us. (open_pool p)\<lparr>heap := h, undo_log := us\<rparr>"
  assumes fin: "finite (dom h)" and at: "h nh = Some (RangeTab fresh_tab)"
  obtains pa ba us' where "fill_node L seq0 hsh pre n nh (v, q h us) = (Val (), v, q (h(pa \<mapsto> Bytes (c_str pre),
      ba \<mapsto> Bytes (replicate (unat n) 0), nh \<mapsto> RangeTab (new_node hsh seq0 pre n pa ba 0))) us')"
    and "h pa = None" and "h ba = None" and "pa \<noteq> ba"
proof -
  let ?z = "replicate (length pre + 1) 0" and ?b = "Bytes (replicate (unat n) 0)"
  let ?h1 = "\<lambda>t. h(nh \<mapsto> RangeTab t)"
  have s0: "tab_set L nh f u x (v, q h us) =
      (Val (), v, q (?h1 (u (\<lambda>_. x) fresh_tab)) (Snapshot nh (set_tab u (f fresh_tab)) # us))"
    for f :: "NvRangeTab \<Rightarrow> 'f" and u x us
    unfolding q_def by (subst tab_set_open [where t = fresh_tab]) (simp_all add: at)
  have s1: "tab_set L nh f u x (v, q (g(nh \<mapsto> RangeTab t)) us) =
      (Val (), v, q (g(nh \<mapsto> RangeTab (u (\<lambda>_. x) t))) (Snapshot nh (set_tab u (f t)) # us))"
    for f :: "NvRangeTab \<Rightarrow> 'f" and u x g t us
    unfolding q_def by (subst tab_set_open [where t = t]) simp_all
  have alloc: "\<exists>c. make_persistent_array L k ob (v, q (g(nh \<mapsto> t)) us) = (Val c, v, q (g(c \<mapsto> ob, nh \<mapsto> t)) (Allocated c # us)) \<and>
      c \<noteq> nh \<and> g c = None" if "finite (dom g)" for k ob g t us
  proof -
    have "finite (dom (g(nh \<mapsto> t)))" using that by simp
    then obtain c where c: "make_persistent_array L k ob (v, q (g(nh \<mapsto> t)) us) =
        (Val c, v, q (g(nh \<mapsto> t, c \<mapsto> ob)) (Allocated c # us))" "(g(nh \<mapsto> t)) c = None"
      unfolding q_def by (rule make_array_open)
    then have "c \<noteq> nh" "g c = None" by (auto split: if_splits)
    with c show ?thesis by (auto simp: fun_upd_twist)
  qed
  define t2 where "t2 = fresh_tab\<lparr>hash := hsh, prefixLen := of_nat (length pre)\<rparr>"
  define us2 where "us2 = Snapshot nh (set_tab prefixLen_update (prefixLen (fresh_tab\<lparr>hash := hsh\<rparr>))) #
    Snapshot nh (set_tab hash_update (hash fresh_tab)) # us"
  from alloc [OF fin, of "length pre + 1" "Bytes ?z" "RangeTab t2" us2] obtain pa where
    mk2: "make_persistent_array L (length pre + 1) (Bytes ?z) (v, q (?h1 t2) us2) =
      (Val pa, v, q (h(pa \<mapsto> Bytes ?z, nh \<mapsto> RangeTab t2)) (Allocated pa # us2))" and pa: "pa \<noteq> nh" "h pa = None" by blast
  have cp: "memcpy_to pa 0 (c_str pre) (v, q (h(pa \<mapsto> Bytes ?z, nh \<mapsto> t)) us) =
      (Val (), v, q (h(pa \<mapsto> Bytes (c_str pre), nh \<mapsto> t)) us)" for t us
    unfolding q_def by (subst memcpy_to_run [where bs = ?z])
       (use pa in \<open>simp_all add: c_str_def poke_def fun_upd_twist\<close>)
  define t7 where "t7 = t2\<lparr>prefix := pa, key_range := 0, chunk_num := 0, seq_num := seq0, bufSize := n\<rparr>"
  define us7 where "us7 = Snapshot nh (set_tab bufSize_update (bufSize (t2\<lparr>prefix := pa, key_range := 0, chunk_num := 0, seq_num := seq0\<rparr>))) #
    Snapshot nh (set_tab seq_num_update (seq_num (t2\<lparr>prefix := pa, key_range := 0, chunk_num := 0\<rparr>))) #
    Snapshot nh (set_tab chunk_num_update (chunk_num (t2\<lparr>prefix := pa, key_range := 0\<rparr>))) #
    Snapshot nh (set_tab key_range_update (key_range (t2\<lparr>prefix := pa\<rparr>))) #
    Snapshot nh (set_tab prefix_update (prefix t2)) # Allocated pa # us2"
  have "finite (dom (h(pa \<mapsto> Bytes (c_str pre))))" using fin by simp
  from alloc [OF this, of "unat n" ?b "RangeTab t7" us7] obtain ba where
    mk3: "make_persistent_array L (unat n) ?b (v, q (h(pa \<mapsto> Bytes (c_str pre), nh \<mapsto> RangeTab t7)) us7) =
      (Val ba, v, q (h(pa \<mapsto> Bytes (c_str pre), ba \<mapsto> ?b, nh \<mapsto> RangeTab t7)) (Allocated ba # us7))"
    and ba: "(h(pa \<mapsto> Bytes (c_str pre))) ba = None" by blast
  have new: "t7\<lparr>buf := ba, dataLen := 0\<rparr> = new_node hsh seq0 pre n pa ba 0"
    by (simp add: t7_def t2_def fresh_tab_def new_node_def)
  have "\<exists>us'. fill_node L seq0 hsh pre n nh (v, q h us) = (Val (), v, q (h(pa \<mapsto> Bytes (c_str pre), ba \<mapsto> ?b,
      nh \<mapsto> RangeTab (new_node hsh seq0 pre n pa ba 0))) us')"
    unfolding fill_node_def
    by (simp only: exec_simps s0 s1 mk2 [unfolded t2_def us2_def] cp mk3 [unfolded t7_def us7_def t2_def us2_def]
        new [unfolded t7_def t2_def]) blast
  with pa ba show ?thesis using that by (auto split: if_splits)
qed

lemma link_node_ok:
  fixes p :: pmem and h :: "nat \<rightharpoonup> pobj" and us :: "pobj undo list" and v :: 'v
  defines "q \<equiv> \<lambda>h us. (open_pool p)\<lparr>heap := h, undo_log := us\<rparr>"
  assumes t: "h nh = Some (RangeTab t)" and m: "h a = Some (HashMap m)" and xs: "h (tab m) = Some (NodeArray xs)"
    and l: "unat (ucast (tabLen m) :: u64) = k" and i: "unat hsh mod k < length xs" and k: "k \<noteq> 0"
  shows "\<exists>us'. link_node L a hsh head nh (v, q h us) = (Val (), v, q (h(nh \<mapsto> RangeTab (t\<lparr>next := head\<rparr>),
      tab m \<mapsto> NodeArray (xs[unat hsh mod k := nh]))) us')"
proof -
  have ne: "nh \<noteq> a" "nh \<noteq> tab m" using t m xs by auto
  let ?h = "h(nh \<mapsto> RangeTab (t\<lparr>next := head\<rparr>))" and ?w = "hsh mod ucast (tabLen m) :: u64"
  have w: "unat ?w = unat hsh mod k" by (simp add: unat_mod l)
  have "(ucast (tabLen m) :: u64) \<noteq> 0" using l k by (metis unat_0)
  then have mods: "mod_u64 hsh (ucast (tabLen m)) s = (Val ?w, s)" for s :: "'v \<times> pmem"
    by (simp add: mod_u64_def returnC_def)
  have s: "tab_set L nh next next_update head (v, q h us) =
      (Val (), v, q ?h (Snapshot nh (set_tab next_update (next t)) # us))" for us
    unfolding q_def by (subst tab_set_open [where t = t]) (simp_all add: t)
  have gets: "map_get a f (v, q ?h us) = (Val (f m), v, q ?h us)" for f :: "pmem_hash_map \<Rightarrow> 'f" and us
    unfolding q_def using m ne by (intro map_get_open) simp
  have g: "slot_get (tab m) ?w (v, q ?h us) = (Val (xs ! (unat hsh mod k)), v, q ?h us)" for us
    using xs ne i w by (simp add: slot_get_def with_heap_def slot_at_def q_def)
  have "slot_set L (tab m) ?w nh (v, q ?h us) = (Val (), v, q (?h(tab m \<mapsto> NodeArray (xs[unat hsh mod k := nh])))
      (Snapshot (tab m) (set_slot (unat hsh mod k) (xs ! (unat hsh mod k))) # us))" for us
    unfolding slot_set_def thenC_exec g prod.case outcome.case w
    unfolding q_def by (subst p_assign_open [where ob = "NodeArray xs" and y = "xs ! (unat hsh mod k)"]) (use xs ne i in simp_all)
  then show ?thesis
    unfolding link_node_def by (simp only: exec_simps s gets mods) blast
qed

text \<open>A new prefix: the node is built, linked at the head of its bucket, and nothing else changes.\<close>

lemma putAndGet_new:
  fixes pre :: "byte list" and v :: 'v
  assumes rep: "is_prefix_map a p nss" "nss \<noteq> []"
  defines "hsh \<equiv> CityHash64WithSeed E pre (of_nat (length pre)) 16"
  defines "i \<equiv> unat hsh mod length nss"
  assumes absent: "first_match (heap p) hsh pre (nss ! i) = 0"
  shows "\<exists>x p' pa ba head. putAndGet L E seq0 a pre n ((c, v), p) = (Val x, (x, v), p') \<and> x \<noteq> 0 \<and> heap p x = None \<and>
    is_prefix_map a p' (nss[i := x # nss ! i]) \<and> heap p' x = Some (RangeTab (new_node hsh seq0 pre n pa ba head)) \<and>
    heap p' pa = Some (Bytes (c_str pre)) \<and> heap p' ba = Some (Bytes (replicate (unat n) 0)) \<and>
    heap p pa = None \<and> heap p ba = None \<and> pa \<noteq> ba \<and>
    (\<forall>y ob. heap p y = Some ob \<longrightarrow> (\<forall>ys. ob \<noteq> NodeArray ys) \<longrightarrow> heap p' y = Some ob)"
proof -
  obtain m xs where m: "heap p a = Some (HashMap m)" and xs: "heap p (tab m) = Some (NodeArray xs)"
    and l: "unat (ucast (tabLen m) :: u64) = length nss" and nss: "list_all2 (nodes (heap p)) xs nss"
    and i: "i < length xs" and head: "bucket_head a hsh ((c, v), p) = (Val (xs ! i), (c, v), p)"
    unfolding i_def by (rule bucket_head_run [OF rep])
  let ?q = "\<lambda>h us. (open_pool p)\<lparr>heap := h, undo_log := us\<rparr>" and ?hd = "xs ! i"
  have fin: "finite (dom (heap p))" and idle: "idle p" using rep by (auto simp: is_prefix_map_def)
  have at: "nodes (heap p) ?hd (nss ! i)" using nss i by (simp add: list_all2_conv_all_nth)
  obtain x where mk: "make_persistent L 88 (RangeTab fresh_tab) (\<lambda>_. returnC ()) ((0 :: nat, v), ?q (heap p) []) =
      (Val x, (0, v), ?q ((heap p)(x \<mapsto> RangeTab fresh_tab)) [Allocated x])"
    and x: "x \<noteq> 0" "heap p x = None" by (rule make_node_open [OF fin])
  let ?h1 = "(heap p)(x \<mapsto> RangeTab fresh_tab)"
  have "finite (dom ?h1)" "?h1 x = Some (RangeTab fresh_tab)" using fin by simp_all
  then obtain pa ba us where fill: "fill_node L seq0 hsh pre n x ((0 :: nat, v), ?q ?h1 [Allocated x]) = (Val (), (0, v),
      ?q (?h1(pa \<mapsto> Bytes (c_str pre), ba \<mapsto> Bytes (replicate (unat n) 0), x \<mapsto> RangeTab (new_node hsh seq0 pre n pa ba 0))) us)"
    and pb: "?h1 pa = None" "?h1 ba = None" "pa \<noteq> ba" by (rule fill_node_ok)
  let ?h2 = "?h1(pa \<mapsto> Bytes (c_str pre), ba \<mapsto> Bytes (replicate (unat n) 0), x \<mapsto> RangeTab (new_node hsh seq0 pre n pa ba 0))"
  have ne: "x \<noteq> pa" "x \<noteq> ba" "heap p pa = None" "heap p ba = None" "a \<noteq> x" "a \<noteq> pa" "a \<noteq> ba" "tab m \<noteq> x" "tab m \<noteq> pa" "tab m \<noteq> ba" "a \<noteq> tab m"
    using x pb m xs by (auto split: if_splits)
  let ?t = "new_node hsh seq0 pre n pa ba ?hd"
  have t: "(new_node hsh seq0 pre n pa ba 0)\<lparr>next := ?hd\<rparr> = ?t" by (simp add: new_node_def)
  let ?h = "(heap p)(pa \<mapsto> Bytes (c_str pre), ba \<mapsto> Bytes (replicate (unat n) 0), x \<mapsto> RangeTab ?t, tab m \<mapsto> NodeArray (xs[i := x]))"
  have h: "?h2(x \<mapsto> RangeTab ?t, tab m \<mapsto> NodeArray (xs[i := x])) = ?h"
    using ne pb by (auto simp: fun_eq_iff)
  have "?h2 x = Some (RangeTab (new_node hsh seq0 pre n pa ba 0))" "?h2 a = Some (HashMap m)" "?h2 (tab m) = Some (NodeArray xs)"
    using ne m xs by simp_all
  from link_node_ok [where h = ?h2 and nh = x and a = a, OF this l i [unfolded i_def], where p = p and v = "(0 :: nat, v)" and us = us and head = ?hd]
  obtain us' where link: "link_node L a hsh ?hd x ((0 :: nat, v), ?q ?h2 us) = (Val (), (0, v), ?q ?h us')"
    using rep(2) t h by (auto simp: i_def)
  have "\<exists>p'. transaction_run L (bindC (put_body L seq0 a hsh pre n ?hd) (\<lambda>nh. vmod (\<lambda>(_, v). (nh, v)))) ((0, v), p) =
      (Val (), (x, v), p') \<and> idle p' \<and> heap p' = ?h"
    by (rule run_open [OF idle]) (simp only: put_body_def exec_simps mk fill link vmod_run prod.case)
  then obtain p' where tx: "transaction_run L (bindC (put_body L seq0 a hsh pre n ?hd) (\<lambda>nh. vmod (\<lambda>(_, v). (nh, v)))) ((0, v), p) =
      (Val (), (x, v), p')" and p': "idle p'" "heap p' = ?h" by blast
  have fn: "with_heap (\<lambda>h. loop_result (find_node h hsh pre ?hd)) ((c, v), p) = (Val 0, (c, v), p)"
    using find_node_first [OF at, of hsh pre] absent by (simp add: with_heap_def loop_result_def)
  have run: "putAndGet L E seq0 a pre n ((c, v), p) = (Val x, (x, v), p')"
    unfolding putAndGet_def Let_def hsh_def [symmetric]
    by (simp only: exec_simps head fn vmod_run prod.case simp_thms if_True tx vget_run fst_conv)
  have keep: "nodes ?h b as" if "nodes (heap p) b as" for b as
    using that by (rule nodes_cong) (use ne x xs in auto)
  have "nodes ?h x (x # nss ! i)"
    using keep [OF at] x ne pb(3) by (intro nodes_Cons [where t = ?t and bs = "c_str pre"]) (simp_all add: new_node_def c_str_def)
  moreover have "list_all2 (nodes ?h) xs nss" using nss by (rule list_all2_mono) (rule keep)
  ultimately have "list_all2 (nodes ?h) (xs[i := x]) (nss[i := x # nss ! i])" by (intro list_all2_update_cong)
  moreover have "length xs = unat (tabLen m)" using l list_all2_lengthD [OF nss] by (simp add: unat_ucast_u64)
  ultimately have "is_prefix_map a p' (nss[i := x # nss ! i])"
    using p' fin m ne by (auto simp: is_prefix_map_def)
  moreover have "\<forall>y ob. heap p y = Some ob \<longrightarrow> (\<forall>ys. ob \<noteq> NodeArray ys) \<longrightarrow> heap p' y = Some ob"
    using p'(2) x ne xs by auto
  ultimately show ?thesis using run x p' ne pb
    by (intro exI [of _ x] exI [of _ p'] exI [of _ pa] exI [of _ ba] exI [of _ ?hd]) simp
qed

end

section \<open>Properties\<close>

definition one_bucket :: pmem where
  "one_bucket = raw_map_pool\<lparr>heap := [1 \<mapsto> HashMap (raw_map\<lparr>tabLen := 1, tab := 2\<rparr>), 2 \<mapsto> NodeArray [0]]\<rparr>"

lemma one_bucket_prefix_map: "is_prefix_map 1 one_bucket [[]]"
  by (simp add: is_prefix_map_def one_bucket_def raw_map_pool_def idle_def nodes_Nil)

text \<open>A map with one bucket that holds the range for the prefix \<open>[65]\<close>, and one that holds the content 7.\<close>

definition one_range :: pmem where
  "one_range = raw_map_pool\<lparr>heap := [1 \<mapsto> HashMap (raw_map\<lparr>tabLen := 1, tab := 2\<rparr>), 2 \<mapsto> NodeArray [3],
     3 \<mapsto> RangeTab (new_node (CityHash64WithSeed default_rocksdb [65] 1 16) 1 [65] 0 4 5 0), 4 \<mapsto> Bytes [65, 0], 5 \<mapsto> Bytes []]\<rparr>"

lemma one_range_prefix_map: "is_prefix_map 1 one_range [[3]]"
proof -
  have "nodes (heap one_range) 3 [3]"
    by (rule nodes_Cons [where t = "new_node (CityHash64WithSeed default_rocksdb [65] 1 16) 1 [65] 0 4 5 0" and bs = "[65, 0]"])
       (simp_all add: one_range_def new_node_def nodes_Nil)
  then show ?thesis by (simp add: is_prefix_map_def) (simp add: one_range_def raw_map_pool_def idle_def)
qed

definition one_content :: pmem where
  "one_content = raw_map_pool\<lparr>heap := [1 \<mapsto> HashMap (raw_map\<lparr>tabLen := 1, tab := 2\<rparr>), 2 \<mapsto> NodeArray [3],
     3 \<mapsto> Node \<lparr>node_next = 0, p_content = 7\<rparr>]\<rparr>"

lemma one_content_map: "is_map 1 one_content [[7]]"
proof -
  have "chain (heap one_content) 3 [7]"
    using chain_Cons [of 3 "heap one_content" "\<lparr>node_next = 0, p_content = 7\<rparr>" "[]"]
    by (simp add: one_content_def chain_Nil)
  then show ?thesis by (simp add: is_map_def) (simp add: one_content_def raw_map_pool_def idle_def)
qed

lemma first_match_head: "node_matches h hsh key x \<Longrightarrow> first_match h hsh key (x # as) = x"
  by (simp add: first_match_def)

text \<open>C12: \<open>putAndGet\<close> of a prefix that is not in the map adds a range for it, and \<open>getNode\<close> then finds exactly
  that range: hash, prefix, capacity and an empty buffer of that capacity are as given.\<close>

theorem putAndGet_then_getNode:
  assumes "steady_env L E" and "is_prefix_map a p nss" and "nss \<noteq> []"
    and "getNode E a pre (of_nat (length pre)) ((c, v), p) = (Val 0, (c, v), p)"
  shows "\<exists>x p' t. putAndGet L E seq0 a pre n ((c, v), p) = (Val x, (x, v), p') \<and>
    getNode E a pre (of_nat (length pre)) ((x, v), p') = (Val x, (x, v), p') \<and>
    heap p x = None \<and> heap p' x = Some (RangeTab t) \<and> prefixLen t = of_nat (length pre) \<and>
    heap p' (prefix t) = Some (Bytes (pre @ [0])) \<and> bufSize t = n \<and> dataLen t = 0 \<and>
    heap p' (buf t) = Some (Bytes (replicate (unat n) 0))"
proof -
  let ?hsh = "CityHash64WithSeed E pre (of_nat (length pre)) 16" and ?i = "unat (CityHash64WithSeed E pre (of_nat (length pre)) 16) mod length nss"
  have absent: "first_match (heap p) ?hsh pre (nss ! ?i) = 0"
    using getNode_run [OF assms(2,3), of E pre "of_nat (length pre)" "(c, v)"] assms(4) by simp
  from steady_env.putAndGet_new [OF assms(1-3) absent, where ?seq0.0 = seq0 and n = n and c = c and v = v] obtain x p' pa ba head where
    run: "putAndGet L E seq0 a pre n ((c, v), p) = (Val x, (x, v), p')" and x: "heap p x = None"
    and map: "is_prefix_map a p' (nss[?i := x # nss ! ?i])"
    and node: "heap p' x = Some (RangeTab (new_node ?hsh seq0 pre n pa ba head))"
    and pre: "heap p' pa = Some (Bytes (c_str pre))" and buf: "heap p' ba = Some (Bytes (replicate (unat n) 0))" by blast
  let ?t = "new_node ?hsh seq0 pre n pa ba head"
  have t: "hash ?t = ?hsh" "prefix ?t = pa" "prefixLen ?t = of_nat (length pre)" "bufSize ?t = n" "dataLen ?t = 0" "buf ?t = ba"
    by (simp_all add: new_node_def)
  have "prefix_eq (heap p') pa pre = Val True"
    using pre t by (simp add: prefix_eq_terminated c_str_def)
  with node t have "node_matches (heap p') ?hsh pre x" by (simp add: node_matches_def)
  note found = first_match_head [OF this]
  have "0 < length nss" using assms(3) by simp
  then have "?i < length nss" by simp
  then have "getNode E a pre (of_nat (length pre)) ((x, v), p') = (Val x, (x, v), p')"
    using getNode_run [OF map, of E pre "of_nat (length pre)" "(x, v)"] assms(3) found by simp
  with run x node pre buf t show ?thesis by (fastforce simp: c_str_def)
qed

theorem putAndGet_then_getNode_witness:
  "\<exists>x p' t. putAndGet healthy default_rocksdb 1 1 [65, 66] 32 ((0, ()), one_bucket) = (Val x, (x, ()), p') \<and>
    getNode default_rocksdb 1 [65, 66] 2 ((x, ()), p') = (Val x, (x, ()), p') \<and>
    heap p' x = Some (RangeTab t) \<and> heap p' (prefix t) = Some (Bytes [65, 66, 0]) \<and> bufSize t = 32"
proof -
  have "getNode default_rocksdb 1 [65, 66] (of_nat (length [65, 66 :: byte])) ((0 :: nat, ()), one_bucket) = (Val 0, (0, ()), one_bucket)"
    using getNode_run [OF one_bucket_prefix_map, of default_rocksdb "[65, 66]" 2 "(0 :: nat, ())"]
    by (simp add: first_match_def)
  from putAndGet_then_getNode [OF nvm.steady_env_axioms one_bucket_prefix_map _ this, of 1 32] show ?thesis by fastforce
qed

text \<open>C33: A prefix is in the map at most once: \<open>putAndGet\<close> of a prefix that \<open>getNode\<close> finds returns the range
  it finds and changes nothing, whatever sequence number and capacity are asked for.\<close>

theorem putAndGet_idempotent:
  assumes "is_prefix_map a p nss" and "nss \<noteq> []"
    and "getNode E a pre (of_nat (length pre)) ((c, v), p) = (Val x, (c, v), p)" and "x \<noteq> 0"
  shows "putAndGet L E seq0 a pre n ((c, v), p) = (Val x, (x, v), p)"
  using getNode_run [OF assms(1,2), of E pre "of_nat (length pre)" "(c, v)"] assms(3)
  by (intro putAndGet_found [OF assms(1,2) _ assms(4)]) simp

theorem putAndGet_idempotent_witness:
  "putAndGet healthy default_rocksdb 1 1 [65] 32 ((0, ()), one_range) = (Val 3, (3, ()), one_range)"
proof -
  have "getNode default_rocksdb 1 [65] (of_nat (length [65 :: byte])) ((0 :: nat, ()), one_range) = (Val 3, (0, ()), one_range)"
    using getNode_run [OF one_range_prefix_map, of default_rocksdb "[65]" 1 "(0 :: nat, ())"]
    by (simp add: first_match_def node_matches_def one_range_def new_node_def prefix_eq_def c_str_def)
  from putAndGet_idempotent [OF one_range_prefix_map _ this] show ?thesis by simp
qed

text \<open>\<open>put\<close> of \<open>pmem_hash_map.cc\<close> loses data: when the bucket is not empty it stores nothing, changes no
  object, and still returns \<open>true\<close>.\<close>

theorem cc_put_drops_on_collision:
  assumes "is_map a p css" and "css \<noteq> []" and "hashCode c (v, p) = (Val hsh, v, p)"
    and "css ! (unat hsh mod length css) \<noteq> []"
  shows "cc_put L hashCode a c (v, p) = (Val True, v, p)"
proof -
  let ?i = "unat hsh mod length css"
  from assms obtain m xs where m: "heap p a = Some (HashMap m)" "heap p (tab m) = Some (NodeArray xs)"
    and len: "length xs = unat (tabLen m)" and css: "list_all2 (chain (heap p)) xs css" by (auto simp: is_map_def)
  have k: "length xs = length css" "length css \<noteq> 0" using list_all2_lengthD [OF css] assms(2) by simp_all
  note head = bucket_head_at [OF m len k]
  have "chain (heap p) (xs ! ?i) (css ! ?i)" using css head(2) by (simp add: list_all2_conv_all_nth)
  then have "xs ! ?i \<noteq> 0" using assms(4) by (cases rule: chain.cases) simp_all
  then show ?thesis
    by (simp add: cc_put_def exec_simps assms(3) head(3) [where v = v])
qed

theorem cc_put_drops_on_collision_witness:
  "cc_put healthy (\<lambda>_. returnC 0) 1 9 ((), one_content) = (Val True, (), one_content)"
  by (rule cc_put_drops_on_collision [OF one_content_map, where hsh = 0])
     (simp_all add: returnC_def)

end
