(* ===== verification/Write_Cache.thy ===== *)
theory Write_Cache
  imports Range_Tab_Correct Prefix_Map
begin

text \<open>
  The write cache \<open>FixedRangeChunkBasedNVMWriteCache\<close>
  (\<open>src/fixed_range_chunk_based_nvm_write_cache.h\<close> and \<open>.cc\<close>): it routes a chunk to the range of its
  prefix, creating the range in the persistent prefix map when there is none, answers look-ups through
  the range of the key's prefix, and queues ranges for compaction. Opening and closing the pool is the
  library's; the constructor starts from an open pool with its root object. The map from prefixes to
  ranges is a list of pairs in the iteration order of the \<open>unordered_map\<close>. Its values are declared as
  objects and used as pointers; both are the handle here, updated in place. The holes of the source
  (the number of buckets and the data space, both missing in the constructor, and the initial sequence
  number) are arguments, as are the contents of memory that is read before it is written (\<open>junk\<close>).
\<close>

section \<open>PersistentAllocator\<close>

definition alloc_ctor :: "nat \<Rightarrow> u64 \<Rightarrow> PersistentAllocator" where
  "alloc_ctor raw_space tsize = \<lparr>alloc_raw = raw_space, total_size = tsize, alloc_cur = 0\<rparr>"

text \<open>\<open>Allocate\<close> returns the position \<open>raw_ + cur_\<close> and advances; it checks nothing.\<close>

definition Allocate :: "pobj libpmemobj \<Rightarrow> nat \<Rightarrow> u64 \<Rightarrow> ('v, nat \<times> u64) prog" where
  "Allocate L a alloca_size =
     bindC (pread a (get_alloc alloc_raw)) (\<lambda>r.
     bindC (pread a (get_alloc alloc_cur)) (\<lambda>c.
     thenC (p_assign L a (get_alloc alloc_cur) (set_alloc alloc_cur_update) (c + alloca_size)) (returnC (r, c))))"

definition Remain :: "nat \<Rightarrow> ('v, u64) prog" where
  "Remain a =
     bindC (pread a (get_alloc total_size)) (\<lambda>t. bindC (pread a (get_alloc alloc_cur)) (\<lambda>c. returnC (t - c)))"

definition Capacity :: "nat \<Rightarrow> ('v, u64) prog" where
  "Capacity a = pread a (get_alloc total_size)"

section \<open>State\<close>

text \<open>A compaction item refers to a range by its prefix; \<open>None\<close> is \<open>nullptr\<close>.\<close>

record CompactionItem =
  pending_compated_range :: "byte list option"
  start_key :: "byte list"
  end_key :: "byte list"
  item_range_size :: u64
  item_chunk_num :: u64

record ChunkMeta =
  meta_prefix :: "byte list"
  cur_start :: "byte list"
  cur_end :: "byte list"

record WriteCache =
  pinfo :: nat
  prefix2range :: "(byte list \<times> FixedRangeTab) list"
  range_queue :: "CompactionItem list"

type_synonym 'a cache_op = "(WriteCache, 'a) prog"

text \<open>An operation of the range of prefix \<open>k\<close>.\<close>

fun put_range :: "byte list \<Rightarrow> FixedRangeTab \<Rightarrow> (byte list \<times> FixedRangeTab) list \<Rightarrow> (byte list \<times> FixedRangeTab) list" where
  "put_range k t [] = [(k, t)]"
| "put_range k t ((k', t') # kts) = (if k' = k then (k, t) # kts else (k', t') # put_range k t kts)"

definition on_range :: "byte list \<Rightarrow> 'a tab_op \<Rightarrow> 'a cache_op" where
  "on_range k m = (\<lambda>(v, p).
     case map_of (prefix2range v) k of
       None \<Rightarrow> (Die Null_deref, v, p)
     | Some t \<Rightarrow> (case m (t, p) of (r, t', p') \<Rightarrow>
         (r, v\<lparr>prefix2range := put_range k t' (prefix2range v)\<rparr>, p')))"

text \<open>\<open>new FixedRangeTab(pop, node, options)\<close>: memory that held \<open>junk\<close>, then the constructor.\<close>

definition new_FixedRangeTab :: "rocksdb \<Rightarrow> FixedRangeTab \<Rightarrow> nat \<Rightarrow> FixedRangeTab cache_op" where
  "new_FixedRangeTab E junk a = (\<lambda>(v, p).
     case FixedRangeTab_ctor E a (junk, p) of
       (Val _, t, p') \<Rightarrow> (Val t, v, p')
     | (Throw e, t, p') \<Rightarrow> (Throw e, v, p')
     | (Die f, t, p') \<Rightarrow> (Die f, v, p'))"

text \<open>A statement with one local variable, initially 0.\<close>

definition with_local :: "(nat \<times> 'v, 'a) prog \<Rightarrow> ('v, 'a) prog" where
  "with_local m = (\<lambda>(v, p). case m ((0, v), p) of (r, (_, v'), p') \<Rightarrow> (r, v', p'))"

section \<open>Operations\<close>

definition cache_Get :: "rocksdb \<Rightarrow> byte list \<Rightarrow> get_status cache_op" where
  "cache_Get E key =
     (let pre = prefix_extractor E key in
      bindC (vget prefix2range) (\<lambda>ranges.
        if map_of ranges pre = None then returnC NotFound else on_range pre (tab_Get E key)))"

definition range_buf_size :: u64 where "range_buf_size = 2 ^ 26"

definition NewRange :: "pobj libpmemobj \<Rightarrow> rocksdb \<Rightarrow> u64 \<Rightarrow> FixedRangeTab \<Rightarrow> byte list \<Rightarrow> unit cache_op" where
  "NewRange L E seq0 junk pre =
     bindC (vget pinfo) (\<lambda>info.
     bindC (pread info (get_info range_map)) (\<lambda>rm.
     bindC (with_local (putAndGet L E seq0 rm pre range_buf_size)) (\<lambda>node.
     bindC (new_FixedRangeTab E junk node) (\<lambda>range.
       vmod (\<lambda>v. if map_of (prefix2range v) pre = None
                 then v\<lparr>prefix2range := prefix2range v @ [(pre, range)]\<rparr> else v)))))"

definition AppendToRange ::
  "pobj libpmemobj \<Rightarrow> rocksdb \<Rightarrow> u64 \<Rightarrow> FixedRangeTab \<Rightarrow> byte list \<Rightarrow> byte list \<Rightarrow> ChunkMeta \<Rightarrow> unit cache_op" where
  "AppendToRange L E seq0 junk bloom_data chunk_data meta =
     bindC (vget prefix2range) (\<lambda>ranges.
     thenC
       (if map_of ranges (meta_prefix meta) = None then NewRange L E seq0 junk (meta_prefix meta) else returnC ())
       (on_range (meta_prefix meta) (Append L E bloom_data chunk_data (cur_start meta) (cur_end meta))))"

text \<open>Doubles, as the sources use them: a 64-bit count compared with 0.75 times another.\<close>

definition round53 :: "nat \<Rightarrow> nat" where
  "round53 m = (let k = bit_length m - 53 in if k = 0 then m else round_even k m * 2 ^ k)"

definition below_three_quarters :: "u64 \<Rightarrow> u64 \<Rightarrow> bool" where
  "below_three_quarters x y \<longleftrightarrow> 4 * round53 (unat x) < round53 (3 * round53 (unat y))"

text \<open>
  The loop of \<open>MaybeNeedCompaction\<close>: the running maximum \<open>max_range_size\<close> is compared but never
  assigned, so it stays 0.
\<close>

fun pick_range ::
  "rocksdb \<Rightarrow> (byte list \<times> FixedRangeTab) list \<Rightarrow> u64 \<Rightarrow> byte list option \<times> Usage \<Rightarrow> ('v, byte list option \<times> Usage) prog" where
  "pick_range E [] max_size best = returnC best"
| "pick_range E ((k, t) # kts) max_size best =
     bindC (RangeUsage E (nonVolatileTab t)) (\<lambda>u.
       pick_range E kts max_size (if max_size < range_size u then (Some k, u) else best))"

definition MaybeNeedCompaction :: "rocksdb \<Rightarrow> Usage \<Rightarrow> unit cache_op" where
  "MaybeNeedCompaction E junk =
     bindC (vget pinfo) (\<lambda>info.
     bindC (pread info (get_info allocator)) (\<lambda>al.
     bindC (Remain al) (\<lambda>rem.
     bindC (Capacity al) (\<lambda>cap.
       if below_three_quarters rem cap
       then bindC (vget prefix2range) (\<lambda>ranges.
            bindC (pick_range E ranges 0 (None, junk)) (\<lambda>(pendding_range, u).
              vmod (\<lambda>v. v\<lparr>range_queue := range_queue v @
                [\<lparr>pending_compated_range = pendding_range, start_key = usage_start u, end_key = usage_end u,
                  item_range_size = range_size u, item_chunk_num = usage_chunk_num u\<rparr>]\<rparr>)))
       else returnC ()))))"

definition NeedCompaction :: "bool cache_op" where
  "NeedCompaction = bindC (vget range_queue) (\<lambda>q. returnC (q \<noteq> []))"

text \<open>\<open>front()\<close> of an empty queue is out of bounds; the item is not popped.\<close>

definition GetCompactionData :: "CompactionItem cache_op" where
  "GetCompactionData = bindC (vget range_queue) (\<lambda>q. case q of [] \<Rightarrow> dieC Out_of_bounds | x # _ \<Rightarrow> returnC x)"

definition GetRangeList :: "(byte list \<times> FixedRangeTab) list cache_op" where
  "GetRangeList = vget prefix2range"

fun range_iterators ::
  "rocksdb \<Rightarrow> bool \<Rightarrow> PersistentChunk \<Rightarrow> (byte list \<times> FixedRangeTab) list \<Rightarrow> PersistentChunkIterator list list cache_op" where
  "range_iterators E arena pchk [] = returnC []"
| "range_iterators E arena pchk ((k, t) # kts) =
     bindC (on_range k (NewInternalIterator E arena pchk)) (\<lambda>it.
     bindC (range_iterators E arena pchk kts) (\<lambda>its. returnC (it # its)))"

definition NewIterator :: "rocksdb \<Rightarrow> bool \<Rightarrow> PersistentChunk \<Rightarrow> PersistentChunkIterator list list cache_op" where
  "NewIterator E arena pchk = bindC (vget prefix2range) (range_iterators E arena pchk)"

text \<open>One iteration of the \<open>do ... while\<close> loop over a bucket; the result is the next node.\<close>

definition rebuild_node :: "rocksdb \<Rightarrow> FixedRangeTab \<Rightarrow> nat \<Rightarrow> nat cache_op" where
  "rebuild_node E junk tmp =
     bindC (new_FixedRangeTab E junk tmp) (\<lambda>recovered_tab.
     bindC (tab_get tmp prefix) (\<lambda>pa.
     bindC (tab_get tmp prefixLen) (\<lambda>n.
     bindC (pread pa get_bytes) (\<lambda>bs.
     bindC (liftO (read_n (unat n) bs)) (\<lambda>pre.
     thenC (vmod (\<lambda>v. v\<lparr>prefix2range := put_range pre recovered_tab (prefix2range v)\<rparr>))
       (tab_get tmp next))))))"

partial_function (option) rebuild_bucket ::
  "rocksdb \<Rightarrow> FixedRangeTab \<Rightarrow> nat \<Rightarrow> WriteCache \<times> pmem \<Rightarrow> (unit outcome \<times> WriteCache \<times> pmem) option" where
  "rebuild_bucket E junk tmp s =
     (case rebuild_node E junk tmp s of
        (Val nx, s') \<Rightarrow> if nx = 0 then Some (Val (), s') else rebuild_bucket E junk nx s'
      | (Throw e, s') \<Rightarrow> Some (Throw e, s')
      | (Die f, s') \<Rightarrow> Some (Die f, s'))"

fun rebuild_buckets :: "rocksdb \<Rightarrow> FixedRangeTab \<Rightarrow> nat \<Rightarrow> nat \<Rightarrow> nat \<Rightarrow> unit cache_op" where
  "rebuild_buckets E junk ta i 0 = returnC ()"
| "rebuild_buckets E junk ta i (Suc n) =
     bindC (with_heap (\<lambda>h. slot_at h ta i)) (\<lambda>pnode.
     thenC
       (if pnode \<noteq> 0
        then (\<lambda>s. case rebuild_bucket E junk pnode s of None \<Rightarrow> (Die Diverges, s) | Some rs \<Rightarrow> rs)
        else returnC ())
       (rebuild_buckets E junk ta (Suc i) n))"

definition RebuildFromPersistentNode :: "rocksdb \<Rightarrow> FixedRangeTab \<Rightarrow> unit cache_op" where
  "RebuildFromPersistentNode E junk =
     bindC (vget pinfo) (\<lambda>info.
     bindC (pread info (get_info range_map)) (\<lambda>rm.
     bindC (map_get rm tabLen) (\<lambda>hash_map_size.
     bindC (map_get rm tab) (\<lambda>ta.
       rebuild_buckets E junk ta 0 (unat hash_map_size)))))"

text \<open>
  The constructor on an open pool with its root at \<open>root\<close>. \<open>pinfo_\<close> is null until it is assigned inside
  the branch that its own member selects.
\<close>

definition cache_init ::
  "pobj libpmemobj \<Rightarrow> nat \<Rightarrow> u32 \<Rightarrow> nat \<Rightarrow> u64 \<Rightarrow> unit cache_op" where
  "cache_init L root buckets data_space pmem_size =
     transaction_run L
       (bindC (make_persistent L 48 (HashMap \<lparr>tabLen = 0, tab = 0, loadFactor = (0, 0), threshold = 0, map_size = 0\<rparr>) (\<lambda>_. returnC ())) (\<lambda>rm.
        thenC (map_set L rm tabLen tabLen_update buckets)
        (bindC (make_persistent_array L (16 * unat buckets) (NodeArray (replicate (unat buckets) 0))) (\<lambda>ta.
         thenC (map_set L rm tab tab_update ta)
         (thenC (map_set L rm loadFactor loadFactor_update (3, 2))
         (bindC (liftO (u32_of_f32 (f32_mult (f32_of_u32 buckets) (3, 2)))) (\<lambda>th.
          thenC (map_set L rm threshold threshold_update th)
          (thenC (map_set L rm map_size map_size_update 0)
          (thenC (p_assign L root (get_info range_map) (set_info range_map_update) rm)
          (bindC (make_persistent L 32 (Allocator (alloc_ctor data_space pmem_size)) (\<lambda>_. returnC ())) (\<lambda>al.
           thenC (p_assign L root (get_info allocator) (set_info allocator_update) al)
             (p_assign L root (get_info inited) (set_info inited_update) True))))))))))))"

definition WriteCache_ctor ::
  "pobj libpmemobj \<Rightarrow> rocksdb \<Rightarrow> FixedRangeTab \<Rightarrow> nat \<Rightarrow> u32 \<Rightarrow> nat \<Rightarrow> u64 \<Rightarrow> unit cache_op" where
  "WriteCache_ctor L E junk root buckets data_space pmem_size =
     thenC (vmod (\<lambda>v. v\<lparr>pinfo := 0, prefix2range := [], range_queue := []\<rparr>))
     (bindC (vget pinfo) (\<lambda>info.
      bindC (pread info (get_info inited)) (\<lambda>ini.
        if \<not> ini
        then thenC (vmod (\<lambda>v. v\<lparr>pinfo := root\<rparr>)) (cache_init L root buckets data_space pmem_size)
        else RebuildFromPersistentNode E junk)))"

section \<open>Ranges of the cache\<close>

lemma map_of_put_range [simp]: "map_of (put_range k t kts) = (map_of kts)(k \<mapsto> t)"
  by (induction kts) (auto simp: fun_eq_iff)

lemma put_range_same: "map_of kts k = Some t \<Longrightarrow> put_range k t kts = kts"
  by (induction kts) auto

lemma put_range_twice [simp]: "put_range k t (put_range k t' kts) = put_range k t kts"
  by (induction kts) auto

lemma on_range_run:
  assumes "map_of (prefix2range v) k = Some t" and "m (t, p) = (r, t', p')"
  shows "on_range k m (v, p) = (r, v\<lparr>prefix2range := put_range k t' (prefix2range v)\<rparr>, p')"
  using assms by (simp add: on_range_def)

text \<open>A look-up through the handle of the key's prefix leaves the cache as it is.\<close>

lemma cache_Get_run:
  assumes "map_of (prefix2range v) (prefix_extractor E key) = Some t" and "tab_Get E key (t, p) = (r, t, p)"
  shows "cache_Get E key (v, p) = (r, v, p)"
proof -
  have "on_range (prefix_extractor E key) (tab_Get E key) (v, p) = (r, v, p)"
    using on_range_run [where m = "tab_Get E key", OF assms] put_range_same [OF assms(1)] by simp
  then show ?thesis using assms(1) by (simp add: cache_Get_def Let_def exec_simps vget_run)
qed

text \<open>Writing a buffer keeps the prefix map, as long as the bytes hold a terminator.\<close>

lemma nodes_bytes:
  assumes "nodes h x as" and "h ba = Some (Bytes c)" and "0 \<in> set b"
  shows "nodes (h(ba \<mapsto> Bytes b)) x as"
  using assms(1)
proof (induction rule: nodes.induct)
  case (nodes_Cons x t bs as)
  then have "x \<noteq> ba" using assms(2) by auto
  with nodes_Cons assms(3) show ?case
    by (intro nodes.nodes_Cons [where t = t and bs = "if prefix t = ba then b else bs"]) auto
qed (rule nodes.nodes_Nil)

lemma is_prefix_map_bytes:
  assumes "is_prefix_map rm p nss" and "heap p ba = Some (Bytes c)" and "0 \<in> set b"
  shows "is_prefix_map rm (p\<lparr>heap := (heap p)(ba \<mapsto> Bytes b)\<rparr>) nss"
proof -
  from assms(1) obtain m xs where m: "heap p rm = Some (HashMap m)" "heap p (tab m) = Some (NodeArray xs)"
    "length xs = unat (tabLen m)" "list_all2 (nodes (heap p)) xs nss" and i: "idle p" "finite (dom (heap p))"
    by (auto simp: is_prefix_map_def)
  have "list_all2 (nodes ((heap p)(ba \<mapsto> Bytes b))) xs nss"
    using m(4) by (rule list_all2_mono) (rule nodes_bytes [where h = "heap p", OF _ assms(2,3)])
  moreover have "ba \<noteq> rm" "ba \<noteq> tab m" using m assms(2) by auto
  ultimately show ?thesis using m i by (auto simp: is_prefix_map_def idle_def)
qed

lemma zero_in_tail: "drop 16 b = replicate n 0 \<Longrightarrow> 0 < n \<Longrightarrow> 0 \<in> set b"
  by (metis in_set_dropD in_set_replicate less_irrefl)

context steady_env
begin

lemma Append_cache_get:
  assumes range: "map_of (prefix2range v) k = Some h" and pre: "prefix_extractor E key = k"
    and app: "\<exists>w p'. Append L E bloom chunk s e (h, p) = (Val (), w, p') \<and> tab_Get E key (w, p') = (Val (OK val), w, p')"
  shows "\<exists>w p'. on_range k (Append L E bloom chunk s e) (v, p) = (Val (), w, p') \<and> cache_Get E key (w, p') = (Val (OK val), w, p')"
proof -
  from app obtain h' p' where run: "Append L E bloom chunk s e (h, p) = (Val (), h', p')"
    and get: "tab_Get E key (h', p') = (Val (OK val), h', p')" by blast
  let ?w = "v\<lparr>prefix2range := put_range k h' (prefix2range v)\<rparr>"
  have "on_range k (Append L E bloom chunk s e) (v, p) = (Val (), ?w, p')"
    by (rule on_range_run [where m = "Append L E bloom chunk s e", OF range run])
  moreover have "cache_Get E key (?w, p') = (Val (OK val), ?w, p')"
    by (rule cache_Get_run [OF _ get]) (simp add: pre)
  ultimately show ?thesis by blast
qed

text \<open>A new handle over a fresh table of the map: header zeroed, no blocks.\<close>

lemma new_FixedRangeTab_fresh:
  assumes tab: "heap p x = Some (RangeTab t)" and seq: "seq_num t = 0" and buf: "heap p (buf t) = Some (Bytes b)"
    and len: "16 \<le> length b"
  shows "\<exists>b'. length b' = length b \<and> drop 16 b' = drop 16 b \<and> new_FixedRangeTab E junk x (v, p) =
    (Val (junk\<lparr>nonVolatileTab := x, blklist := [], pendding_clean := 0, raw := (buf t, 16), in_compaction := False\<rparr>),
     v, p\<lparr>heap := (heap p)(buf t \<mapsto> Bytes b')\<rparr>)"
proof -
  obtain b1 b2 where p1: "poke b 0 (EncodeFixed64 E 0) = Some b1" and p2: "poke b1 8 (EncodeFixed64 E 0) = Some b2"
    using len by (simp add: poke_def)
  have "length b2 = length b" using poke_length [OF p1] poke_length [OF p2] by simp
  moreover have "drop 16 b2 = drop 16 b" using p1 p2 len by (auto simp: poke_Some_iff)
  moreover have "FixedRangeTab_ctor E x (junk, p) =
      (Val (), junk\<lparr>nonVolatileTab := x, blklist := [], pendding_clean := 0, raw := (buf t, 16), in_compaction := False\<rparr>,
       p\<lparr>heap := (heap p)(buf t \<mapsto> Bytes b2)\<rparr>)"
    using tab seq buf p1 p2
    by (simp add: FixedRangeTab_ctor_def exec_simps vmod_run pread_def memcpy_to_run)
  ultimately show ?thesis by (auto simp: new_FixedRangeTab_def)
qed

lemma NewRange_frame:
  assumes info: "heap p (pinfo v) = Some (Info pin)" and rep: "is_prefix_map (range_map pin) p nss" "nss \<noteq> []"
    and new: "map_of (prefix2range v) pre = None"
    and absent: "getNode E (range_map pin) pre (of_nat (length pre)) ((0 :: nat, v), p) = (Val 0, (0, v), p)"
  defines "i \<equiv> unat (CityHash64WithSeed E pre (of_nat (length pre)) 16) mod length nss"
  shows "\<exists>h t b p'. NewRange L E 0 junk pre (v, p) = (Val (), v\<lparr>prefix2range := prefix2range v @ [(pre, h)]\<rparr>, p') \<and>
    is_prefix_map (range_map pin) p' (nss[i := nonVolatileTab h # nss ! i]) \<and>
    heap p' (nonVolatileTab h) = Some (RangeTab t) \<and> blklist h = [] \<and>
    heap p' (buf t) = Some (Bytes b) \<and> length b = unat range_buf_size \<and> key_range t = 0 \<and> dataLen t = 0 \<and>
    seq_num t = 0 \<and> prefixLen t = of_nat (length pre) \<and>
    heap p' (prefix t) = Some (Bytes (c_str pre)) \<and> buf t \<noteq> prefix t \<and>
    heap p (nonVolatileTab h) = None \<and> heap p (buf t) = None \<and> heap p (prefix t) = None \<and>
    (\<forall>y ob. heap p y = Some ob \<longrightarrow> (\<forall>ys. ob \<noteq> NodeArray ys) \<longrightarrow> heap p' y = Some ob)"
proof -
  let ?hsh = "CityHash64WithSeed E pre (of_nat (length pre)) 16"
  have first: "first_match (heap p) ?hsh pre (nss ! (unat ?hsh mod length nss)) = 0"
    using getNode_run [OF rep, of E pre "of_nat (length pre)" "(0 :: nat, v)"] absent by simp
  from putAndGet_new [OF rep first, where ?seq0.0 = 0 and n = range_buf_size and c = 0 and v = v] obtain x p1 pa ba head where
    put: "putAndGet L E 0 (range_map pin) pre range_buf_size ((0, v), p) = (Val x, (x, v), p1)"
    and p1: "is_prefix_map (range_map pin) p1 (nss[i := x # nss ! i])"
      "heap p1 x = Some (RangeTab (new_node ?hsh 0 pre range_buf_size pa ba head))"
      "heap p1 ba = Some (Bytes (replicate (unat range_buf_size) 0))" "heap p1 pa = Some (Bytes (c_str pre))"
    and fresh: "heap p x = None" "heap p pa = None" "heap p ba = None" "pa \<noteq> ba"
    and keep: "\<forall>y ob. heap p y = Some ob \<longrightarrow> (\<forall>ys. ob \<noteq> NodeArray ys) \<longrightarrow> heap p1 y = Some ob" unfolding i_def by blast
  let ?t = "new_node ?hsh 0 pre range_buf_size pa ba head"
  have t: "seq_num ?t = 0" "buf ?t = ba" "key_range ?t = 0" "dataLen ?t = 0" "prefix ?t = pa" "prefixLen ?t = of_nat (length pre)" by (simp_all add: new_node_def)
  have size: "16 \<le> unat range_buf_size" by (simp add: range_buf_size_def)
  from new_FixedRangeTab_fresh [OF p1(2) t(1), unfolded t(2), OF p1(3), of junk v] size obtain b where
    b: "length b = unat range_buf_size" "drop 16 b = drop 16 (replicate (unat range_buf_size) 0)" and nw: "new_FixedRangeTab E junk x (v, p1) =
      (Val (junk\<lparr>nonVolatileTab := x, blklist := [], pendding_clean := 0, raw := (ba, 16), in_compaction := False\<rparr>),
       v, p1\<lparr>heap := (heap p1)(ba \<mapsto> Bytes b)\<rparr>)" by auto
  let ?h = "junk\<lparr>nonVolatileTab := x, blklist := [], pendding_clean := 0, raw := (ba, 16), in_compaction := False\<rparr>"
  let ?p2 = "p1\<lparr>heap := (heap p1)(ba \<mapsto> Bytes b)\<rparr>"
  have wl: "with_local (putAndGet L E 0 (range_map pin) pre range_buf_size) (v, p) = (Val x, v, p1)"
    by (simp add: with_local_def put)
  have pin_run: "pread (pinfo v) (get_info range_map) (v, p) = (Val (range_map pin), v, p)" using info by (simp add: pread_def)
  have "NewRange L E 0 junk pre (v, p) = (Val (), v\<lparr>prefix2range := prefix2range v @ [(pre, ?h)]\<rparr>, ?p2)"
    unfolding NewRange_def by (simp only: exec_simps vget_run pin_run wl nw vmod_run new simp_thms if_True)
  moreover have "x \<noteq> ba" using p1 by auto
  moreover have "is_prefix_map (range_map pin) ?p2 (nss[i := x # nss ! i])"
    by (rule is_prefix_map_bytes [OF p1(1,3)]) (use b(2) in \<open>simp add: range_buf_size_def zero_in_tail\<close>)
  moreover have "\<forall>y ob. heap p y = Some ob \<longrightarrow> (\<forall>ys. ob \<noteq> NodeArray ys) \<longrightarrow> heap ?p2 y = Some ob" using keep fresh by auto
  ultimately show ?thesis
    using p1(2,4) b(1) t fresh by (intro exI [of _ ?h] exI [of _ ?t] exI [of _ b] exI [of _ ?p2]) simp
qed

lemma NewRange_ok:
  assumes "heap p (pinfo v) = Some (Info pin)" and "is_prefix_map (range_map pin) p nss" and "nss \<noteq> []"
    and "map_of (prefix2range v) pre = None"
    and "getNode E (range_map pin) pre (of_nat (length pre)) ((0 :: nat, v), p) = (Val 0, (0, v), p)"
  shows "\<exists>h t b p'. NewRange L E 0 junk pre (v, p) = (Val (), v\<lparr>prefix2range := prefix2range v @ [(pre, h)]\<rparr>, p') \<and>
    idle p' \<and> finite (dom (heap p')) \<and> heap p' (nonVolatileTab h) = Some (RangeTab t) \<and> blklist h = [] \<and>
    heap p' (buf t) = Some (Bytes b) \<and> length b = unat range_buf_size \<and> key_range t = 0 \<and> dataLen t = 0"
  using NewRange_frame [OF assms, of junk] by (fastforce simp: is_prefix_map_def)

end

section \<open>Rebuilding the handles\<close>

text \<open>
  A table that the constructor of its handle accepts: a sequence number that selects the rebuild, and a
  buffer whose blocks are \<open>blks\<close>; its stored prefix is \<open>pre\<close>.
\<close>

definition stored_range :: "rocksdb \<Rightarrow> (nat \<rightharpoonup> pobj) \<Rightarrow> nat \<Rightarrow> byte list \<Rightarrow> ChunkBlk list \<Rightarrow> bool" where
  "stored_range E h a pre blks \<longleftrightarrow> (\<exists>t b bs. h a = Some (RangeTab t) \<and> seq_num t \<noteq> 0 \<and>
     h (buf t) = Some (Bytes b) \<and> length b < 2 ^ 64 \<and> blocks_at E b 16 blks (unat (dataLen t)) \<and>
     h (prefix t) = Some (Bytes bs) \<and> unat (prefixLen t) \<le> length bs \<and> take (unat (prefixLen t)) bs = pre)"

definition recovered :: "FixedRangeTab \<Rightarrow> nat \<Rightarrow> ChunkBlk list \<Rightarrow> FixedRangeTab" where
  "recovered junk a blks = junk\<lparr>nonVolatileTab := a, blklist := blks, pendding_clean := 0\<rparr>"

definition add_ranges ::
  "FixedRangeTab \<Rightarrow> (nat \<times> byte list \<times> ChunkBlk list) list \<Rightarrow> WriteCache \<Rightarrow> WriteCache" where
  "add_ranges junk rs v = v\<lparr>prefix2range :=
     fold (\<lambda>(a, pre, blks). put_range pre (recovered junk a blks)) rs (prefix2range v)\<rparr>"

context coding64
begin

lemma rebuild_node_ok:
  assumes "stored_range E (heap p) a pre blks"
  shows "\<exists>t. heap p a = Some (RangeTab t) \<and>
    rebuild_node E junk a (v, p) = (Val (next t), add_ranges junk [(a, pre, blks)] v, p)"
proof -
  from assms obtain t b bs where t: "heap p a = Some (RangeTab t)" "seq_num t \<noteq> 0" "heap p (buf t) = Some (Bytes b)"
    "length b < 2 ^ 64" "blocks_at E b 16 blks (unat (dataLen t))"
    and pre: "heap p (prefix t) = Some (Bytes bs)" "unat (prefixLen t) \<le> length bs" "take (unat (prefixLen t)) bs = pre"
    by (auto simp: stored_range_def)
  let ?w = "junk\<lparr>nonVolatileTab := a, blklist := [], pendding_clean := 0\<rparr>"
  have "RebuildBlkList E (?w, p) = (Val (), ?w\<lparr>blklist := [] @ blks\<rparr>, p)"
    using RebuildBlkList_blocks [of p ?w t b blks] t by simp
  then have "FixedRangeTab_ctor E a (junk, p) = (Val (), recovered junk a blks, p)"
    using t by (simp add: FixedRangeTab_ctor_def exec_simps vmod_run pread_def recovered_def)
  then have "rebuild_node E junk a (v, p) = (Val (next t), add_ranges junk [(a, pre, blks)] v, p)"
    using t pre
    by (simp add: rebuild_node_def exec_simps new_FixedRangeTab_def pread_def read_n_def peek_def vmod_run add_ranges_def)
  with t show ?thesis by blast
qed

lemma rebuild_bucket_ok:
  assumes "nodes (heap p) a as" and "a \<noteq> 0" and "list_all2 (\<lambda>x (y, pre, blks). y = x \<and> stored_range E (heap p) x pre blks) as rs"
  shows "rebuild_bucket E junk a (v, p) = Some (Val (), add_ranges junk rs v, p)"
  using assms
proof (induction arbitrary: rs v rule: nodes.induct)
  case (nodes_Cons a t bs as)
  then obtain pre blks rs' where rs: "rs = (a, pre, blks) # rs'" "stored_range E (heap p) a pre blks"
    "list_all2 (\<lambda>x (y, pre, blks). y = x \<and> stored_range E (heap p) x pre blks) as rs'"
    by (auto simp: list_all2_Cons1)
  have node: "rebuild_node E junk a (v, p) = (Val (next t), add_ranges junk [(a, pre, blks)] v, p)"
    using rebuild_node_ok [OF rs(2), of junk v] nodes_Cons.hyps(2) by auto
  have add: "add_ranges junk rs' (add_ranges junk [(a, pre, blks)] v) = add_ranges junk rs v"
    by (simp add: add_ranges_def rs(1))
  show ?case
  proof (cases "next t = 0")
    case True
    with nodes_Cons.hyps have "as = []" by (auto elim: nodes.cases)
    with rs True node show ?thesis by (subst rebuild_bucket.simps) simp
  next
    case False
    from nodes_Cons.IH [OF False rs(3)] node False add show ?thesis by (subst rebuild_bucket.simps) simp
  qed
qed simp

lemma rebuild_buckets_ok:
  assumes "heap p ta = Some (NodeArray xs)" and "list_all2 (nodes (heap p)) (drop i xs) nss"
    and "list_all2 (list_all2 (\<lambda>x (y, pre, blks). y = x \<and> stored_range E (heap p) x pre blks)) nss rss"
  shows "rebuild_buckets E junk ta i (length nss) (v, p) = (Val (), add_ranges junk (concat rss) v, p)"
  using assms(2,3)
proof (induction nss arbitrary: i rss v rule: list.induct)
  case Nil
  then show ?case by (simp add: returnC_def add_ranges_def)
next
  case (Cons ns nss)
  then have i: "i < length xs" by (auto dest: list_all2_lengthD)
  then have "drop i xs = xs ! i # drop (Suc i) xs" by (simp add: Cons_nth_drop_Suc)
  with Cons.prems have n: "nodes (heap p) (xs ! i) ns" and r: "list_all2 (nodes (heap p)) (drop (Suc i) xs) nss" by simp_all
  from Cons.prems obtain rs rss' where rs: "rss = rs # rss'" "list_all2 (\<lambda>x (y, pre, blks). y = x \<and> stored_range E (heap p) x pre blks) ns rs"
    "list_all2 (list_all2 (\<lambda>x (y, pre, blks). y = x \<and> stored_range E (heap p) x pre blks)) nss rss'"
    by (auto simp: list_all2_Cons1)
  have slot: "with_heap (\<lambda>h. slot_at h ta i) (v, p) = (Val (xs ! i), v, p)"
    using i assms(1) by (simp add: with_heap_def slot_at_def)
  have add: "add_ranges junk (concat rss') (add_ranges junk rs v) = add_ranges junk (concat rss) v"
    by (simp add: add_ranges_def rs(1))
  note IH = Cons.IH [OF r rs(3)]
  show ?case
  proof (cases "xs ! i = 0")
    case True
    with n have "ns = []" by (auto elim: nodes.cases)
    with rs have "rs = []" by simp
    then have "add_ranges junk rs v = v" by (simp add: add_ranges_def)
    with True slot IH [of v] add show ?thesis by (simp add: exec_simps)
  next
    case False
    with slot rebuild_bucket_ok [OF n False rs(2), of junk v] IH [of "add_ranges junk rs v"] add show ?thesis
      by (simp add: exec_simps)
  qed
qed

lemma RebuildFromPersistentNode_ok:
  assumes "heap p (pinfo v) = Some (Info pin)" and "is_prefix_map (range_map pin) p nss"
    and "list_all2 (list_all2 (\<lambda>x (y, pre, blks). y = x \<and> stored_range E (heap p) x pre blks)) nss rss"
  shows "RebuildFromPersistentNode E junk (v, p) = (Val (), add_ranges junk (concat rss) v, p)"
proof -
  from assms(2) obtain m xs where m: "heap p (range_map pin) = Some (HashMap m)" "heap p (tab m) = Some (NodeArray xs)"
    "length xs = unat (tabLen m)" "list_all2 (nodes (heap p)) xs nss" by (auto simp: is_prefix_map_def)
  have "length nss = unat (tabLen m)" using m(3) list_all2_lengthD [OF m(4)] by simp
  with rebuild_buckets_ok [OF m(2) _ assms(3), of 0 junk v] m assms(1) show ?thesis
    by (simp add: RebuildFromPersistentNode_def exec_simps vget_run pread_def)
qed

end

section \<open>The pick of MaybeNeedCompaction\<close>

lemma RangeUsage_plain:
  assumes "heap p a = Some (RangeTab t)" and "key_range t = 0"
  shows "RangeUsage E a (v, p) = (Val \<lparr>usage_chunk_num = chunk_num t, range_size = dataLen t, usage_start = [], usage_end = []\<rparr>, v, p)"
  using assms by (simp add: RangeUsage_def GetRealRange_def exec_simps pread_def)

lemma pick_range_run:
  assumes "list_all2 (\<lambda>(k, t) u. RangeUsage E (nonVolatileTab t) (v, p) = (Val u, v, p)) kts us"
  shows "pick_range E kts 0 best (v, p) =
    (Val (let full = filter (\<lambda>(k, u). 0 < range_size u) (zip (map fst kts) us) in
          if full = [] then best else (Some (fst (last full)), snd (last full))), v, p)"
  using assms
proof (induction kts us arbitrary: best rule: list_all2_induct)
  case (Cons kt kts u us)
  then show ?case by (cases kt) (auto simp: exec_simps Let_def)
qed (simp add: returnC_def)

section \<open>Properties\<close>

text \<open>A pool with one stored range for the prefix \<open>[65]\<close>, an allocator of 100 bytes with 50 used, and the root.\<close>

definition cache_tab :: "u64 \<Rightarrow> u64 \<Rightarrow> NvRangeTab" where
  "cache_tab len seq = \<lparr>hash = CityHash64WithSeed default_rocksdb [65] 1 16, prefixLen = 1, prefix = 4, key_range = 0,
     chunk_num = 0, seq_num = seq, bufSize = 100, buf = 5, dataLen = len, extra_buf = 0, next = 0\<rparr>"

definition cache_info :: PersistentInfo where
  "cache_info = \<lparr>inited = True, allocated_bits = 0, range_map = 1, allocator = 7\<rparr>"

definition cache_pool :: pmem where
  "cache_pool = raw_map_pool\<lparr>heap := [1 \<mapsto> HashMap (raw_map\<lparr>tabLen := 1, tab := 2\<rparr>), 2 \<mapsto> NodeArray [3],
     3 \<mapsto> RangeTab (cache_tab 16 1), 4 \<mapsto> Bytes [65, 0], 5 \<mapsto> Bytes (replicate 100 0), 6 \<mapsto> Info cache_info,
     7 \<mapsto> Allocator \<lparr>alloc_raw = 5, total_size = 100, alloc_cur = 50\<rparr>, 8 \<mapsto> RangeTab (cache_tab 50 1)]\<rparr>"

definition cache_handle :: "nat \<Rightarrow> FixedRangeTab" where
  "cache_handle a = \<lparr>nonVolatileTab = a, blklist = [], raw = (5, 16), in_compaction = False, pendding_clean = 0\<rparr>"

definition demo_cache :: "(byte list \<times> FixedRangeTab) list \<Rightarrow> WriteCache" where
  "demo_cache kts = \<lparr>pinfo = 6, prefix2range = kts, range_queue = []\<rparr>"

definition no_usage :: Usage where
  "no_usage = \<lparr>usage_chunk_num = 0, range_size = 0, usage_start = [], usage_end = []\<rparr>"

lemma demo_prefix: "prefix_extractor default_rocksdb k = take 4 k"
  by (simp add: default_rocksdb_def)

lemma cache_prefix_map: "is_prefix_map 1 cache_pool [[3]]"
proof -
  have "nodes (heap cache_pool) 3 [3]"
    by (rule nodes_Cons [where t = "cache_tab 16 1" and bs = "[65, 0]"])
       (simp_all add: cache_pool_def cache_tab_def nodes_Nil)
  then show ?thesis by (simp add: is_prefix_map_def) (simp add: cache_pool_def raw_map_pool_def idle_def)
qed


text \<open>C4: The cache finds what it was given, for a prefix that has a range: after \<open>AppendToRange\<close> of a chunk of
  sorted pairs to a well-formed range with room, \<open>Get\<close> of a key of the chunk with that prefix returns its value. The chunk
  has the layout that \<open>PersistentChunkIterator\<close> reads, which is not the one its comment documents: it needs 8 further bytes for each
  pair after the offset table. It has fewer than 2 ^ 31 pairs; its first 8 bytes of filter admit the key (\<open>KeyMayMatch\<close>) and the options say
  \<open>chunk_bloom_bits = 8\<close>; the library calls do not fail, and keys are compared by a total order.\<close>

theorem cache_append_then_get:
  assumes "steady_env L E" and "key_order E" and "map_of (prefix2range v) (meta_prefix meta) = Some h"
    and "range_ok E h p" and "chunk_bloom_bits E = 8" and "8 \<le> length bloom"
    and "length (cur_start meta) + length (cur_end meta) + 16 < 2 ^ 64"
    and "heap p (nonVolatileTab h) = Some (RangeTab t)" and "length gap = 8 * length kvs \<and> length kvs < 2 ^ 31" and "keys_sorted E kvs"
    and "unat (dataLen t) + 16 + length (chunk_bytes E gap kvs) \<le> unat (bufSize t)"
    and "in_chunk E kvs key = Some val" and "KeyMayMatch E key (take 8 bloom)" and "prefix_extractor E key = meta_prefix meta"
  shows "\<exists>w p'. AppendToRange L E seq0 junk bloom (chunk_bytes E gap kvs) meta (v, p) = (Val (), w, p') \<and>
    cache_Get E key (w, p') = (Val (OK val), w, p')"
proof -
  from assms(4,8) obtain b where b: "idle p" "finite (dom (heap p))" "heap p (buf t) = Some (Bytes b)" "length b < 2 ^ 63"
    "unat (bufSize t) = length b" "key_range t = 0" by (auto simp: range_ok_def)
  have "\<exists>w p'. Append L E bloom (chunk_bytes E gap kvs) (cur_start meta) (cur_end meta) (h, p) = (Val (), w, p') \<and>
      tab_Get E key (w, p') = (Val (OK val), w, p')"
    using assms b steady_env.Append_get [OF assms(1,2,8) b(3,1,2,4,6) assms(5,6,7,9,10) _ assms(12,13)] by simp
  from steady_env.Append_cache_get [OF assms(1,3,14) this] assms(3) show ?thesis
    by (simp add: AppendToRange_def exec_simps vget_run)
qed

theorem cache_append_then_get_witness:
  "\<exists>w p'. AppendToRange healthy default_rocksdb 0 demo_range (replicate 8 1) (chunk_bytes default_rocksdb (replicate 8 0) [([5], [6])])
      \<lparr>meta_prefix = [5], cur_start = [5], cur_end = [5]\<rparr>
      (demo_cache [([5], demo_range)], demo_pool (demo_tab 16) (replicate 100 0)) = (Val (), w, p') \<and>
    cache_Get default_rocksdb [5] (w, p') = (Val (OK [6]), w, p')"
  by (rule cache_append_then_get [OF nvm.steady_env_axioms bytewise.key_order_axioms _ demo_range_ok,
        where t = "demo_tab 16" and kvs = "[([5], [6])]"])
     (simp_all add: demo_cache_def demo_range_def demo_pool_def demo_tab_def keys_sorted_def in_chunk_def chunk_bytes_def
       le.offset_table_length pairs_bytes_def encode_pair_def demo_prefix)

text \<open>The cache finds what it was given, for a new prefix: \<open>AppendToRange\<close> then creates a range of 64 MB in
  the persistent prefix map, appends the chunk to it, and \<open>Get\<close> of a key with that prefix returns its
  value.\<close>

theorem cache_new_prefix_then_get:
  assumes "steady_env L E" and "key_order E" and "heap p (pinfo v) = Some (Info pin)"
    and "is_prefix_map (range_map pin) p nss" and "nss \<noteq> []"
    and "map_of (prefix2range v) (meta_prefix meta) = None"
    and "getNode E (range_map pin) (meta_prefix meta) (of_nat (length (meta_prefix meta))) ((0 :: nat, v), p) = (Val 0, (0, v), p)"
    and "chunk_bloom_bits E = 8" and "8 \<le> length bloom"
    and "length (cur_start meta) + length (cur_end meta) + 16 < 2 ^ 64"
    and "length gap = 8 * length kvs \<and> length kvs < 2 ^ 31" and "keys_sorted E kvs" and "16 + length (chunk_bytes E gap kvs) \<le> 2 ^ 26"
    and "in_chunk E kvs key = Some val" and "KeyMayMatch E key (take 8 bloom)" and "prefix_extractor E key = meta_prefix meta"
  shows "\<exists>w p'. AppendToRange L E 0 junk bloom (chunk_bytes E gap kvs) meta (v, p) = (Val (), w, p') \<and>
    cache_Get E key (w, p') = (Val (OK val), w, p')"
proof -
  let ?pre = "meta_prefix meta"
  from steady_env.NewRange_ok [OF assms(1,3,4,5,6,7), of junk] obtain h t b p1 where
    nr: "NewRange L E 0 junk ?pre (v, p) = (Val (), v\<lparr>prefix2range := prefix2range v @ [(?pre, h)]\<rparr>, p1)"
    and p1: "idle p1" "finite (dom (heap p1))" "heap p1 (nonVolatileTab h) = Some (RangeTab t)"
      "heap p1 (buf t) = Some (Bytes b)" "length b = unat range_buf_size" "key_range t = 0" "dataLen t = 0" by blast
  let ?v = "v\<lparr>prefix2range := prefix2range v @ [(?pre, h)]\<rparr>"
  have len: "length b = 2 ^ 26" using p1(5) by (simp add: range_buf_size_def)
  have "\<exists>w p'. Append L E bloom (chunk_bytes E gap kvs) (cur_start meta) (cur_end meta) (h, p1) = (Val (), w, p') \<and>
      tab_Get E key (w, p') = (Val (OK val), w, p')"
    by (rule steady_env.Append_get [OF assms(1,2) p1(3,4,1,2) _ p1(6) assms(8-12) _ assms(14,15)])
       (use len p1(7) assms(13) in simp_all)
  moreover have "map_of (prefix2range ?v) ?pre = Some h" using assms(6) by (simp add: map_add_def)
  ultimately have "\<exists>w p'. on_range ?pre (Append L E bloom (chunk_bytes E gap kvs) (cur_start meta) (cur_end meta)) (?v, p1) =
      (Val (), w, p') \<and> cache_Get E key (w, p') = (Val (OK val), w, p')"
    by (intro steady_env.Append_cache_get [OF assms(1) _ assms(16)])
  then show ?thesis using assms(6) nr by (simp add: AppendToRange_def exec_simps vget_run)
qed

theorem cache_new_prefix_then_get_witness:
  "\<exists>w p'. AppendToRange healthy default_rocksdb 0 demo_range (replicate 8 1) (chunk_bytes default_rocksdb (replicate 8 0) [([5], [6])])
      \<lparr>meta_prefix = [5], cur_start = [5], cur_end = [5]\<rparr> (demo_cache [], cache_pool) = (Val (), w, p') \<and>
    cache_Get default_rocksdb [5] (w, p') = (Val (OK [6]), w, p')"
proof -
  have i: "heap cache_pool (pinfo (demo_cache [])) = Some (Info cache_info)"
    by (simp add: cache_pool_def demo_cache_def)
  have m: "is_prefix_map (range_map cache_info) cache_pool [[3]]" using cache_prefix_map by (simp add: cache_info_def)
  have "getNode default_rocksdb (range_map cache_info) [5] 1 ((0 :: nat, demo_cache []), cache_pool) = (Val 0, (0, demo_cache []), cache_pool)"
    using getNode_run [OF m, of default_rocksdb "[5]" 1 "(0 :: nat, demo_cache [])"]
    by (simp add: first_match_def node_matches_def cache_pool_def cache_tab_def prefix_eq_def c_str_def)
  then show ?thesis
    by (intro cache_new_prefix_then_get [OF nvm.steady_env_axioms bytewise.key_order_axioms i m,
          where kvs = "[([5], [6])]"])
       (simp_all add: demo_cache_def keys_sorted_def in_chunk_def chunk_bytes_def
         le.offset_table_length pairs_bytes_def encode_pair_def demo_prefix)
qed

text \<open>C10: \<open>RebuildFromPersistentNode\<close> ends on every prefix map of stored ranges and recovers all of them: each gets
  a handle with its block list under its stored prefix, in bucket order (a later one replaces an earlier
  one with the same prefix), and nothing else changes. A stored range has a sequence number different from 0 and its
  blocks, each with 8 bytes of filter and its length, from offset 16 of its buffer on; a range with sequence number 0 is not recovered but reset by the
  constructor, and the pool is then written.\<close>

theorem rebuild_recovers_every_range:
  assumes "coding64 E" and "heap p (pinfo v) = Some (Info pin)" and "is_prefix_map (range_map pin) p nss"
    and "list_all2 (list_all2 (\<lambda>x (y, pre, blks). y = x \<and> stored_range E (heap p) x pre blks)) nss rss"
  shows "RebuildFromPersistentNode E junk (v, p) = (Val (), add_ranges junk (concat rss) v, p)"
  by (rule coding64.RebuildFromPersistentNode_ok [OF assms])

theorem rebuild_recovers_every_range_witness:
  "RebuildFromPersistentNode default_rocksdb (cache_handle 0) (demo_cache [], cache_pool) =
    (Val (), demo_cache [([65], (cache_handle 0)\<lparr>nonVolatileTab := 3\<rparr>)], cache_pool)"
proof -
  have "stored_range default_rocksdb (heap cache_pool) 3 [65] []"
    by (simp add: stored_range_def cache_pool_def) (simp add: cache_tab_def)
  then have r: "list_all2 (list_all2 (\<lambda>x (y, pre, blks). y = x \<and> stored_range default_rocksdb (heap cache_pool) x pre blks))
      [[3]] [[(3, [65], [])]]" by simp
  have i: "heap cache_pool (pinfo (demo_cache [])) = Some (Info cache_info)"
    by (simp add: cache_pool_def demo_cache_def)
  have "is_prefix_map (range_map cache_info) cache_pool [[3]]" using cache_prefix_map by (simp add: cache_info_def)
  from rebuild_recovers_every_range [OF le.coding64_axioms i this r, of "cache_handle 0"] show ?thesis
    by (simp add: add_ranges_def recovered_def demo_cache_def cache_handle_def)
qed

text \<open>C40: \<open>MaybeNeedCompaction\<close> does nothing unless the space remaining in the allocator is less than 0.75 of its capacity (computed in
  doubles). Then it queues one item, for the last range in iteration order that holds data, not for the largest: the
  maximum it compares with is never updated. When every range is empty it queues an item with a null
  range and indeterminate sizes. (The usage of each range can be computed.)\<close>

theorem compaction_queues_last_nonempty:
  assumes "heap p (pinfo v) = Some (Info pin)" and "heap p (allocator pin) = Some (Allocator al)"
    and "below_three_quarters (total_size al - alloc_cur al) (total_size al) \<longrightarrow>
      list_all2 (\<lambda>(k, t) u. RangeUsage E (nonVolatileTab t) (v, p) = (Val u, v, p)) (prefix2range v) us"
  defines "full \<equiv> filter (\<lambda>(k, u). 0 < range_size u) (zip (map fst (prefix2range v)) us)"
  shows "if below_three_quarters (total_size al - alloc_cur al) (total_size al)
    then \<exists>item. MaybeNeedCompaction E junk (v, p) = (Val (), v\<lparr>range_queue := range_queue v @ [item]\<rparr>, p) \<and>
      pending_compated_range item = (if full = [] then None else Some (fst (last full))) \<and>
      item_range_size item = range_size (if full = [] then junk else snd (last full))
    else MaybeNeedCompaction E junk (v, p) = (Val (), v, p)"
proof -
  have al: "Remain (allocator pin) (v, p) = (Val (total_size al - alloc_cur al), v, p)"
    "Capacity (allocator pin) (v, p) = (Val (total_size al), v, p)"
    "pread (pinfo v) (get_info allocator) (v, p) = (Val (allocator pin), v, p)"
    using assms(1,2) by (simp_all add: Remain_def Capacity_def exec_simps pread_def)
  show ?thesis
  proof (cases "below_three_quarters (total_size al - alloc_cur al) (total_size al)")
    case True
    note pick = pick_range_run [OF assms(3) [rule_format, OF True], of "(None, junk)", folded full_def]
    show ?thesis
      unfolding MaybeNeedCompaction_def
      by (simp only: exec_simps vget_run al True if_True pick vmod_run)
         (auto simp: exec_simps vmod_run)
  next
    case False
    then show ?thesis unfolding MaybeNeedCompaction_def by (simp add: exec_simps vget_run al)
  qed
qed

theorem compaction_queues_last_nonempty_witness:
  "\<exists>item. MaybeNeedCompaction default_rocksdb no_usage (demo_cache [([1], cache_handle 8), ([2], cache_handle 3)], cache_pool) =
      (Val (), (demo_cache [([1], cache_handle 8), ([2], cache_handle 3)])\<lparr>range_queue := [item]\<rparr>, cache_pool) \<and>
    pending_compated_range item = Some [2] \<and> item_range_size item = 16"
proof -
  let ?v = "demo_cache [([1], cache_handle 8), ([2], cache_handle 3)]"
  have us: "list_all2 (\<lambda>(k, t) u. RangeUsage default_rocksdb (nonVolatileTab t) (?v, cache_pool) = (Val u, ?v, cache_pool))
      (prefix2range ?v) [\<lparr>usage_chunk_num = 0, range_size = 50, usage_start = [], usage_end = []\<rparr>,
        \<lparr>usage_chunk_num = 0, range_size = 16, usage_start = [], usage_end = []\<rparr>]"
    using RangeUsage_plain [of cache_pool 8 "cache_tab 50 1" default_rocksdb ?v]
      RangeUsage_plain [of cache_pool 3 "cache_tab 16 1" default_rocksdb ?v]
    by (simp add: demo_cache_def cache_handle_def cache_pool_def) (simp add: cache_tab_def)
  have b: "below_three_quarters 50 100"
    using bit_length_le [of 50 53] bit_length_le [of 100 53] bit_length_le [of 300 53]
    by (simp add: below_three_quarters_def round53_def)
  show ?thesis
    using compaction_queues_last_nonempty [OF _ _ impI [OF us], of cache_info
        "\<lparr>alloc_raw = 5, total_size = 100, alloc_cur = 50\<rparr>" no_usage] b
    by (simp add: demo_cache_def cache_pool_def cache_info_def)
qed

text \<open>\<open>PersistentAllocator::Allocate\<close> is a bump allocator without a bound: it returns the current position
  and advances. While the space suffices \<open>Remain\<close> is what is left; an allocation that does not fit
  succeeds as well, outside the space, and \<open>Remain\<close> then wraps around to a value above the capacity.\<close>

theorem allocator_bumps_without_bound:
  assumes "heap p a = Some (Allocator al)" and "idle p" and "unat (alloc_cur al) + unat n < 2 ^ 64"
    and "alloc_cur al \<le> total_size al"
  shows "\<exists>p' r. Allocate L a n (v, p) = (Val (alloc_raw al, alloc_cur al), v, p') \<and> Remain a (v, p') = (Val r, v, p') \<and>
    (if unat (alloc_cur al) + unat n \<le> unat (total_size al)
     then unat r = unat (total_size al) - (unat (alloc_cur al) + unat n)
     else unat r = 2 ^ 64 + unat (total_size al) - (unat (alloc_cur al) + unat n))"
proof -
  let ?p = "p\<lparr>heap := (heap p)(a \<mapsto> Allocator (al\<lparr>alloc_cur := alloc_cur al + n\<rparr>))\<rparr>"
  have run: "Allocate L a n (v, p) = (Val (alloc_raw al, alloc_cur al), v, ?p)"
    using assms(1,2) by (simp add: Allocate_def exec_simps pread_def p_assign_outside_tx idle_def)
  have rem: "Remain a (v, ?p) = (Val (total_size al - (alloc_cur al + n)), v, ?p)"
    by (simp add: Remain_def exec_simps pread_def)
  have u: "unat (alloc_cur al + n) = unat (alloc_cur al) + unat n"
    by (rule unat_add_no_wrap) (use assms(3) in simp)
  have "if unat (alloc_cur al) + unat n \<le> unat (total_size al)
     then unat (total_size al - (alloc_cur al + n)) = unat (total_size al) - (unat (alloc_cur al) + unat n)
     else unat (total_size al - (alloc_cur al + n)) = 2 ^ 64 + unat (total_size al) - (unat (alloc_cur al) + unat n)"
    using unat_u64_less [of "total_size al"] assms(3)
    by (auto simp: unat_sub_if' u word_le_nat_alt)
  with run rem show ?thesis by blast
qed

theorem allocator_bumps_without_bound_witness:
  "\<exists>p' r. Allocate healthy 7 60 ((), cache_pool) = (Val (5, 50), (), p') \<and> Remain 7 ((), p') = (Val r, (), p') \<and>
    unat r = 2 ^ 64 - 10"
  using allocator_bumps_without_bound [of cache_pool 7 "\<lparr>alloc_raw = 5, total_size = 100, alloc_cur = 50\<rparr>" 60 healthy "()"]
  by (simp add: cache_pool_def raw_map_pool_def idle_def)

text \<open>The constructor of the write cache always dereferences a null pointer: it tests \<open>pinfo_->inited_\<close> before
  \<open>pinfo_\<close> is assigned.\<close>

theorem cache_ctor_dereferences_null:
  assumes "heap p 0 = None"
  shows "\<exists>w. WriteCache_ctor L E junk root buckets data_space pmem_size (v, p) = (Die Null_deref, w, p)"
  using assms by (simp add: WriteCache_ctor_def exec_simps vget_run vmod_run pread_def)

theorem cache_ctor_dereferences_null_witness:
  "\<exists>w. WriteCache_ctor healthy default_rocksdb (cache_handle 0) 6 8 5 100 (demo_cache [], cache_pool) = (Die Null_deref, w, cache_pool)"
  by (rule cache_ctor_dereferences_null) (simp add: cache_pool_def)

end
