(* ===== verification/Cache_Spec.thy ===== *)
theory Cache_Spec
  imports Write_Cache
begin

text \<open>
  What the write cache promises, and that it keeps it. The abstract cache maps a prefix to the chunks that were appended to
  its range, each a bloom filter and sorted pairs, and to the bytes that are left in its buffer. The relation \<open>cache_rep\<close> ties the
  volatile map \<open>prefix2range\<close>, the persistent prefix map, the tables and the bytes of the buffers to it. \<open>AppendToRange\<close>
  (on a known and on a new prefix) and \<open>Get\<close> follow the abstract cache command by command, so by the locale \<open>simulation\<close> they
  follow it on every sequence of commands.
\<close>

section \<open>The frame of an append\<close>

text \<open>
  Ranges do not overlap: the buffer of one is neither the buffer of another nor holds a prefix.
\<close>

definition separate :: "(nat \<rightharpoonup> pobj) \<Rightarrow> nat list \<Rightarrow> bool" where
  "separate h as \<longleftrightarrow> (\<forall>x\<in>set as. \<forall>y\<in>set as. \<forall>t u. h x = Some (RangeTab t) \<longrightarrow> h y = Some (RangeTab u) \<longrightarrow>
     buf t \<noteq> prefix u \<and> (x \<noteq> y \<longrightarrow> buf t \<noteq> buf u))"

lemma separateD:
  assumes "separate h as" and "x \<in> set as" and "y \<in> set as" and "h x = Some (RangeTab t)" and "h y = Some (RangeTab u)"
  shows "buf t \<noteq> prefix u" and "x \<noteq> y \<Longrightarrow> buf t \<noteq> buf u"
  using assms by (auto simp: separate_def)

text \<open>What \<open>Append\<close> to the range at \<open>a\<close> leaves of a heap: a new data length, new bytes in its buffer, new objects.\<close>

definition appended :: "nat \<Rightarrow> NvRangeTab \<Rightarrow> u64 \<Rightarrow> byte list \<Rightarrow> (nat \<rightharpoonup> pobj) \<Rightarrow> (nat \<rightharpoonup> pobj) \<Rightarrow> bool" where
  "appended a t len b' h h' \<longleftrightarrow> h a = Some (RangeTab t) \<and> (\<exists>b. h (buf t) = Some (Bytes b) \<and> length b' = length b) \<and>
     extends (h(buf t \<mapsto> Bytes b', a \<mapsto> RangeTab (t\<lparr>dataLen := len\<rparr>))) h'"

lemma appended_tab:
  assumes "appended a t len b' h h'"
  shows "h' a = Some (RangeTab (t\<lparr>dataLen := len\<rparr>))" and "h' (buf t) = Some (Bytes b')"
    and "h x = Some ob \<Longrightarrow> x \<noteq> a \<Longrightarrow> x \<noteq> buf t \<Longrightarrow> h' x = Some ob"
  using assms by (auto simp: appended_def extends_def)

lemma appended_nodes:
  assumes "nodes h x as" and "appended a t len b' h h'" and "separate h all" and "set as \<subseteq> set all" and "a \<in> set all"
  shows "nodes h' x as"
  using assms(1,4)
proof (induction rule: nodes.induct)
  case nodes_Nil
  show ?case by (rule nodes.nodes_Nil)
next
  case (nodes_Cons x u bs as)
  have a: "h a = Some (RangeTab t)" using assms(2) by (simp add: appended_def)
  have "buf t \<noteq> prefix u"
    using separateD(1) [OF assms(3,5) _ a nodes_Cons.hyps(2)] nodes_Cons.prems by simp
  moreover have "a \<noteq> prefix u" using a nodes_Cons.hyps(3) by auto
  ultimately have pre: "h' (prefix u) = Some (Bytes bs)"
    using appended_tab(3) [OF assms(2) nodes_Cons.hyps(3)] by auto
  have rest: "nodes h' (next u) as" using nodes_Cons by simp
  show ?case
  proof (cases "x = a")
    case True
    with a nodes_Cons.hyps(2) have "u = t" by simp
    with True appended_tab(1) [OF assms(2)] nodes_Cons.hyps pre rest show ?thesis
      by (intro nodes.nodes_Cons [where t = "t\<lparr>dataLen := len\<rparr>"]) auto
  next
    case False
    have "x \<noteq> buf t" using assms(2) nodes_Cons.hyps(2) by (auto simp: appended_def)
    with False appended_tab(3) [OF assms(2) nodes_Cons.hyps(2)] nodes_Cons.hyps pre rest show ?thesis
      by (intro nodes.nodes_Cons) auto
  qed
qed

lemma appended_prefix_map:
  assumes "is_prefix_map rm p nss" and "appended a t len b' (heap p) (heap p')" and "separate (heap p) (concat nss)"
    and "a \<in> set (concat nss)" and "idle p'" and "finite (dom (heap p'))"
  shows "is_prefix_map rm p' nss"
proof -
  from assms(1) obtain m xs where m: "heap p rm = Some (HashMap m)" "heap p (tab m) = Some (NodeArray xs)"
    "length xs = unat (tabLen m)" "list_all2 (nodes (heap p)) xs nss" by (auto simp: is_prefix_map_def)
  have "rm \<noteq> a" "rm \<noteq> buf t" "tab m \<noteq> a" "tab m \<noteq> buf t" using m assms(2) by (auto simp: appended_def)
  then have "heap p' rm = Some (HashMap m)" "heap p' (tab m) = Some (NodeArray xs)"
    using appended_tab(3) [OF assms(2)] m by auto
  moreover have "list_all2 (nodes (heap p')) xs nss"
    using m(4) by (rule list.rel_mono_strong) (rule appended_nodes [OF _ assms(2,3) _ assms(4)], auto)
  ultimately show ?thesis using m assms(5,6) by (auto simp: is_prefix_map_def)
qed

text \<open>The other ranges are stored as before, and the one that was appended to has the new block at its end.\<close>

lemma appended_other_range:
  assumes "stored_range E h x pre blks" and "appended a t len b' h h'" and "separate h all" and "x \<in> set all" and "a \<in> set all" and "x \<noteq> a"
  shows "stored_range E h' x pre blks"
proof -
  from assms(1) obtain u b bs where u: "h x = Some (RangeTab u)" "seq_num u \<noteq> 0" "h (buf u) = Some (Bytes b)" "length b < 2 ^ 64"
    "blocks_at E b 16 blks (unat (dataLen u))" "h (prefix u) = Some (Bytes bs)" "unat (prefixLen u) \<le> length bs"
    "take (unat (prefixLen u)) bs = pre" by (auto simp: stored_range_def)
  have a: "h a = Some (RangeTab t)" using assms(2) by (simp add: appended_def)
  have "buf t \<noteq> buf u" "buf t \<noteq> prefix u" using separateD [OF assms(3,5,4) a u(1)] assms(6) by auto
  moreover have "x \<noteq> buf t" "a \<noteq> buf u" "a \<noteq> prefix u" using assms(2) a u by (auto simp: appended_def)
  ultimately have "h' x = Some (RangeTab u)" "h' (buf u) = Some (Bytes b)" "h' (prefix u) = Some (Bytes bs)"
    using appended_tab(3) [OF assms(2)] u assms(6) by auto
  with u show ?thesis by (auto simp: stored_range_def)
qed

lemma appended_own_range:
  assumes "stored_range E h a pre blks" and "appended a t len b' h h'" and "separate h all" and "a \<in> set all"
    and "\<And>b i blks. h (buf t) = Some (Bytes b) \<Longrightarrow> blocks_at E b i blks (unat (dataLen t)) \<Longrightarrow> blocks_at E b' i (blks @ [nb]) (unat len)"
  shows "stored_range E h' a pre (blks @ [nb])"
proof -
  have a: "h a = Some (RangeTab t)" using assms(2) by (simp add: appended_def)
  with assms(1) obtain b bs where u: "seq_num t \<noteq> 0" "h (buf t) = Some (Bytes b)" "length b < 2 ^ 64"
    "blocks_at E b 16 blks (unat (dataLen t))" "h (prefix t) = Some (Bytes bs)" "unat (prefixLen t) \<le> length bs"
    "take (unat (prefixLen t)) bs = pre" by (auto simp: stored_range_def)
  have "buf t \<noteq> prefix t" by (rule separateD(1) [OF assms(3,4,4) a a])
  moreover have "a \<noteq> prefix t" using a u by auto
  ultimately have "h' (prefix t) = Some (Bytes bs)" using appended_tab(3) [OF assms(2) u(5)] by auto
  moreover have "length b' = length b" using assms(2) u(2) by (auto simp: appended_def)
  ultimately show ?thesis
    using appended_tab(1,2) [OF assms(2)] u assms(5) [OF u(2,4)] by (auto simp: stored_range_def)
qed

section \<open>The abstract cache\<close>

type_synonym chunk = "byte list \<times> (byte list \<times> byte list) list"
type_synonym acache = "byte list \<rightharpoonup> nat \<times> chunk list"

text \<open>
  A search from the newest chunk on. A chunk that the filter admits ends it with the value of the key or, when all its keys are
  above the key, with \<open>std::out_of_range\<close>; no chunk left ends it the same way.
\<close>

fun spec_search :: "rocksdb \<Rightarrow> byte list \<Rightarrow> chunk list \<Rightarrow> exn + get_status" where
  "spec_search E key [] = Inl Out_of_range"
| "spec_search E key ((bloom, kvs) # older) =
     (if KeyMayMatch E key (take 8 bloom)
      then (case find (\<lambda>kv. Compare E (fst kv) key = 0) kvs of
          Some kv \<Rightarrow> Inr (OK (snd kv))
        | None \<Rightarrow> if kvs = [] \<or> Compare E (fst (hd kvs)) key > 0 then Inl Out_of_range else spec_search E key older)
      else spec_search E key older)"

definition spec_get :: "rocksdb \<Rightarrow> byte list \<Rightarrow> acache \<Rightarrow> exn + get_status" where
  "spec_get E key m =
     (case m (prefix_extractor E key) of None \<Rightarrow> Inr NotFound | Some (free, cs) \<Rightarrow> spec_search E key (rev cs))"

definition block_size :: "rocksdb \<Rightarrow> byte list \<Rightarrow> (byte list \<times> byte list) list \<Rightarrow> nat" where
  "block_size E gap kvs = 16 + length (chunk_bytes E gap kvs)"

definition arange :: "acache \<Rightarrow> byte list \<Rightarrow> nat \<times> chunk list" where
  "arange m k = (case m k of None \<Rightarrow> (unat range_buf_size, []) | Some r \<Rightarrow> r)"

definition spec_append :: "rocksdb \<Rightarrow> byte list \<Rightarrow> byte list \<Rightarrow> (byte list \<times> byte list) list \<Rightarrow> byte list \<Rightarrow> acache \<Rightarrow> acache" where
  "spec_append E bloom gap kvs k m =
     m(k \<mapsto> (fst (arange m k) - block_size E gap kvs, snd (arange m k) @ [(bloom, kvs)]))"

datatype cache_cmd =
    CmdAppend "byte list" "byte list" "(byte list \<times> byte list) list" ChunkMeta
  | CmdGet "byte list"

datatype cache_res = Appended | Got "exn + get_status"

fun exec_cmd :: "pobj libpmemobj \<Rightarrow> rocksdb \<Rightarrow> FixedRangeTab \<Rightarrow> cache_cmd \<Rightarrow> cache_res cache_op" where
  "exec_cmd L E junk (CmdAppend bloom gap kvs meta) =
     thenC (AppendToRange L E 0 junk bloom (chunk_bytes E gap kvs) meta) (returnC Appended)"
| "exec_cmd L E junk (CmdGet key) = bindC (tryC (cache_Get E key)) (\<lambda>r. returnC (Got r))"

fun spec_cmd :: "rocksdb \<Rightarrow> cache_cmd \<Rightarrow> acache \<Rightarrow> cache_res \<times> acache" where
  "spec_cmd E (CmdAppend bloom gap kvs meta) m = (Appended, spec_append E bloom gap kvs (meta_prefix meta) m)"
| "spec_cmd E (CmdGet key) m = (Got (spec_get E key m), m)"

text \<open>
  What a client has to respect, since the code tests none of it: a filter of 8 bytes, sorted pairs in the layout the iterator
  reads and fewer of them than its \<open>int\<close> counter can count, a prefix without a NUL byte (prefixes are compared by \<open>strcmp\<close>), room in the buffer.
\<close>

fun ok_cmd :: "rocksdb \<Rightarrow> cache_cmd \<Rightarrow> acache \<Rightarrow> bool" where
  "ok_cmd E (CmdAppend bloom gap kvs meta) m \<longleftrightarrow>
     8 \<le> length bloom \<and> length gap = 8 * length kvs \<and> length kvs < 2 ^ 31 \<and> keys_sorted E kvs \<and> 0 \<notin> set (meta_prefix meta) \<and>
     length (cur_start meta) + length (cur_end meta) + 16 < 2 ^ 64 \<and>
     block_size E gap kvs \<le> fst (arange m (meta_prefix meta))"
| "ok_cmd E (CmdGet key) m \<longleftrightarrow> True"

section \<open>Representation\<close>

text \<open>The block \<open>blk\<close> of the buffer \<open>b\<close> lies below \<open>n\<close> and holds the chunk.\<close>

definition block_holds :: "rocksdb \<Rightarrow> byte list \<Rightarrow> nat \<Rightarrow> ChunkBlk \<Rightarrow> chunk \<Rightarrow> bool" where
  "block_holds E b n blk c \<longleftrightarrow> (\<exists>gap pos. case c of (bloom, kvs) \<Rightarrow>
     blk = new_block E pos (chunk_bytes E gap kvs) \<and> length gap = 8 * length kvs \<and> length kvs < 2 ^ 31 \<and> keys_sorted E kvs \<and> 8 \<le> length bloom \<and>
     unat pos + block_size E gap kvs \<le> n \<and>
     peek b (unat pos) (block_size E gap kvs) = Some (block_bytes E bloom (chunk_bytes E gap kvs)))"

definition range_rep :: "rocksdb \<Rightarrow> (nat \<rightharpoonup> pobj) \<Rightarrow> FixedRangeTab \<Rightarrow> nat \<times> chunk list \<Rightarrow> bool" where
  "range_rep E h rt r \<longleftrightarrow> (\<exists>t b. h (nonVolatileTab rt) = Some (RangeTab t) \<and> h (buf t) = Some (Bytes b) \<and>
     length b < 2 ^ 63 \<and> key_range t = 0 \<and> unat (dataLen t) + fst r = length b \<and>
     list_all2 (block_holds E b (unat (dataLen t))) (blklist rt) (snd r))"

text \<open>The nodes of the persistent map are the ranges of \<open>prefix2range\<close>, each under its prefix.\<close>

definition tab_of :: "(byte list \<times> FixedRangeTab) list \<Rightarrow> byte list \<rightharpoonup> nat" where
  "tab_of kts k = map_option nonVolatileTab (map_of kts k)"

definition named :: "(nat \<rightharpoonup> pobj) \<Rightarrow> (byte list \<times> FixedRangeTab) list \<Rightarrow> nat \<Rightarrow> bool" where
  "named h kts x \<longleftrightarrow> (\<exists>t k. h x = Some (RangeTab t) \<and> h (prefix t) = Some (Bytes (c_str k)) \<and> 0 \<notin> set k \<and> tab_of kts k = Some x)"

definition cache_rep :: "rocksdb \<Rightarrow> WriteCache \<times> pmem \<Rightarrow> acache \<Rightarrow> bool" where
  "cache_rep E s m \<longleftrightarrow> (\<exists>pin nss. case s of (v, p) \<Rightarrow>
     heap p (pinfo v) = Some (Info pin) \<and> is_prefix_map (range_map pin) p nss \<and> nss \<noteq> [] \<and> separate (heap p) (concat nss) \<and>
     dom m = dom (map_of (prefix2range v)) \<and>
     (\<forall>k rt r. map_of (prefix2range v) k = Some rt \<longrightarrow> m k = Some r \<longrightarrow>
        nonVolatileTab rt \<in> set (concat nss) \<and> range_rep E (heap p) rt r) \<and>
     (\<forall>x\<in>set (concat nss). named (heap p) (prefix2range v) x) \<and>
     (\<forall>k k' rt rt'. map_of (prefix2range v) k = Some rt \<longrightarrow> map_of (prefix2range v) k' = Some rt' \<longrightarrow> k \<noteq> k' \<longrightarrow>
        nonVolatileTab rt \<noteq> nonVolatileTab rt'))"

lemma cache_repE:
  assumes "cache_rep E (v, p) m"
  obtains pin nss where "heap p (pinfo v) = Some (Info pin)" and "is_prefix_map (range_map pin) p nss" and "nss \<noteq> []"
    and "separate (heap p) (concat nss)" and "dom m = dom (map_of (prefix2range v))"
    and "\<And>k rt r. map_of (prefix2range v) k = Some rt \<Longrightarrow> m k = Some r \<Longrightarrow>
        nonVolatileTab rt \<in> set (concat nss) \<and> range_rep E (heap p) rt r"
    and "\<And>x. x \<in> set (concat nss) \<Longrightarrow> named (heap p) (prefix2range v) x"
    and "\<And>k k' rt rt'. map_of (prefix2range v) k = Some rt \<Longrightarrow> map_of (prefix2range v) k' = Some rt' \<Longrightarrow> k \<noteq> k' \<Longrightarrow>
        nonVolatileTab rt \<noteq> nonVolatileTab rt'"
  using assms unfolding cache_rep_def prod.case by blast

lemma cache_repI:
  assumes "heap p (pinfo v) = Some (Info pin)" and "is_prefix_map (range_map pin) p nss" and "nss \<noteq> []"
    and "separate (heap p) (concat nss)" and "dom m = dom (map_of (prefix2range v))"
    and "\<And>k rt r. map_of (prefix2range v) k = Some rt \<Longrightarrow> m k = Some r \<Longrightarrow>
        nonVolatileTab rt \<in> set (concat nss) \<and> range_rep E (heap p) rt r"
    and "\<And>x. x \<in> set (concat nss) \<Longrightarrow> named (heap p) (prefix2range v) x"
    and "\<And>k k' rt rt'. map_of (prefix2range v) k = Some rt \<Longrightarrow> map_of (prefix2range v) k' = Some rt' \<Longrightarrow> k \<noteq> k' \<Longrightarrow>
        nonVolatileTab rt \<noteq> nonVolatileTab rt'"
  shows "cache_rep E (v, p) m"
  using assms unfolding cache_rep_def prod.case by blast

section \<open>Look-up\<close>

lemma poke_of_peeked: "peek b i (length xs) = Some xs \<Longrightarrow> poke b i xs = Some b"
  by (auto simp: peek_def poke_def split: if_splits) (metis append_assoc append_take_drop_id drop_drop add.commute take_drop)

context coding64
begin

lemma block_holds_reads:
  assumes "block_holds E b n blk (bloom, kvs)" and "chunk_bloom_bits E = 8" and "length b < 2 ^ 63"
  shows "readable E b blk kvs" and "may_match E b blk key \<longleftrightarrow> KeyMayMatch E key (take 8 bloom)"
proof -
  from assms(1) obtain gap pos where blk: "blk = new_block E pos (chunk_bytes E gap kvs)" "length gap = 8 * length kvs \<and> length kvs < 2 ^ 31"
    "keys_sorted E kvs" "8 \<le> length bloom"
    and peek: "peek b (unat pos) (block_size E gap kvs) = Some (block_bytes E bloom (chunk_bytes E gap kvs))"
    by (auto simp: block_holds_def)
  have "poke b (unat pos) (block_bytes E bloom (chunk_bytes E gap kvs)) = Some b"
    by (rule poke_of_peeked) (use peek in \<open>simp add: block_bytes_length [OF blk(4)] block_size_def\<close>)
  note reads = appended_block_readable [OF assms(2) blk(4) assms(3) blk(2,3) this]
  show "readable E b blk kvs" "may_match E b blk key \<longleftrightarrow> KeyMayMatch E key (take 8 bloom)"
    using reads by (simp_all add: blk(1))
qed

text \<open>A block stays what it is while bytes are written behind it.\<close>

lemma block_holds_cong:
  assumes "block_holds E b n blk c" and "take n b' = take n b" and "length b' = length b" and "n \<le> n'"
  shows "block_holds E b' n' blk c"
proof -
  have "peek b' i k = peek b i k" if "i + k \<le> n" for i k
  proof -
    have "take (k + i) (take n b') = take (k + i) (take n b)" by (simp only: assms(2))
    then have "take (k + i) b' = take (k + i) b" using that by (simp add: min_absorb1 add.commute)
    then show ?thesis by (simp add: peek_def take_drop assms(3))
  qed
  moreover obtain bloom kvs where c: "c = (bloom, kvs)" by (cases c)
  moreover from assms(1) obtain gap pos where "blk = new_block E pos (chunk_bytes E gap kvs)" "length gap = 8 * length kvs \<and> length kvs < 2 ^ 31"
    "keys_sorted E kvs" "8 \<le> length bloom" and le: "unat pos + block_size E gap kvs \<le> n"
    and "peek b (unat pos) (block_size E gap kvs) = Some (block_bytes E bloom (chunk_bytes E gap kvs))"
    unfolding block_holds_def c prod.case by blast
  ultimately show ?thesis using assms(4) unfolding block_holds_def c prod.case
    by (intro exI [of _ gap] exI [of _ pos]) (simp only: order.trans [OF le] simp_thms)
qed

end

lemma get_loop_spec:
  assumes "key_order E" and "coding64 E" and "chunk_bloom_bits E = 8" and "length b < 2 ^ 63"
    and "list_all2 (block_holds E b n) blks cs" and "i \<le> length blks"
  shows "get_loop E b blks key i = (case spec_search E key (rev (take i cs)) of Inl e \<Rightarrow> Throw e | Inr s \<Rightarrow> Val s)"
  using assms(6)
proof (induction i)
  case (Suc i)
  obtain bloom kvs where c: "cs ! i = (bloom, kvs)" by (cases "cs ! i")
  have i: "i < length blks" "i < length cs" using Suc.prems list_all2_lengthD [OF assms(5)] by simp_all
  then have "block_holds E b n (blks ! i) (bloom, kvs)" using assms(5) c by (metis list_all2_nthD)
  note blk = coding64.block_holds_reads [OF assms(2) this assms(3,4)]
  have "rev (take (Suc i) cs) = (bloom, kvs) # rev (take i cs)" using i c by (simp add: take_Suc_conv_app_nth)
  with key_order.get_loop_step [OF assms(1) i(1) blk(1), of key] blk(2) [of key] Suc show ?case
    by (auto simp: chunk_answer_def split: option.split)
qed simp

lemma cache_Get_spec:
  assumes "key_order E" and "coding64 E" and "chunk_bloom_bits E = 8" and rep: "cache_rep E (v, p) m"
  shows "cache_Get E key (v, p) = (case spec_get E key m of Inl e \<Rightarrow> Throw e | Inr s \<Rightarrow> Val s, v, p)"
proof -
  from rep obtain dom: "dom m = dom (map_of (prefix2range v))"
    and ranges: "\<And>k rt r. map_of (prefix2range v) k = Some rt \<Longrightarrow> m k = Some r \<Longrightarrow> range_rep E (heap p) rt r"
    by (elim cache_repE) blast
  show ?thesis
  proof (cases "map_of (prefix2range v) (prefix_extractor E key)")
    case None
    with dom have "m (prefix_extractor E key) = None" by (metis domIff)
    with None show ?thesis by (simp add: cache_Get_def Let_def exec_simps vget_run spec_get_def)
  next
    case (Some rt)
    with dom obtain r where m: "m (prefix_extractor E key) = Some r" by (metis domD domI)
    from ranges [OF Some m] obtain t b where t: "heap p (nonVolatileTab rt) = Some (RangeTab t)" "heap p (buf t) = Some (Bytes b)"
      "length b < 2 ^ 63" "list_all2 (block_holds E b (unat (dataLen t))) (blklist rt) (snd r)" by (auto simp: range_rep_def)
    have "tab_Get E key (rt, p) = (case spec_search E key (rev (snd r)) of Inl e \<Rightarrow> Throw e | Inr s \<Rightarrow> Val s, rt, p)"
      using tab_Get_run [OF t(1,2)] get_loop_spec [OF assms(1-3) t(3,4) order.refl, of key] list_all2_lengthD [OF t(4)] by simp
    from cache_Get_run [OF Some this] m show ?thesis by (simp add: spec_get_def split: prod.split)
  qed
qed

section \<open>Append to a known prefix\<close>

lemma appended_table:
  assumes "appended a t len b' h h'" and "h x = Some (RangeTab u)"
  obtains u' where "h' x = Some (RangeTab u')" and "buf u' = buf u" and "prefix u' = prefix u"
proof (cases "x = a")
  case True
  with assms have "u = t" by (simp add: appended_def)
  with True appended_tab(1) [OF assms(1)] that show ?thesis by simp
next
  case False
  have "x \<noteq> buf t" using assms by (auto simp: appended_def)
  with False appended_tab(3) [OF assms] that show ?thesis by simp
qed

lemma appended_separate:
  assumes "appended a t len b' h h'" and "separate h all" and "\<And>x. x \<in> set all \<Longrightarrow> \<exists>u. h x = Some (RangeTab u)"
  shows "separate h' all"
  unfolding separate_def
proof (intro ballI allI impI)
  fix x y u w assume xy: "x \<in> set all" "y \<in> set all" and h': "h' x = Some (RangeTab u)" "h' y = Some (RangeTab w)"
  from assms(3) [OF xy(1)] obtain u0 where u0: "h x = Some (RangeTab u0)" by blast
  from assms(3) [OF xy(2)] obtain w0 where w0: "h y = Some (RangeTab w0)" by blast
  have "buf u = buf u0" "buf w = buf w0" "prefix w = prefix w0"
    using appended_table [OF assms(1) u0] appended_table [OF assms(1) w0] h' by (metis option.inject pobj.inject(2))+
  with separateD [OF assms(2) xy u0 w0] show "buf u \<noteq> prefix w \<and> (x \<noteq> y \<longrightarrow> buf u \<noteq> buf w)" by simp
qed

lemma appended_named:
  assumes "named h kts x" and "appended a t len b' h h'" and "separate h all" and "x \<in> set all" and "a \<in> set all"
    and "tab_of kts \<subseteq>\<^sub>m tab_of kts'"
  shows "named h' kts' x"
proof -
  from assms(1) obtain u k where u: "h x = Some (RangeTab u)" "h (prefix u) = Some (Bytes (c_str k))" "0 \<notin> set k" "tab_of kts k = Some x"
    by (auto simp: named_def)
  from appended_table [OF assms(2) u(1)] obtain u' where u': "h' x = Some (RangeTab u')" "prefix u' = prefix u" .
  have a: "h a = Some (RangeTab t)" using assms(2) by (simp add: appended_def)
  have "prefix u \<noteq> buf t" using separateD(1) [OF assms(3,5,4) a u(1)] by simp
  moreover have "prefix u \<noteq> a" using a u(2) by auto
  ultimately have "h' (prefix u) = Some (Bytes (c_str k))" using appended_tab(3) [OF assms(2) u(2)] by simp
  moreover have "tab_of kts' k = Some x" using assms(6) u(4) by (metis domI map_le_def)
  ultimately show ?thesis using u u' by (auto simp: named_def)
qed

lemma appended_range_other:
  assumes "range_rep E h rt r" and "appended a t len b' h h'" and "separate h all" and "nonVolatileTab rt \<in> set all" and "a \<in> set all"
    and "nonVolatileTab rt \<noteq> a"
  shows "range_rep E h' rt r"
proof -
  from assms(1) obtain u b where u: "h (nonVolatileTab rt) = Some (RangeTab u)" "h (buf u) = Some (Bytes b)"
    "length b < 2 ^ 63" "key_range u = 0" "unat (dataLen u) + fst r = length b"
    "list_all2 (block_holds E b (unat (dataLen u))) (blklist rt) (snd r)" by (auto simp: range_rep_def)
  have a: "h a = Some (RangeTab t)" using assms(2) by (simp add: appended_def)
  have "buf u \<noteq> buf t" using separateD(2) [OF assms(3,5,4) a u(1)] assms(6) by auto
  moreover have "buf u \<noteq> a" "nonVolatileTab rt \<noteq> buf t" using a u assms(2) by (auto simp: appended_def)
  ultimately have "h' (nonVolatileTab rt) = Some (RangeTab u)" "h' (buf u) = Some (Bytes b)"
    using appended_tab(3) [OF assms(2)] u assms(6) by auto
  with u show ?thesis by (auto simp: range_rep_def)
qed

locale cache_env = steady_env L E + key_order E for L :: "pobj libpmemobj" and E :: rocksdb +
  assumes bits: "chunk_bloom_bits E = 8"
begin

text \<open>The range that is appended to gets the chunk at its end and loses the room of the block.\<close>

lemma range_append:
  assumes rep: "range_rep E (heap p) rt (free, cs)" and p: "idle p" "finite (dom (heap p))"
    and ok: "8 \<le> length bloom" "length gap = 8 * length kvs \<and> length kvs < 2 ^ 31" "keys_sorted E kvs" "length s + length e + 16 < 2 ^ 64"
      "block_size E gap kvs \<le> free"
  obtains t b len b' rt' p' where "Append L E bloom (chunk_bytes E gap kvs) s e (rt, p) = (Val (), rt', p')"
    and "rt' = rt\<lparr>blklist := blklist rt @ [new_block E (dataLen t) (chunk_bytes E gap kvs)]\<rparr>" and "idle p'" and "finite (dom (heap p'))"
    and "appended (nonVolatileTab rt) t len b' (heap p) (heap p')"
    and "range_rep E (heap p') rt' (free - block_size E gap kvs, cs @ [(bloom, kvs)])"
    and "heap p (buf t) = Some (Bytes b)" and "length b < 2 ^ 63" and "poke b (unat (dataLen t)) (block_bytes E bloom (chunk_bytes E gap kvs)) = Some b'"
    and "unat len = unat (dataLen t) + 16 + length (chunk_bytes E gap kvs)"
proof -
  let ?c = "chunk_bytes E gap kvs"
  from rep obtain t b where t: "heap p (nonVolatileTab rt) = Some (RangeTab t)" "heap p (buf t) = Some (Bytes b)" "length b < 2 ^ 63"
    "key_range t = 0" "unat (dataLen t) + free = length b" and blks: "list_all2 (block_holds E b (unat (dataLen t))) (blklist rt) cs"
    by (auto simp: range_rep_def)
  obtain b' where poke: "poke b (unat (dataLen t)) (block_bytes E bloom ?c) = Some b'"
    using t(5) ok(5) by (simp add: poke_def block_bytes_length [OF ok(1)] block_size_def)
  let ?len = "dataLen t + 8 + 8 + of_nat (length ?c)" and ?nb = "new_block E (dataLen t) ?c"
  from Append_frame [OF t(1,2) refl p t(3,4) ok(1,4) poke] obtain p' where
    run: "Append L E bloom ?c s e (rt, p) = (Val (), rt\<lparr>blklist := blklist rt @ [?nb]\<rparr>, p')"
    and p': "idle p'" "finite (dom (heap p'))"
      "extends ((heap p)(buf t \<mapsto> Bytes b', nonVolatileTab rt \<mapsto> RangeTab (t\<lparr>dataLen := ?len\<rparr>))) (heap p')"
    and len: "unat ?len = unat (dataLen t) + block_size E gap kvs" by (auto simp: block_size_def)
  have app: "appended (nonVolatileTab rt) t ?len b' (heap p) (heap p')"
    using t(1,2) p'(3) poke_length [OF poke] by (simp add: appended_def)
  have keep: "take (unat (dataLen t)) b' = take (unat (dataLen t)) b" "length b' = length b"
    using poke_length take_poke_before poke by blast+
  have "list_all2 (block_holds E b' (unat ?len)) (blklist rt) cs"
    using blks by (rule list_all2_mono) (erule block_holds_cong [OF _ keep], use len in linarith)
  moreover have "block_holds E b' (unat ?len) ?nb (bloom, kvs)"
    unfolding block_holds_def prod.case
    by (intro exI [of _ gap] exI [of _ "dataLen t"])
       (use ok len poke in \<open>auto simp: poke_Some_iff peek_def block_bytes_length block_size_def\<close>)
  ultimately have "range_rep E (heap p') (rt\<lparr>blklist := blklist rt @ [?nb]\<rparr>) (free - block_size E gap kvs, cs @ [(bloom, kvs)])"
    using appended_tab(1,2) [OF app] t keep(2) len ok(5) by (auto simp: range_rep_def list_all2_appendI)
  moreover have "unat ?len = unat (dataLen t) + 16 + length ?c" using len by (simp add: block_size_def)
  ultimately show ?thesis using that [OF run refl p'(1,2) app _ t(2,3) poke] by blast
qed

lemma rep_append_frame:
  assumes rep: "cache_rep E (v, p) m" and k: "map_of (prefix2range v) k = Some rt" "m k = Some (free, cs)"
    and ok: "8 \<le> length bloom" "length gap = 8 * length kvs \<and> length kvs < 2 ^ 31" "keys_sorted E kvs" "length s + length e + 16 < 2 ^ 64"
      "block_size E gap kvs \<le> free"
  obtains t b len b' rt' p' where
    "on_range k (Append L E bloom (chunk_bytes E gap kvs) s e) (v, p) = (Val (), v\<lparr>prefix2range := put_range k rt' (prefix2range v)\<rparr>, p')"
    and "cache_rep E (v\<lparr>prefix2range := put_range k rt' (prefix2range v)\<rparr>, p') (m(k \<mapsto> (free - block_size E gap kvs, cs @ [(bloom, kvs)])))"
    and "rt' = rt\<lparr>blklist := blklist rt @ [new_block E (dataLen t) (chunk_bytes E gap kvs)]\<rparr>"
    and "appended (nonVolatileTab rt) t len b' (heap p) (heap p')"
    and "heap p (buf t) = Some (Bytes b)" and "length b < 2 ^ 63" and "poke b (unat (dataLen t)) (block_bytes E bloom (chunk_bytes E gap kvs)) = Some b'"
    and "unat len = unat (dataLen t) + 16 + length (chunk_bytes E gap kvs)"
proof -
  from rep obtain pin nss where r: "heap p (pinfo v) = Some (Info pin)" "is_prefix_map (range_map pin) p nss" "nss \<noteq> []"
    "separate (heap p) (concat nss)" "dom m = dom (map_of (prefix2range v))"
    and ranges: "\<And>k rt r. map_of (prefix2range v) k = Some rt \<Longrightarrow> m k = Some r \<Longrightarrow> nonVolatileTab rt \<in> set (concat nss) \<and> range_rep E (heap p) rt r"
    and named: "\<And>x. x \<in> set (concat nss) \<Longrightarrow> named (heap p) (prefix2range v) x"
    and dist: "\<And>k k' rt rt'. map_of (prefix2range v) k = Some rt \<Longrightarrow> map_of (prefix2range v) k' = Some rt' \<Longrightarrow> k \<noteq> k' \<Longrightarrow>
        nonVolatileTab rt \<noteq> nonVolatileTab rt'" by (rule cache_repE) (rule that)
  have p: "idle p" "finite (dom (heap p))" using r(2) by (auto simp: is_prefix_map_def)
  have a: "nonVolatileTab rt \<in> set (concat nss)" and own: "range_rep E (heap p) rt (free, cs)" using ranges [OF k] by blast+
  obtain t b len b' rt' p' where run: "Append L E bloom (chunk_bytes E gap kvs) s e (rt, p) = (Val (), rt', p')"
    and new_rt: "rt' = rt\<lparr>blklist := blklist rt @ [new_block E (dataLen t) (chunk_bytes E gap kvs)]\<rparr>" and p': "idle p'" "finite (dom (heap p'))"
    and app: "appended (nonVolatileTab rt) t len b' (heap p) (heap p')"
    and new: "range_rep E (heap p') rt' (free - block_size E gap kvs, cs @ [(bloom, kvs)])"
    and bytes: "heap p (buf t) = Some (Bytes b)" "length b < 2 ^ 63" "poke b (unat (dataLen t)) (block_bytes E bloom (chunk_bytes E gap kvs)) = Some b'"
      "unat len = unat (dataLen t) + 16 + length (chunk_bytes E gap kvs)"
    by (rule range_append [OF own p ok])
  have rt': "nonVolatileTab rt' = nonVolatileTab rt" by (simp add: new_rt)
  let ?w = "v\<lparr>prefix2range := put_range k rt' (prefix2range v)\<rparr>"
  have "cache_rep E (?w, p') (m(k \<mapsto> (free - block_size E gap kvs, cs @ [(bloom, kvs)])))"
  proof (rule cache_repI)
    have "pinfo v \<noteq> nonVolatileTab rt" "pinfo v \<noteq> buf t" using r(1) app by (auto simp: appended_def)
    with appended_tab(3) [OF app r(1)] show "heap p' (pinfo ?w) = Some (Info pin)" by simp
    show "is_prefix_map (range_map pin) p' nss" by (rule appended_prefix_map [OF r(2) app r(4) a p'])
    show "nss \<noteq> []" by (rule r(3))
    show "separate (heap p') (concat nss)" by (rule appended_separate [OF app r(4)]) (use named in \<open>auto simp: named_def\<close>)
    show "dom (m(k \<mapsto> (free - block_size E gap kvs, cs @ [(bloom, kvs)]))) = dom (map_of (prefix2range ?w))" using r(5) by simp
  next
    fix k' rt1 r1 assume 1: "map_of (prefix2range ?w) k' = Some rt1" "(m(k \<mapsto> (free - block_size E gap kvs, cs @ [(bloom, kvs)]))) k' = Some r1"
    show "nonVolatileTab rt1 \<in> set (concat nss) \<and> range_rep E (heap p') rt1 r1"
    proof (cases "k' = k")
      case True
      with 1 new a rt' show ?thesis by simp
    next
      case False
      with 1 have o: "map_of (prefix2range v) k' = Some rt1" "m k' = Some r1" by simp_all
      have "nonVolatileTab rt1 \<noteq> nonVolatileTab rt" by (rule dist [OF o(1) k(1) False])
      with ranges [OF o] show ?thesis using appended_range_other [OF _ app r(4) _ a] by blast
    qed
  next
    fix x assume "x \<in> set (concat nss)"
    then show "named (heap p') (prefix2range ?w) x"
      by (intro appended_named [OF named app r(4) _ a]) (auto simp: k tab_of_def map_le_def rt')
  next
    fix k1 k2 rt1 rt2 assume "map_of (prefix2range ?w) k1 = Some rt1" "map_of (prefix2range ?w) k2 = Some rt2" "k1 \<noteq> k2"
    then show "nonVolatileTab rt1 \<noteq> nonVolatileTab rt2" using dist k(1) rt' by (auto split: if_splits)
  qed
  from that [OF on_range_run [where m = "Append L E bloom (chunk_bytes E gap kvs) s e", OF k(1) run] this new_rt app bytes] show ?thesis .
qed

lemma rep_append:
  assumes "cache_rep E (v, p) m" and "map_of (prefix2range v) k = Some rt" and "m k = Some (free, cs)"
    and "8 \<le> length bloom" and "length gap = 8 * length kvs \<and> length kvs < 2 ^ 31" and "keys_sorted E kvs" and "length s + length e + 16 < 2 ^ 64"
    and "block_size E gap kvs \<le> free"
  shows "\<exists>w p'. on_range k (Append L E bloom (chunk_bytes E gap kvs) s e) (v, p) = (Val (), w, p') \<and>
    cache_rep E (w, p') (m(k \<mapsto> (free - block_size E gap kvs, cs @ [(bloom, kvs)])))"
  by (rule rep_append_frame [OF assms]) blast

end

section \<open>A new prefix\<close>

text \<open>Prefixes without a NUL byte are equal when \<open>strcmp\<close> says so, so a prefix without a range matches no node.\<close>

lemma c_str_inj: "0 \<notin> set k \<Longrightarrow> takeWhile (\<lambda>c. c \<noteq> 0) (c_str k) = k"
  by (simp add: c_str_def takeWhile_append) 

lemma named_no_match:
  assumes "named h kts x" and "0 \<notin> set k" and "map_of kts k = None"
  shows "\<not> node_matches h hsh k x"
proof -
  from assms(1) obtain t k' where t: "h x = Some (RangeTab t)" "h (prefix t) = Some (Bytes (c_str k'))" "0 \<notin> set k'" "tab_of kts k' = Some x"
    by (auto simp: named_def)
  have "k' \<noteq> k" using t(4) assms(3) by (auto simp: tab_of_def)
  moreover have "0 \<in> set (c_str k')" by (simp add: c_str_def)
  ultimately show ?thesis
    using t assms(2) prefix_eq_terminated [where h = h, OF t(2), of k] by (simp add: node_matches_def c_str_inj)
qed

text \<open>What \<open>NewRange\<close> leaves of a heap: everything but the arrays of the map, and three new objects.\<close>

lemma kept_named:
  assumes "named h kts x" and "\<And>y ob. h y = Some ob \<Longrightarrow> \<forall>ys. ob \<noteq> NodeArray ys \<Longrightarrow> h' y = Some ob"
    and "tab_of kts \<subseteq>\<^sub>m tab_of kts'"
  shows "named h' kts' x"
proof -
  from assms(1) obtain t k where "h x = Some (RangeTab t)" "h (prefix t) = Some (Bytes (c_str k))" "0 \<notin> set k" "tab_of kts k = Some x"
    by (auto simp: named_def)
  moreover from this have "tab_of kts' k = Some x" using assms(3) by (metis domI map_le_def)
  ultimately show ?thesis
    using assms(2) [of x "RangeTab t"] assms(2) [of "prefix t" "Bytes (c_str k)"] by (auto simp: named_def)
qed

lemma kept_range:
  assumes "range_rep E h rt r" and "\<And>y ob. h y = Some ob \<Longrightarrow> \<forall>ys. ob \<noteq> NodeArray ys \<Longrightarrow> h' y = Some ob"
  shows "range_rep E h' rt r"
proof -
  from assms(1) obtain t b where "h (nonVolatileTab rt) = Some (RangeTab t)" "h (buf t) = Some (Bytes b)" "length b < 2 ^ 63"
    "key_range t = 0" "unat (dataLen t) + fst r = length b" "list_all2 (block_holds E b (unat (dataLen t))) (blklist rt) (snd r)"
    by (auto simp: range_rep_def)
  with assms(2) [of "nonVolatileTab rt" "RangeTab t"] assms(2) [of "buf t" "Bytes b"] show ?thesis by (auto simp: range_rep_def)
qed

lemma set_concat_update: "i < length xss \<Longrightarrow> set (concat (xss[i := x # xss ! i])) = insert x (set (concat xss))"
  by (induction xss arbitrary: i) (auto split: nat.splits)

lemma new_separate:
  assumes sep: "separate h as" and named: "\<And>x. x \<in> set as \<Longrightarrow> named h kts x"
    and keep: "\<And>y ob. h y = Some ob \<Longrightarrow> \<forall>ys. ob \<noteq> NodeArray ys \<Longrightarrow> h' y = Some ob"
    and t: "h' x = Some (RangeTab t)" "h (buf t) = None" "h (prefix t) = None" "buf t \<noteq> prefix t"
    and bufs: "\<And>y u. y \<in> set as \<Longrightarrow> h y = Some (RangeTab u) \<Longrightarrow> h (buf u) \<noteq> None" and set: "set bs = insert x (set as)"
  shows "separate h' bs"
  unfolding separate_def
proof (intro ballI allI impI)
  have old: "\<exists>w. h y = Some (RangeTab w) \<and> h (prefix w) \<noteq> None \<and> h (buf w) \<noteq> None \<and> (h' y = Some (RangeTab u) \<longrightarrow> u = w)"
    if "y \<in> set as" for y u
  proof -
    from named [OF that] obtain w k where w: "h y = Some (RangeTab w)" "h (prefix w) = Some (Bytes (c_str k))" by (auto simp: named_def)
    with keep [OF w(1)] bufs [OF that w(1)] show ?thesis by auto
  qed
  fix y z u w assume yz: "y \<in> set bs" "z \<in> set bs" and h': "h' y = Some (RangeTab u)" "h' z = Some (RangeTab w)"
  have "y = x \<or> y \<in> set as" "z = x \<or> z \<in> set as" using yz set by auto
  then consider "y = x" "z = x" | "y = x" "z \<in> set as" | "y \<in> set as" "z = x" | "y \<in> set as" "z \<in> set as" by blast
  then show "buf u \<noteq> prefix w \<and> (y \<noteq> z \<longrightarrow> buf u \<noteq> buf w)"
  proof cases
    case 1
    with h' t show ?thesis by simp
  next
    case 2
    with h' t old [OF 2(2), of w] show ?thesis by auto
  next
    case 3
    with h' t old [OF 3(1), of u] show ?thesis by auto
  next
    case 4
    from old [OF 4(1), of u] old [OF 4(2), of w] h' have "h y = Some (RangeTab u)" "h z = Some (RangeTab w)" by auto
    with separateD [OF sep 4] show ?thesis by blast
  qed
qed

context cache_env
begin

lemma rep_new_frame:
  assumes rep: "cache_rep E (v, p) m" and new: "m k = None" and k: "0 \<notin> set k"
  obtains rt t b p' where "NewRange L E 0 junk k (v, p) = (Val (), v\<lparr>prefix2range := prefix2range v @ [(k, rt)]\<rparr>, p')"
    and "map_of (prefix2range v) k = None" and "cache_rep E (v\<lparr>prefix2range := prefix2range v @ [(k, rt)]\<rparr>, p') (m(k \<mapsto> arange m k))"
    and "heap p' (nonVolatileTab rt) = Some (RangeTab t)" and "heap p' (buf t) = Some (Bytes b)" and "length b = unat range_buf_size"
    and "seq_num t = 0" and "prefixLen t = of_nat (length k)" and "heap p' (prefix t) = Some (Bytes (c_str k))"
    and "\<And>y ob. heap p y = Some ob \<Longrightarrow> \<forall>ys. ob \<noteq> NodeArray ys \<Longrightarrow> heap p' y = Some ob"
proof -
  from rep obtain pin nss where r: "heap p (pinfo v) = Some (Info pin)" "is_prefix_map (range_map pin) p nss" "nss \<noteq> []"
    "separate (heap p) (concat nss)" "dom m = dom (map_of (prefix2range v))"
    and ranges: "\<And>k rt r. map_of (prefix2range v) k = Some rt \<Longrightarrow> m k = Some r \<Longrightarrow> nonVolatileTab rt \<in> set (concat nss) \<and> range_rep E (heap p) rt r"
    and named: "\<And>x. x \<in> set (concat nss) \<Longrightarrow> named (heap p) (prefix2range v) x"
    and dist: "\<And>k k' rt rt'. map_of (prefix2range v) k = Some rt \<Longrightarrow> map_of (prefix2range v) k' = Some rt' \<Longrightarrow> k \<noteq> k' \<Longrightarrow>
        nonVolatileTab rt \<noteq> nonVolatileTab rt'" by (rule cache_repE) (rule that)
  have none: "map_of (prefix2range v) k = None" using new r(5) by (metis domIff)
  let ?hsh = "CityHash64WithSeed E k (of_nat (length k)) 16"
  let ?i = "unat ?hsh mod length nss"
  have i: "?i < length nss" using r(3) by simp
  have "find (node_matches (heap p) ?hsh k) (nss ! ?i) = None"
    unfolding find_None_iff
  proof (intro notI, elim bexE exE conjE)
    fix x assume x: "x \<in> set (nss ! ?i)" "node_matches (heap p) ?hsh k x"
    then have "x \<in> set (concat nss)" using nth_mem [OF i] by auto
    from named_no_match [OF named [OF this] k none] x(2) show False by blast
  qed
  then have absent: "getNode E (range_map pin) k (of_nat (length k)) ((0 :: nat, v), p) = (Val 0, (0, v), p)"
    using getNode_run [OF r(2,3), of E k "of_nat (length k)" "(0 :: nat, v)"] by (simp add: first_match_def)
  from NewRange_frame [OF r(1,2,3) none absent, of junk] obtain rt t b p' where
    run: "NewRange L E 0 junk k (v, p) = (Val (), v\<lparr>prefix2range := prefix2range v @ [(k, rt)]\<rparr>, p')"
    and pm: "is_prefix_map (range_map pin) p' (nss[?i := nonVolatileTab rt # nss ! ?i])"
    and t: "heap p' (nonVolatileTab rt) = Some (RangeTab t)" "blklist rt = []" "heap p' (buf t) = Some (Bytes b)"
      "length b = unat range_buf_size" "key_range t = 0" "dataLen t = 0" "heap p' (prefix t) = Some (Bytes (c_str k))" "buf t \<noteq> prefix t"
    and hdr: "seq_num t = 0" "prefixLen t = of_nat (length k)"
    and fresh: "heap p (nonVolatileTab rt) = None" "heap p (buf t) = None" "heap p (prefix t) = None"
    and keep: "\<And>y ob. heap p y = Some ob \<Longrightarrow> \<forall>ys. ob \<noteq> NodeArray ys \<Longrightarrow> heap p' y = Some ob" by blast
  let ?w = "v\<lparr>prefix2range := prefix2range v @ [(k, rt)]\<rparr>" and ?nss = "nss[?i := nonVolatileTab rt # nss ! ?i]"
  have lk: "map_of (prefix2range ?w) = (map_of (prefix2range v))(k \<mapsto> rt)" using none by (auto simp: fun_eq_iff map_add_def split: option.split)
  have set: "set (concat ?nss) = insert (nonVolatileTab rt) (set (concat nss))"
    by (rule set_concat_update [OF i])
  have "cache_rep E (?w, p') (m(k \<mapsto> arange m k))"
  proof (rule cache_repI [OF _ pm])
    show "heap p' (pinfo ?w) = Some (Info pin)" using keep [OF r(1)] by simp
    show "?nss \<noteq> []" using r(3) by simp
    show "separate (heap p') (concat ?nss)"
    proof (rule new_separate [where h = "heap p" and h' = "heap p'", OF r(4) named keep t(1) fresh(2,3) t(8) _ set])
      fix y u assume y: "y \<in> set (concat nss)" "heap p y = Some (RangeTab u)"
      from named [OF y(1)] obtain k' rt' where rt': "map_of (prefix2range v) k' = Some rt'" "nonVolatileTab rt' = y"
        by (auto simp: named_def tab_of_def)
      with r(5) obtain r' where "m k' = Some r'" by (metis domD domI)
      from ranges [OF rt'(1) this] rt'(2) y(2) show "heap p (buf u) \<noteq> None" by (auto simp: range_rep_def)
    qed
    show "dom (m(k \<mapsto> arange m k)) = dom (map_of (prefix2range ?w))" unfolding lk using r(5) by simp
  next
    fix k' rt1 r1 assume 1: "map_of (prefix2range ?w) k' = Some rt1" "(m(k \<mapsto> arange m k)) k' = Some r1"
    show "nonVolatileTab rt1 \<in> set (concat ?nss) \<and> range_rep E (heap p') rt1 r1"
    proof (cases "k' = k")
      case True
      have "range_rep E (heap p') rt (unat range_buf_size, [])" using t by (auto simp: range_rep_def range_buf_size_def)
      with True 1 new show ?thesis unfolding lk set by (simp add: arange_def)
    next
      case False
      with 1 have "map_of (prefix2range v) k' = Some rt1" "m k' = Some r1" unfolding lk by simp_all
      from ranges [OF this] show ?thesis unfolding set using kept_range [where h = "heap p" and h' = "heap p'", OF _ keep] by blast
    qed
  next
    fix x assume "x \<in> set (concat ?nss)"
    then consider "x = nonVolatileTab rt" | "x \<in> set (concat nss)" unfolding set by blast
    then show "named (heap p') (prefix2range ?w) x"
    proof cases
      case 1
      with t k show ?thesis unfolding named_def tab_of_def lk by (intro exI [of _ t] exI [of _ k]) simp
    next
      case 2
      show ?thesis by (rule kept_named [where h = "heap p" and h' = "heap p'", OF named [OF 2] keep]) (use none in \<open>auto simp: lk tab_of_def map_le_def\<close>)
    qed
  next
    fix k1 k2 rt1 rt2 assume d: "map_of (prefix2range ?w) k1 = Some rt1" "map_of (prefix2range ?w) k2 = Some rt2" "k1 \<noteq> k2"
    have old: "nonVolatileTab rt' \<noteq> nonVolatileTab rt" if "map_of (prefix2range v) k' = Some rt'" for k' rt'
    proof -
      from that r(5) obtain r' where "m k' = Some r'" by (metis domD domI)
      from ranges [OF that this] fresh(1) show ?thesis by (auto simp: range_rep_def)
    qed
    show "nonVolatileTab rt1 \<noteq> nonVolatileTab rt2" using d dist old unfolding lk by (metis fun_upd_apply option.inject)
  qed
  from that [OF run none this t(1,3,4) hdr t(7) keep] show ?thesis .
qed

lemma rep_new:
  assumes "cache_rep E (v, p) m" and "m k = None" and "0 \<notin> set k"
  shows "\<exists>rt p'. NewRange L E 0 junk k (v, p) = (Val (), v\<lparr>prefix2range := prefix2range v @ [(k, rt)]\<rparr>, p') \<and>
    map_of (prefix2range v) k = None \<and> cache_rep E (v\<lparr>prefix2range := prefix2range v @ [(k, rt)]\<rparr>, p') (m(k \<mapsto> arange m k))"
  by (rule rep_new_frame [OF assms]) blast

text \<open>Every admissible command does what the abstract cache does.\<close>

lemma cmd_append:
  assumes rep: "cache_rep E (v, p) m" and ok: "ok_cmd E (CmdAppend bloom gap kvs meta) m"
  shows "\<exists>w p'. AppendToRange L E 0 junk bloom (chunk_bytes E gap kvs) meta (v, p) = (Val (), w, p') \<and>
    cache_rep E (w, p') (spec_append E bloom gap kvs (meta_prefix meta) m)"
proof -
  let ?k = "meta_prefix meta"
  obtain free cs where r: "arange m ?k = (free, cs)" by (cases "arange m ?k")
  have o: "8 \<le> length bloom" "length gap = 8 * length kvs \<and> length kvs < 2 ^ 31" "keys_sorted E kvs" "length (cur_start meta) + length (cur_end meta) + 16 < 2 ^ 64"
    "block_size E gap kvs \<le> free" "0 \<notin> set ?k" using ok r by simp_all
  have spec: "spec_append E bloom gap kvs ?k m = m(?k \<mapsto> (free - block_size E gap kvs, cs @ [(bloom, kvs)]))"
    by (simp add: spec_append_def r)
  show ?thesis
  proof (cases "m ?k")
    case (Some r')
    with r have m: "m ?k = Some (free, cs)" by (simp add: arange_def)
    with rep obtain rt where rt: "map_of (prefix2range v) ?k = Some rt" by (elim cache_repE) (metis domD domI)
    from rep_append [OF rep rt m o(1-5)] rt show ?thesis
      by (simp add: AppendToRange_def exec_simps vget_run spec)
  next
    case None
    from rep_new [OF rep None o(6), of junk] obtain rt p1 where
      nr: "NewRange L E 0 junk ?k (v, p) = (Val (), v\<lparr>prefix2range := prefix2range v @ [(?k, rt)]\<rparr>, p1)"
      and none: "map_of (prefix2range v) ?k = None"
      and rep1: "cache_rep E (v\<lparr>prefix2range := prefix2range v @ [(?k, rt)]\<rparr>, p1) (m(?k \<mapsto> (free, cs)))" unfolding r by blast
    have "map_of (prefix2range (v\<lparr>prefix2range := prefix2range v @ [(?k, rt)]\<rparr>)) ?k = Some rt" using none by (simp add: map_add_def)
    from rep_append [OF rep1 this _ o(1-5), of cs] nr none show ?thesis
      by (simp add: AppendToRange_def exec_simps vget_run spec)
  qed
qed

lemma cmd_simulates:
  assumes "cache_rep E s m" and "ok_cmd E c m" and "spec_cmd E c m = (r, m')"
  shows "\<exists>s'. exec_cmd L E junk c s = (Val r, s') \<and> cache_rep E s' m'"
proof (cases c)
  case (CmdAppend bloom gap kvs meta)
  with assms cmd_append [of "fst s" "snd s" m bloom gap kvs meta junk] show ?thesis by (auto simp: exec_simps)
next
  case (CmdGet key)
  have "tryC (cache_Get E key) s = (Val (spec_get E key m), s)"
    using cache_Get_spec [OF key_order_axioms coding64_axioms bits, of "fst s" "snd s" m key] assms(1)
    by (simp add: tryC_def split: sum.split)
  with CmdGet assms show ?thesis by (auto simp: exec_simps)
qed

lemma commands_simulate: "simulation (cache_rep E) (exec_cmd L E junk) (spec_cmd E) (ok_cmd E)"
  by unfold_locales (rule cmd_simulates)

end

sublocale cache_env \<subseteq> commands: simulation "cache_rep E" "exec_cmd L E junk" "spec_cmd E" "ok_cmd E" for junk
  by (rule commands_simulate)

interpretation nvm_cache: cache_env healthy default_rocksdb
  by unfold_locales simp

section \<open>The first start\<close>

context steady_env
begin

lemma cache_init_ok:
  assumes root: "heap p r = Some (Info pin)" and idle: "idle p" and fin: "finite (dom (heap p))" and n: "unat n < 2 ^ 22"
  shows "\<exists>p' rm ta al. cache_init L r n ds sz (v, p) = (Val (), v, p') \<and> idle p' \<and> finite (dom (heap p')) \<and>
    heap p' r = Some (Info (pin\<lparr>range_map := rm, allocator := al, inited := True\<rparr>)) \<and>
    heap p' rm = Some (HashMap \<lparr>tabLen = n, tab = ta, loadFactor = (3, 2), threshold = of_nat (unat n * 3 div 4), map_size = 0\<rparr>) \<and>
    heap p' ta = Some (NodeArray (replicate (unat n) 0)) \<and> heap p' al = Some (Allocator (alloc_ctor ds sz))"
proof -
  let ?q = "\<lambda>h us. (open_pool p)\<lparr>heap := h, undo_log := us\<rparr>"
  let ?m0 = "\<lparr>tabLen = 0, tab = 0, loadFactor = (0, 0), threshold = 0, map_size = 0\<rparr>" and ?ar = "NodeArray (replicate (unat n) 0)"
  obtain rm where mk1: "make_persistent L 48 (HashMap ?m0) (\<lambda>_. returnC ()) (v, ?q (heap p) []) =
      (Val rm, v, ?q ((heap p)(rm \<mapsto> HashMap ?m0)) [Allocated rm])" and rm: "heap p rm = None"
    by (rule make_node_open [OF fin])
  let ?h1 = "\<lambda>k. (heap p)(rm \<mapsto> HashMap k)"
  have at0: "get_map f (HashMap k) = Some (f k)" for f :: "pmem_hash_map \<Rightarrow> 'f" and k by simp
  note s1 = p_assign_open [where h = "?h1 k" and a = rm and g = "get_map f" for k and f :: "pmem_hash_map \<Rightarrow> 'f", OF fun_upd_same at0]
  let ?m1 = "?m0\<lparr>tabLen := n\<rparr>"
  let ?us1 = "[Snapshot rm (set_map tabLen_update (tabLen ?m0)), Allocated rm]"
  have "finite (dom (?h1 ?m1))" using fin by simp
  then obtain ta where mk2: "make_persistent_array L (16 * unat n) ?ar (v, ?q (?h1 ?m1) ?us1) =
      (Val ta, v, ?q ((?h1 ?m1)(ta \<mapsto> ?ar)) (Allocated ta # ?us1))" and ta: "?h1 ?m1 ta = None" by (rule make_array_open)
  have ne: "rm \<noteq> ta" "r \<noteq> rm" "r \<noteq> ta" using root rm ta by (auto split: if_splits)
  let ?h2 = "\<lambda>k. (heap p)(ta \<mapsto> ?ar, rm \<mapsto> HashMap k)"
  have h2: "(?h1 ?m1)(ta \<mapsto> ?ar) = ?h2 ?m1" using ne by (simp add: fun_upd_twist)
  note s2 = p_assign_open [where h = "?h2 k" and a = rm and g = "get_map f" for k and f :: "pmem_hash_map \<Rightarrow> 'f", OF fun_upd_same at0]
  let ?m = "?m1\<lparr>tab := ta, loadFactor := (3, 2), threshold := of_nat (unat n * 3 div 4), map_size := 0\<rparr>"
  have ati: "get_info f (Info i) = Some (f i)" for f :: "PersistentInfo \<Rightarrow> 'f" and i by simp
  have r2: "?h2 ?m r = Some (Info pin)" using root ne by simp
  note s3 = p_assign_open [where h = "?h2 ?m" and a = r and g = "get_info range_map" and s = "set_info range_map_update" and x = rm, OF r2 ati]
  let ?p1 = "pin\<lparr>range_map := rm\<rparr>"
  let ?h3 = "(?h2 ?m)(r \<mapsto> Info ?p1)"
  have fin3: "finite (dom ?h3)" using fin by simp
  let ?us3 = "Snapshot r (set_info range_map_update (range_map pin)) #
    Snapshot rm (set_map map_size_update (map_size (?m1\<lparr>tab := ta, loadFactor := (3, 2), threshold := of_nat (unat n * 3 div 4)\<rparr>))) #
    Snapshot rm (set_map threshold_update (threshold (?m1\<lparr>tab := ta, loadFactor := (3, 2)\<rparr>))) #
    Snapshot rm (set_map loadFactor_update (loadFactor (?m1\<lparr>tab := ta\<rparr>))) #
    Snapshot rm (set_map tab_update (tab ?m1)) # Allocated ta # ?us1"
  obtain al where mk3: "make_persistent L 32 (Allocator (alloc_ctor ds sz)) (\<lambda>_. returnC ()) (v, ?q ?h3 ?us3) =
      (Val al, v, ?q (?h3(al \<mapsto> Allocator (alloc_ctor ds sz))) (Allocated al # ?us3))" and al: "?h3 al = None"
    by (rule make_node_open [OF fin3])
  have ne2: "al \<noteq> r" "al \<noteq> rm" "al \<noteq> ta" using al by (auto split: if_splits)
  let ?h4 = "\<lambda>i. (?h2 ?m)(al \<mapsto> Allocator (alloc_ctor ds sz), r \<mapsto> Info i)"
  have h4: "?h3(al \<mapsto> Allocator (alloc_ctor ds sz)) = ?h4 ?p1" using ne2 by (simp add: fun_upd_twist)
  note s4 = p_assign_open [where h = "?h4 i" and a = r and g = "get_info f" for i and f :: "PersistentInfo \<Rightarrow> 'f", OF fun_upd_same ati]
  have "\<exists>p'. cache_init L r n ds sz (v, p) = (Val (), v, p') \<and> idle p' \<and>
      heap p' = ?h4 (?p1\<lparr>allocator := al, inited := True\<rparr>)"
    unfolding cache_init_def
    by (rule run_open [OF idle])
       (simp only: exec_simps mk1 s1 set_map.simps mk2 h2 s2 fun_upd_upd threshold_exact [OF n] s3 set_info.simps mk3 h4 s4)
  then obtain p' where p': "cache_init L r n ds sz (v, p) = (Val (), v, p')" "idle p'"
    "heap p' = ?h4 (?p1\<lparr>allocator := al, inited := True\<rparr>)" by blast
  with ne ne2 fin show ?thesis
    by (intro exI [of _ p'] exI [of _ rm] exI [of _ ta] exI [of _ al]) (cases pin, simp)
qed

end

lemma nodes_nulls: "list_all2 (nodes h) (replicate n 0) (replicate n [])"
  by (simp add: list_all2_conv_all_nth nodes_Nil)

context cache_env
begin

lemma cache_init_rep:
  assumes "heap p (pinfo v) = Some (Info pin)" and "idle p" and "finite (dom (heap p))" and "0 < n" and "unat n < 2 ^ 22"
    and "prefix2range v = []"
  shows "\<exists>p'. cache_init L (pinfo v) n ds sz (v, p) = (Val (), v, p') \<and> cache_rep E (v, p') Map.empty"
proof -
  from cache_init_ok [OF assms(1,2,3,5), of ds sz v] obtain p' rm ta al where
    run: "cache_init L (pinfo v) n ds sz (v, p) = (Val (), v, p')" and p': "idle p'" "finite (dom (heap p'))"
      "heap p' (pinfo v) = Some (Info (pin\<lparr>range_map := rm, allocator := al, inited := True\<rparr>))"
      "heap p' rm = Some (HashMap \<lparr>tabLen = n, tab = ta, loadFactor = (3, 2), threshold = of_nat (unat n * 3 div 4), map_size = 0\<rparr>)"
      "heap p' ta = Some (NodeArray (replicate (unat n) 0))" by blast
  have "is_prefix_map rm p' (replicate (unat n) [])" using p' nodes_nulls by (auto simp: is_prefix_map_def)
  moreover have "unat n \<noteq> 0" using assms(4) by (simp add: unat_gt_0)
  ultimately have "cache_rep E (v, p') Map.empty"
    by (intro cache_repI [where pin = "pin\<lparr>range_map := rm, allocator := al, inited := True\<rparr>" and nss = "replicate (unat n) []"])
      (simp_all add: p' assms(6) separate_def)
  with run show ?thesis by blast
qed

end

section \<open>Properties\<close>

text \<open>The cache refines its specification: from any state that represents an abstract cache, every sequence of admissible commands
  (appends to known and to new prefixes, look-ups of any key) runs without a fault, returns exactly the results of the
  abstract cache, and ends in a state that represents the abstract one.\<close>

theorem cache_refines_spec:
  assumes "cache_env L E" and "cache_rep E s m" and "ok_all (spec_cmd E) (ok_cmd E) cs m"
  shows "\<exists>s'. run_all (exec_cmd L E junk) cs s = (Val (fst (spec_all (spec_cmd E) cs m)), s') \<and>
    cache_rep E s' (snd (spec_all (spec_cmd E) cs m))"
  using simulation.run_refines [OF cache_env.commands_simulate [OF assms(1)] assms(2,3)] by (metis prod.collapse)

text \<open>C2: From the first start on: after \<open>cache_init\<close> on a healthy pool with an empty map of ranges, every admissible sequence of commands
  returns what an abstract cache that starts empty returns.\<close>

theorem initialised_cache_follows_spec:
  assumes "cache_env L E" and "heap p (pinfo v) = Some (Info pin)" and "idle p" and "finite (dom (heap p))"
    and "0 < n" and "unat n < 2 ^ 22" and "prefix2range v = []" and "ok_all (spec_cmd E) (ok_cmd E) cs Map.empty"
  shows "\<exists>s'. thenC (cache_init L (pinfo v) n ds sz) (run_all (exec_cmd L E junk) cs) (v, p) =
      (Val (fst (spec_all (spec_cmd E) cs Map.empty)), s') \<and> cache_rep E s' (snd (spec_all (spec_cmd E) cs Map.empty))"
proof -
  from cache_env.cache_init_rep [OF assms(1-7), of ds sz] obtain p' where
    1: "cache_init L (pinfo v) n ds sz (v, p) = (Val (), v, p')" "cache_rep E (v, p') Map.empty" by blast
  from simulation.run_refines [OF cache_env.commands_simulate [OF assms(1)] 1(2) assms(8)] 1(1) show ?thesis
    by (simp add: exec_simps)
qed

text \<open>Two chunks for one prefix, one for another; the newer chunk of a prefix hides the older, and an unknown
  prefix is not found.\<close>

definition demo_meta :: "byte list \<Rightarrow> ChunkMeta" where
  "demo_meta k = \<lparr>meta_prefix = k, cur_start = k, cur_end = k\<rparr>"

definition demo_script :: "cache_cmd list" where
  "demo_script =
     [CmdAppend (replicate 8 1) (replicate 8 0) [([65], [6])] (demo_meta [65]),
      CmdAppend (replicate 8 1) (replicate 8 0) [([66], [9])] (demo_meta [66]),
      CmdGet [65], CmdGet [66],
      CmdAppend (replicate 8 1) (replicate 8 0) [([65], [7])] (demo_meta [65]),
      CmdGet [65], CmdGet [67]]"

lemma demo_size: "block_size default_rocksdb (replicate 8 0) [([a], [b])] = 58"
  by (simp add: block_size_def chunk_bytes_def le.offset_table_length pairs_bytes_def encode_pair_def)

lemma demo_results: "fst (spec_all (spec_cmd default_rocksdb) demo_script Map.empty) =
    [Appended, Appended, Got (Inr (OK [6])), Got (Inr (OK [9])), Appended, Got (Inr (OK [7])), Got (Inr NotFound)]"
  by (simp add: demo_script_def demo_meta_def spec_append_def spec_get_def arange_def demo_prefix)

lemma demo_admissible: "ok_all (spec_cmd default_rocksdb) (ok_cmd default_rocksdb) demo_script Map.empty"
  by (simp add: demo_script_def demo_meta_def spec_append_def arange_def demo_size range_buf_size_def keys_sorted_def)

theorem initialised_cache_follows_spec_witness:
  "\<exists>s'. thenC (cache_init healthy 6 2 0 100) (run_all (exec_cmd healthy default_rocksdb demo_range) demo_script) (demo_cache [], cache_pool) =
    (Val [Appended, Appended, Got (Inr (OK [6])), Got (Inr (OK [9])), Appended, Got (Inr (OK [7])), Got (Inr NotFound)], s')"
proof -
  have "heap cache_pool (pinfo (demo_cache [])) = Some (Info cache_info)" by (simp add: cache_pool_def demo_cache_def)
  moreover have "idle cache_pool" "finite (dom (heap cache_pool))" using cache_prefix_map by (auto simp: is_prefix_map_def)
  moreover have "prefix2range (demo_cache []) = []" "pinfo (demo_cache []) = 6" by (simp_all add: demo_cache_def)
  ultimately show ?thesis
    using initialised_cache_follows_spec [OF nvm_cache.cache_env_axioms, of cache_pool "demo_cache []" cache_info 2 demo_script 0 100 demo_range]
      demo_admissible demo_results by auto
qed

text \<open>The pool with one stored range for the prefix \<open>[65]\<close> and 84 free bytes.\<close>

lemma cache_pool_rep: "cache_rep default_rocksdb (demo_cache [([65], cache_handle 3)], cache_pool) [[65] \<mapsto> (84, [])]"
proof (rule cache_repI)
  show "heap cache_pool (pinfo (demo_cache [([65], cache_handle 3)])) = Some (Info cache_info)" by (simp add: cache_pool_def demo_cache_def)
  show "is_prefix_map (range_map cache_info) cache_pool [[3]]" using cache_prefix_map by (simp add: cache_info_def)
  show "separate (heap cache_pool) (concat [[3]])" by (simp add: separate_def cache_pool_def cache_tab_def)
next
  fix k rt r assume "map_of (prefix2range (demo_cache [([65], cache_handle 3)])) k = Some rt" "[[65] \<mapsto> (84 :: nat, [] :: chunk list)] k = Some r"
  then have "rt = cache_handle 3" "r = (84, [])" by (auto simp: demo_cache_def split: if_splits)
  then show "nonVolatileTab rt \<in> set (concat [[3]]) \<and> range_rep default_rocksdb (heap cache_pool) rt r"
    by (simp add: range_rep_def cache_handle_def cache_pool_def) (simp add: cache_tab_def)
next
  fix x assume "x \<in> set (concat [[3 :: nat]])"
  then show "named (heap cache_pool) (prefix2range (demo_cache [([65], cache_handle 3)])) x"
    by (auto simp: named_def tab_of_def demo_cache_def cache_handle_def cache_pool_def cache_tab_def c_str_def)
qed (auto simp: demo_cache_def split: if_splits)

theorem cache_refines_spec_witness:
  "\<exists>s'. run_all (exec_cmd healthy default_rocksdb demo_range)
      [CmdAppend (replicate 8 1) (replicate 8 0) [([65], [6])] (demo_meta [65]), CmdGet [65]] (demo_cache [([65], cache_handle 3)], cache_pool) =
    (Val [Appended, Got (Inr (OK [6]))], s')"
  using cache_refines_spec [OF nvm_cache.cache_env_axioms cache_pool_rep,
      of "[CmdAppend (replicate 8 1) (replicate 8 0) [([65], [6])] (demo_meta [65]), CmdGet [65]]" demo_range]
  by (simp add: demo_meta_def spec_append_def spec_get_def arange_def demo_prefix demo_size keys_sorted_def) blast

end
