(* ===== verification/Cache_Restart.thy ===== *)
theory Cache_Restart
  imports Cache_Spec
begin

text \<open>
  The write cache over its whole life: appends, look-ups and restarts in any order. A restart drops all volatile state, replays the undo
  log and runs \<open>RebuildFromPersistentNode\<close>. What it brings back depends on the sequence number of a table: with one that is not 0 the
  blocks are read again from the buffer, with 0 the constructor takes the table for a new one, clears its header and starts with no
  blocks. Ranges that the cache itself creates have 0 here, as in \<open>NvRangeTab\<close>; in \<open>putAndGet\<close> the value is a hole in
  the source and the argument \<open>seq0\<close> of the model.
\<close>

section \<open>Commands with restarts\<close>

datatype life_cmd = Run cache_cmd | Restart

datatype life_res = Done cache_res | Reopened

text \<open>The volatile part of a cache that was just constructed, with \<open>pinfo_\<close> set to the root object.\<close>

definition reopened_cache :: "WriteCache \<Rightarrow> WriteCache" where
  "reopened_cache v = v\<lparr>prefix2range := [], range_queue := []\<rparr>"

fun exec_life :: "pobj libpmemobj \<Rightarrow> rocksdb \<Rightarrow> FixedRangeTab \<Rightarrow> life_cmd \<Rightarrow> life_res cache_op" where
  "exec_life L E junk (Run c) = bindC (exec_cmd L E junk c) (\<lambda>r. returnC (Done r))"
| "exec_life L E junk Restart =
     (\<lambda>(v, p). thenC (RebuildFromPersistentNode E junk) (returnC Reopened) (reopened_cache v, recover p))"

text \<open>The abstract cache with the set of its durable prefixes. A restart empties the other ranges, but their space stays used.\<close>

type_synonym life = "acache \<times> byte list set"

definition spec_restart :: "life \<Rightarrow> life" where
  "spec_restart = (\<lambda>(m, D). (\<lambda>k. map_option (\<lambda>(free, cs). (free, if k \<in> D then cs else [])) (m k), D))"

fun spec_life :: "rocksdb \<Rightarrow> life_cmd \<Rightarrow> life \<Rightarrow> life_res \<times> life" where
  "spec_life E (Run c) (m, D) = (case spec_cmd E c m of (r, m') \<Rightarrow> (Done r, m', D))"
| "spec_life E Restart s = (Reopened, spec_restart s)"

fun ok_life :: "rocksdb \<Rightarrow> life_cmd \<Rightarrow> life \<Rightarrow> bool" where
  "ok_life E (Run c) (m, D) \<longleftrightarrow> ok_cmd E c m \<and> (case c of CmdAppend bloom gap kvs meta \<Rightarrow> length (meta_prefix meta) < 2 ^ 64 | CmdGet key \<Rightarrow> True)"
| "ok_life E Restart s \<longleftrightarrow> True"

section \<open>Ranges that can be reopened\<close>

definition reopenable :: "rocksdb \<Rightarrow> (nat \<rightharpoonup> pobj) \<Rightarrow> bool \<Rightarrow> byte list \<Rightarrow> FixedRangeTab \<Rightarrow> bool" where
  "reopenable E h durable k rt \<longleftrightarrow> (\<exists>t b. h (nonVolatileTab rt) = Some (RangeTab t) \<and> h (buf t) = Some (Bytes b) \<and>
     h (prefix t) = Some (Bytes (c_str k)) \<and> unat (prefixLen t) = length k \<and> 16 \<le> length b \<and> length b < 2 ^ 63 \<and>
     (if durable then seq_num t \<noteq> 0 \<and> blocks_at E b 16 (blklist rt) (unat (dataLen t)) else seq_num t = 0))"

lemma reopenableE:
  assumes "reopenable E h durable k rt"
  obtains t b where "h (nonVolatileTab rt) = Some (RangeTab t)" and "h (buf t) = Some (Bytes b)"
    and "h (prefix t) = Some (Bytes (c_str k))" and "unat (prefixLen t) = length k" and "16 \<le> length b" and "length b < 2 ^ 63"
    and "seq_num t \<noteq> 0 \<longleftrightarrow> durable" and "durable \<Longrightarrow> blocks_at E b 16 (blklist rt) (unat (dataLen t))"
  using assms unfolding reopenable_def by (auto split: if_splits)

definition life_rep :: "rocksdb \<Rightarrow> WriteCache \<times> pmem \<Rightarrow> life \<Rightarrow> bool" where
  "life_rep E s l \<longleftrightarrow> (case (s, l) of ((v, p), m, D) \<Rightarrow> cache_rep E (v, p) m \<and> D \<subseteq> dom m \<and>
     (\<forall>k rt. map_of (prefix2range v) k = Some rt \<longrightarrow> reopenable E (heap p) (k \<in> D) k rt))"

section \<open>Commands keep ranges reopenable\<close>

lemma reopenable_kept:
  assumes "reopenable E h d k rt" and "\<And>y ob. h y = Some ob \<Longrightarrow> \<forall>ys. ob \<noteq> NodeArray ys \<Longrightarrow> h' y = Some ob"
  shows "reopenable E h' d k rt"
proof -
  from assms(1) obtain t b where t: "h (nonVolatileTab rt) = Some (RangeTab t)" "h (buf t) = Some (Bytes b)"
    "h (prefix t) = Some (Bytes (c_str k))" "unat (prefixLen t) = length k" "16 \<le> length b" "length b < 2 ^ 63"
    "seq_num t \<noteq> 0 \<longleftrightarrow> d" "d \<Longrightarrow> blocks_at E b 16 (blklist rt) (unat (dataLen t))" by (rule reopenableE) (rule that)
  then show ?thesis unfolding reopenable_def using t(1-3) [THEN assms(2)] by auto
qed

lemma reopenable_appended_other:
  assumes "reopenable E h d k rt" and "appended a t len b' h h'" and "separate h all" and "nonVolatileTab rt \<in> set all" and "a \<in> set all"
    and "nonVolatileTab rt \<noteq> a"
  shows "reopenable E h' d k rt"
proof -
  from assms(1) obtain u b where u: "h (nonVolatileTab rt) = Some (RangeTab u)" "h (buf u) = Some (Bytes b)"
    "h (prefix u) = Some (Bytes (c_str k))" "unat (prefixLen u) = length k" "16 \<le> length b" "length b < 2 ^ 63"
    "seq_num u \<noteq> 0 \<longleftrightarrow> d" "d \<Longrightarrow> blocks_at E b 16 (blklist rt) (unat (dataLen u))" by (rule reopenableE) (rule that)
  have a: "h a = Some (RangeTab t)" using assms(2) by (simp add: appended_def)
  have "buf t \<noteq> buf u" "buf t \<noteq> prefix u" using separateD [OF assms(3,5,4) a u(1)] assms(6) by auto
  moreover have "nonVolatileTab rt \<noteq> buf t" "a \<noteq> buf u" "a \<noteq> prefix u" using assms(2) a u by (auto simp: appended_def)
  ultimately have "h' (nonVolatileTab rt) = Some (RangeTab u)" "h' (buf u) = Some (Bytes b)" "h' (prefix u) = Some (Bytes (c_str k))"
    using appended_tab(3) [OF assms(2)] u assms(6) by auto
  with u show ?thesis by (auto simp: reopenable_def)
qed


context coding64
begin

lemma reopenable_appended_own:
  assumes "reopenable E h d k rt" and "appended a t len b' h h'" and "a = nonVolatileTab rt" and "separate h all" and "a \<in> set all"
    and "chunk_bloom_bits E = 8" and "8 \<le> length bloom" and b: "h (buf t) = Some (Bytes b)"
    and poke: "poke b (unat (dataLen t)) (block_bytes E bloom data) = Some b'" and len: "unat len = unat (dataLen t) + 16 + length data"
  shows "reopenable E h' d k (rt\<lparr>blklist := blklist rt @ [new_block E (dataLen t) data]\<rparr>)"
proof -
  have a: "h a = Some (RangeTab t)" using assms(2) by (simp add: appended_def)
  with assms(1,3) b have u: "h (prefix t) = Some (Bytes (c_str k))" "unat (prefixLen t) = length k" "16 \<le> length b" "length b < 2 ^ 63"
    "seq_num t \<noteq> 0 \<longleftrightarrow> d" "d \<Longrightarrow> blocks_at E b 16 (blklist rt) (unat (dataLen t))" by (auto elim!: reopenableE)
  have "buf t \<noteq> prefix t" by (rule separateD(1) [OF assms(4,5,5) a a])
  moreover have "a \<noteq> prefix t" using a u(1) by auto
  ultimately have pre: "h' (prefix t) = Some (Bytes (c_str k))" using appended_tab(3) [OF assms(2) u(1)] by auto
  have "d \<Longrightarrow> blocks_at E b' 16 (blklist rt @ [new_block E (dataLen t) data]) (unat len)"
    using append_blocks [OF assms(6,7) _ _ poke] u(4,6) len by simp
  with pre u appended_tab(1,2) [OF assms(2)] poke_length [OF poke] assms(3) show ?thesis
    by (auto simp: reopenable_def)
qed

end

lemma cache_rep_nodes:
  assumes "cache_rep E (v, p) m"
  obtains pin nss where "heap p (pinfo v) = Some (Info pin)" and "is_prefix_map (range_map pin) p nss" and "separate (heap p) (concat nss)"
    and "\<And>k rt. map_of (prefix2range v) k = Some rt \<Longrightarrow> nonVolatileTab rt \<in> set (concat nss)"
    and "\<And>x. x \<in> set (concat nss) \<Longrightarrow> named (heap p) (prefix2range v) x"
    and "\<And>k k' rt rt'. map_of (prefix2range v) k = Some rt \<Longrightarrow> map_of (prefix2range v) k' = Some rt' \<Longrightarrow> k \<noteq> k' \<Longrightarrow>
        nonVolatileTab rt \<noteq> nonVolatileTab rt'"
proof -
  from assms obtain pin nss where r: "heap p (pinfo v) = Some (Info pin)" "is_prefix_map (range_map pin) p nss" "nss \<noteq> []"
    "separate (heap p) (concat nss)" "dom m = dom (map_of (prefix2range v))"
    and ranges: "\<And>k rt r. map_of (prefix2range v) k = Some rt \<Longrightarrow> m k = Some r \<Longrightarrow> nonVolatileTab rt \<in> set (concat nss) \<and> range_rep E (heap p) rt r"
    and named: "\<And>x. x \<in> set (concat nss) \<Longrightarrow> named (heap p) (prefix2range v) x"
    and dist: "\<And>k k' rt rt'. map_of (prefix2range v) k = Some rt \<Longrightarrow> map_of (prefix2range v) k' = Some rt' \<Longrightarrow> k \<noteq> k' \<Longrightarrow>
        nonVolatileTab rt \<noteq> nonVolatileTab rt'" by (rule cache_repE) (rule that)
  have "nonVolatileTab rt \<in> set (concat nss)" if "map_of (prefix2range v) k = Some rt" for k rt
  proof -
    from that r(5) obtain r' where "m k = Some r'" by (metis domD domI)
    from ranges [OF that this] show ?thesis ..
  qed
  from that [OF r(1,2,4) this named dist] show ?thesis .
qed

lemma life_rep_iff: "life_rep E (v, p) (m, D) \<longleftrightarrow> cache_rep E (v, p) m \<and> D \<subseteq> dom m \<and>
    (\<forall>k rt. map_of (prefix2range v) k = Some rt \<longrightarrow> reopenable E (heap p) (k \<in> D) k rt)"
  by (simp add: life_rep_def)

context cache_env
begin

lemma life_append_known:
  assumes rep: "life_rep E (v, p) (m, D)" and k: "map_of (prefix2range v) k = Some rt" "m k = Some (free, cs)"
    and ok: "8 \<le> length bloom" "length gap = 8 * length kvs \<and> length kvs < 2 ^ 31" "keys_sorted E kvs" "length s + length e + 16 < 2 ^ 64"
      "block_size E gap kvs \<le> free"
  shows "\<exists>w p'. on_range k (Append L E bloom (chunk_bytes E gap kvs) s e) (v, p) = (Val (), w, p') \<and>
    life_rep E (w, p') (m(k \<mapsto> (free - block_size E gap kvs, cs @ [(bloom, kvs)])), D)"
proof -
  have c: "cache_rep E (v, p) m" and D: "D \<subseteq> dom m"
    and ro: "\<And>k rt. map_of (prefix2range v) k = Some rt \<Longrightarrow> reopenable E (heap p) (k \<in> D) k rt"
    using rep by (simp_all add: life_rep_iff)
  from c obtain pin nss where nodes: "heap p (pinfo v) = Some (Info pin)" "is_prefix_map (range_map pin) p nss"
    and sep: "separate (heap p) (concat nss)"
    and all: "\<And>k rt. map_of (prefix2range v) k = Some rt \<Longrightarrow> nonVolatileTab rt \<in> set (concat nss)"
    and named: "\<And>x. x \<in> set (concat nss) \<Longrightarrow> named (heap p) (prefix2range v) x"
    and dist: "\<And>k k' rt rt'. map_of (prefix2range v) k = Some rt \<Longrightarrow> map_of (prefix2range v) k' = Some rt' \<Longrightarrow> k \<noteq> k' \<Longrightarrow>
        nonVolatileTab rt \<noteq> nonVolatileTab rt'"
    by (rule cache_rep_nodes) (rule that)
  from c k ok show ?thesis
  proof (rule rep_append_frame, goal_cases)
    case (1 t b len b' rt' p')
    have a: "nonVolatileTab rt \<in> set (concat nss)" by (rule all [OF k(1)])
    have "reopenable E (heap p') (k' \<in> D) k' rt1" if "map_of (prefix2range (v\<lparr>prefix2range := put_range k rt' (prefix2range v)\<rparr>)) k' = Some rt1" for k' rt1
    proof (cases "k' = k")
      case True
      with that have "rt1 = rt\<lparr>blklist := blklist rt @ [new_block E (dataLen t) (chunk_bytes E gap kvs)]\<rparr>" using 1(3) by simp
      with reopenable_appended_own [OF ro [OF k(1)] 1(4) refl sep a bits ok(1) 1(5,7,8)] True show ?thesis by simp
    next
      case False
      with that have o: "map_of (prefix2range v) k' = Some rt1" by simp
      from reopenable_appended_other [OF ro [OF o] 1(4) sep all [OF o] a dist [OF o k(1) False]] show ?thesis .
    qed
    with 1(1,2) D show ?case by (auto simp: life_rep_iff)
  qed
qed

lemma life_new:
  assumes rep: "life_rep E (v, p) (m, D)" and new: "m k = None" and k: "0 \<notin> set k" "length k < 2 ^ 64"
  shows "\<exists>rt p'. NewRange L E 0 junk k (v, p) = (Val (), v\<lparr>prefix2range := prefix2range v @ [(k, rt)]\<rparr>, p') \<and>
    map_of (prefix2range v) k = None \<and> life_rep E (v\<lparr>prefix2range := prefix2range v @ [(k, rt)]\<rparr>, p') (m(k \<mapsto> arange m k), D)"
proof -
  have c: "cache_rep E (v, p) m" and D: "D \<subseteq> dom m"
    and ro: "\<And>k rt. map_of (prefix2range v) k = Some rt \<Longrightarrow> reopenable E (heap p) (k \<in> D) k rt"
    using rep by (simp_all add: life_rep_iff)
  from c new k(1) show ?thesis
  proof (rule rep_new_frame [where junk = junk], goal_cases)
    case (1 rt t b p')
    have "k \<notin> D" using new D by auto
    then have own: "reopenable E (heap p') (k \<in> D) k rt"
      using 1(4-9) k(2) by (auto simp: reopenable_def range_buf_size_def unat_of_nat_u64)
    have "map_of (prefix2range v @ [(k, rt)]) = (map_of (prefix2range v))(k \<mapsto> rt)"
      using 1(2) by (auto simp: fun_eq_iff map_add_def split: option.split)
    with own have "reopenable E (heap p') (k' \<in> D) k' rt1" if "map_of (prefix2range v @ [(k, rt)]) k' = Some rt1" for k' rt1
      using that reopenable_kept [OF ro 1(10)] by (auto split: if_splits)
    with 1(1,2,3) D show ?case by (auto simp: life_rep_iff)
  qed
qed

end

section \<open>What a restart does to the pool\<close>

text \<open>Constructing the handles clears the headers of the tables with sequence number 0 and changes nothing else.\<close>

definition cleared :: "nat list \<Rightarrow> (nat \<rightharpoonup> pobj) \<Rightarrow> (nat \<rightharpoonup> pobj) \<Rightarrow> bool" where
  "cleared as h h' \<longleftrightarrow> dom h' = dom h \<and> (\<forall>y ob. h y = Some ob \<longrightarrow> h' y = Some ob \<or>
     (\<exists>x\<in>set as. \<exists>t b b'. h x = Some (RangeTab t) \<and> seq_num t = 0 \<and> y = buf t \<and> ob = Bytes b \<and>
       h' y = Some (Bytes b') \<and> length b' = length b))"

lemma cleared_refl: "cleared as h h"
  by (simp add: cleared_def)

lemma cleared_keeps:
  assumes "cleared as h h'" and "h y = Some ob"
  shows "(\<And>b. ob \<noteq> Bytes b) \<Longrightarrow> h' y = Some ob"
    and "(\<And>x t. x \<in> set as \<Longrightarrow> h x = Some (RangeTab t) \<Longrightarrow> seq_num t = 0 \<Longrightarrow> y \<noteq> buf t) \<Longrightarrow> h' y = Some ob"
    and "ob = Bytes b \<Longrightarrow> \<exists>b'. h' y = Some (Bytes b') \<and> length b' = length b"
  using assms unfolding cleared_def by blast+

lemma cleared_write:
  assumes "cleared as h h'" and "x \<in> set as" and "h x = Some (RangeTab t)" and "seq_num t = 0" and "h' (buf t) = Some (Bytes b)"
    and "length b' = length b" and "h (buf t) = Some (Bytes b0)"
  shows "cleared as h (h'(buf t \<mapsto> Bytes b'))"
proof -
  from cleared_keeps(3) [OF assms(1,7) refl] assms(5) have len: "length b = length b0" by auto
  have dom: "dom (h'(buf t \<mapsto> Bytes b')) = dom h" using assms(1,5) by (auto simp: cleared_def)
  have "(h'(buf t \<mapsto> Bytes b')) y = Some ob \<or> (\<exists>x\<in>set as. \<exists>u c c'. h x = Some (RangeTab u) \<and> seq_num u = 0 \<and> y = buf u \<and> ob = Bytes c \<and>
       (h'(buf t \<mapsto> Bytes b')) y = Some (Bytes c') \<and> length c' = length c)" if "h y = Some ob" for y ob
  proof (cases "y = buf t")
    case True
    with that assms(2-4,6,7) len show ?thesis by auto
  next
    case False
    then have "(h'(buf t \<mapsto> Bytes b')) y = h' y" by simp
    moreover from assms(1) that have "h' y = Some ob \<or> (\<exists>x\<in>set as. \<exists>u c c'. h x = Some (RangeTab u) \<and> seq_num u = 0 \<and> y = buf u \<and>
        ob = Bytes c \<and> h' y = Some (Bytes c') \<and> length c' = length c)" unfolding cleared_def by blast
    ultimately show ?thesis by (simp only:)
  qed
  with dom show ?thesis unfolding cleared_def by blast
qed

text \<open>The parts of a table that a restart finds unchanged.\<close>

lemma cleared_table:
  assumes cl: "cleared all h h'" and sep: "separate h all" and x: "nonVolatileTab rt \<in> set all" and ro: "reopenable E h d k rt"
  obtains t b b' where "h (nonVolatileTab rt) = Some (RangeTab t)" and "h' (nonVolatileTab rt) = Some (RangeTab t)"
    and "h (buf t) = Some (Bytes b)" and "h' (buf t) = Some (Bytes b')" and "length b' = length b" and "d \<Longrightarrow> b' = b"
    and "h' (prefix t) = Some (Bytes (c_str k))" and "unat (prefixLen t) = length k" and "16 \<le> length b" and "length b < 2 ^ 63"
    and "seq_num t \<noteq> 0 \<longleftrightarrow> d" and "d \<Longrightarrow> blocks_at E b 16 (blklist rt) (unat (dataLen t))"
proof -
  from ro obtain t b where t: "h (nonVolatileTab rt) = Some (RangeTab t)" "h (buf t) = Some (Bytes b)"
    "h (prefix t) = Some (Bytes (c_str k))" "unat (prefixLen t) = length k" "16 \<le> length b" "length b < 2 ^ 63"
    "seq_num t \<noteq> 0 \<longleftrightarrow> d" "d \<Longrightarrow> blocks_at E b 16 (blklist rt) (unat (dataLen t))" by (rule reopenableE) (rule that)
  have tab: "h' (nonVolatileTab rt) = Some (RangeTab t)" by (rule cleared_keeps(1) [OF cl t(1)]) simp
  have pre: "h' (prefix t) = Some (Bytes (c_str k))"
    by (rule cleared_keeps(2) [OF cl t(3)]) (use separateD(1) [OF sep _ x _ t(1)] in \<open>metis\<close>)
  from cleared_keeps(3) [OF cl t(2) refl] obtain b' where b': "h' (buf t) = Some (Bytes b')" "length b' = length b" by blast
  have "b' = b" if d
  proof -
    have "h' (buf t) = Some (Bytes b)"
    proof (rule cleared_keeps(2) [OF cl t(2)])
      fix y u assume y: "y \<in> set all" "h y = Some (RangeTab u)" "seq_num u = 0"
      with t(1,7) \<open>d\<close> have "nonVolatileTab rt \<noteq> y" by auto
      from separateD(2) [OF sep x y(1) t(1) y(2) this] show "buf t \<noteq> buf u" .
    qed
    with b' show ?thesis by simp
  qed
  from that [OF t(1) tab t(2) b' this pre t(4-8)] show ?thesis .
qed

text \<open>The handle that the constructor makes for the table of an old one.\<close>

definition new_handle :: "FixedRangeTab \<Rightarrow> (nat \<rightharpoonup> pobj) \<Rightarrow> bool \<Rightarrow> FixedRangeTab \<Rightarrow> FixedRangeTab" where
  "new_handle junk h d rt = (if d then recovered junk (nonVolatileTab rt) (blklist rt)
     else junk\<lparr>nonVolatileTab := nonVolatileTab rt, blklist := [], pendding_clean := 0,
       raw := (case h (nonVolatileTab rt) of Some (RangeTab t) \<Rightarrow> (buf t, 16) | _ \<Rightarrow> (0, 16)), in_compaction := False\<rparr>)"

lemma new_handle_simps [simp]:
  "nonVolatileTab (new_handle junk h d rt) = nonVolatileTab rt"
  "blklist (new_handle junk h d rt) = (if d then blklist rt else [])"
  by (simp_all add: new_handle_def recovered_def)

context steady_env
begin

lemma new_FixedRangeTab_reopen:
  assumes cl: "cleared all h (heap p)" and sep: "separate h all" and x: "nonVolatileTab rt \<in> set all" and ro: "reopenable E h d k rt"
  shows "\<exists>h'. new_FixedRangeTab E junk (nonVolatileTab rt) (v, p) = (Val (new_handle junk h d rt), v, p\<lparr>heap := h'\<rparr>) \<and> cleared all h h'"
  using cl sep x ro
proof (rule cleared_table, goal_cases)
  case (1 t b b')
  show ?case
  proof (cases d)
    case True
    let ?w = "junk\<lparr>nonVolatileTab := nonVolatileTab rt, blklist := [], pendding_clean := 0\<rparr>"
    have "RebuildBlkList E (?w, p) = (Val (), ?w\<lparr>blklist := [] @ blklist rt\<rparr>, p)"
      using RebuildBlkList_blocks [of p ?w t b "blklist rt"] 1 True by simp
    then have "FixedRangeTab_ctor E (nonVolatileTab rt) (junk, p) = (Val (), recovered junk (nonVolatileTab rt) (blklist rt), p)"
      using 1(2,11) True by (simp add: FixedRangeTab_ctor_def exec_simps vmod_run pread_def recovered_def)
    with True cl show ?thesis by (intro exI [of _ "heap p"]) (simp add: new_FixedRangeTab_def new_handle_def)
  next
    case False
    then have seq: "seq_num t = 0" using 1(11) by simp
    have "16 \<le> length b'" using 1(5,9) by simp
    from new_FixedRangeTab_fresh [OF 1(2) seq 1(4) this, of junk v] obtain c where c: "length c = length b'"
      "new_FixedRangeTab E junk (nonVolatileTab rt) (v, p) =
        (Val (junk\<lparr>nonVolatileTab := nonVolatileTab rt, blklist := [], pendding_clean := 0, raw := (buf t, 16), in_compaction := False\<rparr>),
         v, p\<lparr>heap := (heap p)(buf t \<mapsto> Bytes c)\<rparr>)" by blast
    have "cleared all h ((heap p)(buf t \<mapsto> Bytes c))" by (rule cleared_write [OF cl x 1(1) seq 1(4) c(1) 1(3)])
    with c(2) False 1(1) show ?thesis
      by (intro exI [of _ "(heap p)(buf t \<mapsto> Bytes c)"]) (simp add: new_handle_def)
  qed
qed

end

section \<open>The handles after a restart\<close>

text \<open>What \<open>cache_rep\<close> and \<open>reopenable\<close> say of the nodes \<open>all\<close> of the prefix map and of the map of ranges.\<close>

definition reopen_inv :: "rocksdb \<Rightarrow> (nat \<rightharpoonup> pobj) \<Rightarrow> (byte list \<times> FixedRangeTab) list \<Rightarrow> byte list set \<Rightarrow> nat list \<Rightarrow> bool" where
  "reopen_inv E h kts D all \<longleftrightarrow> separate h all \<and> (\<forall>x\<in>set all. named h kts x) \<and>
     (\<forall>k rt. map_of kts k = Some rt \<longrightarrow> nonVolatileTab rt \<in> set all \<and> reopenable E h (k \<in> D) k rt) \<and>
     (\<forall>k k' rt rt'. map_of kts k = Some rt \<longrightarrow> map_of kts k' = Some rt' \<longrightarrow> k \<noteq> k' \<longrightarrow> nonVolatileTab rt \<noteq> nonVolatileTab rt')"

definition handles :: "FixedRangeTab \<Rightarrow> (nat \<rightharpoonup> pobj) \<Rightarrow> (byte list \<times> FixedRangeTab) list \<Rightarrow> byte list set \<Rightarrow> byte list \<rightharpoonup> FixedRangeTab" where
  "handles junk h kts D = (\<lambda>k. map_option (new_handle junk h (k \<in> D)) (map_of kts k))"

definition restored :: "(byte list \<rightharpoonup> FixedRangeTab) \<Rightarrow> nat list \<Rightarrow> (byte list \<rightharpoonup> FixedRangeTab) \<Rightarrow> byte list \<rightharpoonup> FixedRangeTab" where
  "restored nh as M = (\<lambda>k. case nh k of None \<Rightarrow> M k | Some rt \<Rightarrow> if nonVolatileTab rt \<in> set as then Some rt else M k)"

lemma restored_Nil [simp]: "restored nh [] M = M"
  by (auto simp: restored_def split: option.split)

lemma restored_append: "restored nh (as @ bs) M = restored nh bs (restored nh as M)"
  by (auto simp: restored_def fun_eq_iff split: option.split)

lemma restored_Cons:
  assumes "nh k = Some rt" and "nonVolatileTab rt = x" and "\<And>k' rt'. nh k' = Some rt' \<Longrightarrow> nonVolatileTab rt' = x \<Longrightarrow> k' = k"
  shows "restored nh (x # as) M = restored nh as (M(k \<mapsto> rt))"
proof (rule ext)
  fix k'
  show "restored nh (x # as) M k' = restored nh as (M(k \<mapsto> rt)) k'"
  proof (cases "k' = k")
    case True
    with assms(1,2) show ?thesis by (simp add: restored_def)
  next
    case False
    with assms(3) [of k'] show ?thesis by (auto simp: restored_def split: option.split)
  qed
qed

lemma reopen_inv_node:
  assumes "reopen_inv E h kts D all" and "x \<in> set all"
  obtains k rt where "map_of kts k = Some rt" and "nonVolatileTab rt = x" and "reopenable E h (k \<in> D) k rt"
    and "\<And>k' rt'. handles junk h kts D k' = Some rt' \<Longrightarrow> nonVolatileTab rt' = x \<Longrightarrow> k' = k"
proof -
  from assms have "named h kts x" by (simp add: reopen_inv_def)
  then obtain k rt where k: "map_of kts k = Some rt" "nonVolatileTab rt = x" by (auto simp: named_def tab_of_def)
  moreover have "reopenable E h (k \<in> D) k rt" using assms(1) k(1) by (simp add: reopen_inv_def)
  moreover have "k' = k" if "handles junk h kts D k' = Some rt'" "nonVolatileTab rt' = x" for k' rt'
  proof (rule ccontr)
    assume "k' \<noteq> k"
    from that(1) obtain rt1 where rt1: "map_of kts k' = Some rt1" "rt' = new_handle junk h (k' \<in> D) rt1" by (auto simp: handles_def)
    from assms(1) have "\<forall>k k' rt rt'. map_of kts k = Some rt \<longrightarrow> map_of kts k' = Some rt' \<longrightarrow> k \<noteq> k' \<longrightarrow> nonVolatileTab rt \<noteq> nonVolatileTab rt'"
      unfolding reopen_inv_def by (elim conjE)
    from this [rule_format, OF rt1(1) k(1) \<open>k' \<noteq> k\<close>] have "nonVolatileTab rt1 \<noteq> nonVolatileTab rt" .
    with rt1(2) that(2) k(2) show False by simp
  qed
  ultimately show ?thesis by (rule that)
qed

context steady_env
begin

lemma rebuild_node_reopen:
  assumes inv: "reopen_inv E h kts D all" and cl: "cleared all h (heap p)" and x: "x \<in> set all"
  shows "\<exists>t k rt h'. h x = Some (RangeTab t) \<and> handles junk h kts D k = Some rt \<and> nonVolatileTab rt = x \<and>
    (\<forall>k' rt'. handles junk h kts D k' = Some rt' \<longrightarrow> nonVolatileTab rt' = x \<longrightarrow> k' = k) \<and>
    rebuild_node E junk x (v, p) = (Val (next t), v\<lparr>prefix2range := put_range k rt (prefix2range v)\<rparr>, p\<lparr>heap := h'\<rparr>) \<and> cleared all h h'"
proof -
  from inv x obtain k rt where k: "map_of kts k = Some rt" "nonVolatileTab rt = x" "reopenable E h (k \<in> D) k rt"
    and uniq: "\<And>k' rt'. handles junk h kts D k' = Some rt' \<Longrightarrow> nonVolatileTab rt' = x \<Longrightarrow> k' = k"
    by (rule reopen_inv_node [where junk = junk]) (rule that)
  have sep: "separate h all" using inv by (simp add: reopen_inv_def)
  have x': "nonVolatileTab rt \<in> set all" using x k(2) by simp
  from new_FixedRangeTab_reopen [OF cl sep x' k(3), of junk v] k(2) obtain h' where
    run: "new_FixedRangeTab E junk x (v, p) = (Val (new_handle junk h (k \<in> D) rt), v, p\<lparr>heap := h'\<rparr>)"
    and h': "cleared all h h'" by auto
  from h' sep x' k(3) obtain t where t: "h x = Some (RangeTab t)" "h' x = Some (RangeTab t)"
    "h' (prefix t) = Some (Bytes (c_str k))" "unat (prefixLen t) = length k"
    by (rule cleared_table) (use k(2) in auto)
  have "read_n (length k) (c_str k) = Val k" by (simp add: read_n_def peek_def c_str_def)
  with t have "rebuild_node E junk x (v, p) =
      (Val (next t), v\<lparr>prefix2range := put_range k (new_handle junk h (k \<in> D) rt) (prefix2range v)\<rparr>, p\<lparr>heap := h'\<rparr>)"
    by (simp add: rebuild_node_def exec_simps run pread_def vmod_run)
  with t(1) k(1,2) uniq h' show ?thesis
    by (intro exI [of _ t] exI [of _ k] exI [of _ "new_handle junk h (k \<in> D) rt"] exI [of _ h']) (simp add: handles_def)
qed

lemma rebuild_bucket_reopen:
  assumes "nodes h a as" and inv: "reopen_inv E h kts D all" and "cleared all h (heap p)" and "set as \<subseteq> set all" and "a \<noteq> 0"
  shows "\<exists>kts' h'. rebuild_bucket E junk a (v, p) = Some (Val (), v\<lparr>prefix2range := kts'\<rparr>, p\<lparr>heap := h'\<rparr>) \<and>
    map_of kts' = restored (handles junk h kts D) as (map_of (prefix2range v)) \<and> cleared all h h'"
  using assms(1,3-5)
proof (induction arbitrary: v p rule: nodes.induct)
  case (nodes_Cons a u bs as)
  from nodes_Cons.prems have a: "a \<in> set all" by simp
  from rebuild_node_reopen [OF inv nodes_Cons.prems(1) a, of junk v] obtain t k rt h1 where
    t: "h a = Some (RangeTab t)" and k: "handles junk h kts D k = Some rt" "nonVolatileTab rt = a"
      "\<And>k' rt'. handles junk h kts D k' = Some rt' \<Longrightarrow> nonVolatileTab rt' = a \<Longrightarrow> k' = k"
    and run: "rebuild_node E junk a (v, p) = (Val (next t), v\<lparr>prefix2range := put_range k rt (prefix2range v)\<rparr>, p\<lparr>heap := h1\<rparr>)"
    and h1: "cleared all h h1" by blast
  have u: "u = t" using t nodes_Cons.hyps(2) by simp
  have step: "restored (handles junk h kts D) (a # as) M = restored (handles junk h kts D) as (M(k \<mapsto> rt))" for M
    by (rule restored_Cons [where nh = "handles junk h kts D", OF k])
  show ?case
  proof (cases "next t = 0")
    case True
    with nodes_Cons.hyps u have "as = []" by (auto elim: nodes.cases)
    with True run step h1 show ?thesis by (subst rebuild_bucket.simps) (auto intro!: exI [of _ "put_range k rt (prefix2range v)"])
  next
    case False
    let ?w = "v\<lparr>prefix2range := put_range k rt (prefix2range v)\<rparr>"
    have "\<exists>kts' h'. rebuild_bucket E junk (next t) (?w, p\<lparr>heap := h1\<rparr>) = Some (Val (), v\<lparr>prefix2range := kts'\<rparr>, p\<lparr>heap := h'\<rparr>) \<and>
        map_of kts' = restored (handles junk h kts D) as ((map_of (prefix2range v))(k \<mapsto> rt)) \<and> cleared all h h'"
      using nodes_Cons.IH [of "p\<lparr>heap := h1\<rparr>" ?w] nodes_Cons.prems(2) False u h1 by (simp add: fun_upd_def)
    then show ?thesis using run False step by (subst rebuild_bucket.simps) simp
  qed
qed simp

lemma rebuild_buckets_reopen:
  assumes inv: "reopen_inv E h kts D all" and ta: "h ta = Some (NodeArray xs)"
    and "cleared all h (heap p)" and "list_all2 (nodes h) (drop i xs) nss" and "set (concat nss) \<subseteq> set all"
  shows "\<exists>kts' h'. rebuild_buckets E junk ta i (length nss) (v, p) = (Val (), v\<lparr>prefix2range := kts'\<rparr>, p\<lparr>heap := h'\<rparr>) \<and>
    map_of kts' = restored (handles junk h kts D) (concat nss) (map_of (prefix2range v)) \<and> cleared all h h'"
  using assms(3-5)
proof (induction nss arbitrary: i v p rule: list.induct)
  case Nil
  then show ?case by (intro exI [of _ "prefix2range v"] exI [of _ "heap p"]) (simp add: returnC_def)
next
  case (Cons ns nss)
  then have i: "i < length xs" by (auto dest: list_all2_lengthD)
  then have "drop i xs = xs ! i # drop (Suc i) xs" by (simp add: Cons_nth_drop_Suc)
  with Cons.prems have n: "nodes h (xs ! i) ns" and r: "list_all2 (nodes h) (drop (Suc i) xs) nss" by simp_all
  have sub: "set ns \<subseteq> set all" "set (concat nss) \<subseteq> set all" using Cons.prems(3) by simp_all
  have "heap p ta = Some (NodeArray xs)" by (rule cleared_keeps(1) [OF Cons.prems(1) ta]) simp
  then have slot: "with_heap (\<lambda>h. slot_at h ta i) (v, p) = (Val (xs ! i), v, p)"
    using i by (simp add: with_heap_def slot_at_def)
  note IH = Cons.IH [OF _ r sub(2)]
  show ?case
  proof (cases "xs ! i = 0")
    case True
    with n have "ns = []" by (auto elim: nodes.cases)
    with True slot IH [OF Cons.prems(1), of v] show ?thesis by (simp add: exec_simps)
  next
    case False
    from rebuild_bucket_reopen [OF n inv Cons.prems(1) sub(1) False, of junk v] obtain kts1 h1 where
      1: "rebuild_bucket E junk (xs ! i) (v, p) = Some (Val (), v\<lparr>prefix2range := kts1\<rparr>, p\<lparr>heap := h1\<rparr>)"
      "map_of kts1 = restored (handles junk h kts D) ns (map_of (prefix2range v))" "cleared all h h1" by blast
    have "\<exists>kts' h'. rebuild_buckets E junk ta (Suc i) (length nss) (v\<lparr>prefix2range := kts1\<rparr>, p\<lparr>heap := h1\<rparr>) =
        (Val (), v\<lparr>prefix2range := kts'\<rparr>, p\<lparr>heap := h'\<rparr>) \<and>
      map_of kts' = restored (handles junk h kts D) (concat nss) (map_of kts1) \<and> cleared all h h'"
      using IH [of "p\<lparr>heap := h1\<rparr>" "v\<lparr>prefix2range := kts1\<rparr>"] 1(3) by simp
    with False slot 1 show ?thesis by (simp add: exec_simps restored_append)
  qed
qed

lemma RebuildFromPersistentNode_reopen:
  assumes inv: "reopen_inv E (heap p) kts D (concat nss)" and info: "heap p (pinfo v) = Some (Info pin)"
    and rep: "is_prefix_map (range_map pin) p nss" and none: "prefix2range v = []"
  shows "\<exists>kts' h'. RebuildFromPersistentNode E junk (v, p) = (Val (), v\<lparr>prefix2range := kts'\<rparr>, p\<lparr>heap := h'\<rparr>) \<and>
    map_of kts' = handles junk (heap p) kts D \<and> cleared (concat nss) (heap p) h'"
proof -
  from rep obtain m xs where m: "heap p (range_map pin) = Some (HashMap m)" "heap p (tab m) = Some (NodeArray xs)"
    "length xs = unat (tabLen m)" "list_all2 (nodes (heap p)) xs nss" by (auto simp: is_prefix_map_def)
  have n: "length nss = unat (tabLen m)" using m(3) list_all2_lengthD [OF m(4)] by simp
  have "restored (handles junk (heap p) kts D) (concat nss) Map.empty = handles junk (heap p) kts D"
    using inv by (auto simp: restored_def handles_def reopen_inv_def fun_eq_iff split: option.split)
  with rebuild_buckets_reopen [OF inv m(2) cleared_refl _ order.refl, of 0 junk v] m n info none show ?thesis
    by (simp add: RebuildFromPersistentNode_def exec_simps vget_run pread_def)
qed

end

section \<open>A restart keeps the representation\<close>

lemma idle_recover: "idle p \<Longrightarrow> recover p = p"
  by (simp add: recover_def idle_def)

lemma cleared_nodes:
  assumes "nodes h x as" and cl: "cleared all h h'" and sep: "separate h all" and "set as \<subseteq> set all"
  shows "nodes h' x as"
  using assms(1,4)
proof (induction rule: nodes.induct)
  case (nodes_Cons x t bs as)
  have x: "x \<in> set all" using nodes_Cons.prems by simp
  have "h' x = Some (RangeTab t)" by (rule cleared_keeps(1) [OF cl nodes_Cons.hyps(2)]) simp
  moreover have "h' (prefix t) = Some (Bytes bs)"
    by (rule cleared_keeps(2) [OF cl nodes_Cons.hyps(3)]) (use separateD(1) [OF sep _ x _ nodes_Cons.hyps(2)] in metis)
  moreover have "nodes h' (next t) as" using nodes_Cons by simp
  ultimately show ?case using nodes_Cons.hyps by (intro nodes.nodes_Cons)
qed (rule nodes.nodes_Nil)

lemma cleared_prefix_map:
  assumes "is_prefix_map rm p nss" and cl: "cleared (concat nss) (heap p) h'" and sep: "separate (heap p) (concat nss)"
  shows "is_prefix_map rm (p\<lparr>heap := h'\<rparr>) nss"
proof -
  from assms(1) obtain m xs where m: "heap p rm = Some (HashMap m)" "heap p (tab m) = Some (NodeArray xs)"
    "length xs = unat (tabLen m)" "list_all2 (nodes (heap p)) xs nss" and i: "idle p" "finite (dom (heap p))"
    by (auto simp: is_prefix_map_def)
  have "h' rm = Some (HashMap m)" "h' (tab m) = Some (NodeArray xs)" using cleared_keeps(1) [OF cl] m(1,2) by blast+
  moreover have "list_all2 (nodes h') xs nss"
    using m(4) by (rule list.rel_mono_strong) (rule cleared_nodes [OF _ cl sep], auto)
  moreover have "finite (dom h')" using cl i(2) by (simp add: cleared_def)
  ultimately show ?thesis using m(3) i(1) by (auto simp: is_prefix_map_def idle_def)
qed

lemma cleared_separate:
  assumes cl: "cleared all h h'" and sep: "separate h all" and tabs: "\<And>x. x \<in> set all \<Longrightarrow> \<exists>t. h x = Some (RangeTab t)"
  shows "separate h' all"
proof -
  have same: "h x = Some (RangeTab t)" if "x \<in> set all" "h' x = Some (RangeTab t)" for x t
    using tabs [OF that(1)] cleared_keeps(1) [OF cl] that(2) by force
  show ?thesis unfolding separate_def using separateD [OF sep] same by meson
qed

lemma cleared_named:
  assumes cl: "cleared all h h'" and sep: "separate h all" and x: "x \<in> set all" and named: "named h kts x" and tabs: "tab_of kts' = tab_of kts"
  shows "named h' kts' x"
proof -
  from named obtain t k where t: "h x = Some (RangeTab t)" "h (prefix t) = Some (Bytes (c_str k))" "0 \<notin> set k" "tab_of kts k = Some x"
    by (auto simp: named_def)
  have "h' x = Some (RangeTab t)" by (rule cleared_keeps(1) [OF cl t(1)]) simp
  moreover have "h' (prefix t) = Some (Bytes (c_str k))"
    by (rule cleared_keeps(2) [OF cl t(2)]) (use separateD(1) [OF sep _ x _ t(1)] in metis)
  ultimately show ?thesis using t tabs by (auto simp: named_def)
qed

text \<open>A range after a restart: a durable one as it was, any other without blocks.\<close>

lemma cleared_range:
  assumes cl: "cleared all h h'" and sep: "separate h all" and x: "nonVolatileTab rt \<in> set all" and ro: "reopenable E h d k rt"
    and rep: "range_rep E h rt (free, cs)"
  shows "range_rep E h' (new_handle junk h d rt) (free, if d then cs else [])" and "reopenable E h' d k (new_handle junk h d rt)"
proof -
  from cl sep x ro obtain t b b' where t: "h (nonVolatileTab rt) = Some (RangeTab t)" "h' (nonVolatileTab rt) = Some (RangeTab t)"
    "h (buf t) = Some (Bytes b)" "h' (buf t) = Some (Bytes b')" "length b' = length b" and same: "d \<Longrightarrow> b' = b"
    and u: "h' (prefix t) = Some (Bytes (c_str k))" "unat (prefixLen t) = length k" "16 \<le> length b" "length b < 2 ^ 63"
    "seq_num t \<noteq> 0 \<longleftrightarrow> d" and blks: "d \<Longrightarrow> blocks_at E b 16 (blklist rt) (unat (dataLen t))" by (rule cleared_table) (rule that)
  from rep t(1,3) have r: "key_range t = 0" "unat (dataLen t) + free = length b"
    "list_all2 (block_holds E b (unat (dataLen t))) (blklist rt) cs" by (auto simp: range_rep_def)
  show "range_rep E h' (new_handle junk h d rt) (free, if d then cs else [])"
    unfolding range_rep_def using t(2,4,5) u(4) r same by (intro exI [of _ t] exI [of _ b']) (cases d, simp_all)
  show "reopenable E h' d k (new_handle junk h d rt)"
    unfolding reopenable_def using t(2,4,5) u same blks by (intro exI [of _ t] exI [of _ b']) (cases d, simp_all)
qed

context cache_env
begin

lemma life_restart:
  assumes rep: "life_rep E (v, p) (m, D)"
  shows "\<exists>s'. exec_life L E junk Restart (v, p) = (Val Reopened, s') \<and> life_rep E s' (spec_restart (m, D))"
proof -
  have c: "cache_rep E (v, p) m" and D: "D \<subseteq> dom m"
    and ro: "\<And>k rt. map_of (prefix2range v) k = Some rt \<Longrightarrow> reopenable E (heap p) (k \<in> D) k rt"
    using rep by (simp_all add: life_rep_iff)
  from c obtain pin nss where r: "heap p (pinfo v) = Some (Info pin)" "is_prefix_map (range_map pin) p nss" "nss \<noteq> []"
    "separate (heap p) (concat nss)" "dom m = dom (map_of (prefix2range v))"
    and ranges: "\<And>k rt r. map_of (prefix2range v) k = Some rt \<Longrightarrow> m k = Some r \<Longrightarrow> nonVolatileTab rt \<in> set (concat nss) \<and> range_rep E (heap p) rt r"
    and named: "\<And>x. x \<in> set (concat nss) \<Longrightarrow> named (heap p) (prefix2range v) x"
    and dist: "\<And>k k' rt rt'. map_of (prefix2range v) k = Some rt \<Longrightarrow> map_of (prefix2range v) k' = Some rt' \<Longrightarrow> k \<noteq> k' \<Longrightarrow>
        nonVolatileTab rt \<noteq> nonVolatileTab rt'" by (rule cache_repE) (rule that)
  have full: "\<exists>r. m k = Some r \<and> nonVolatileTab rt \<in> set (concat nss) \<and> range_rep E (heap p) rt r" if "map_of (prefix2range v) k = Some rt" for k rt
  proof -
    from that r(5) obtain r' where "m k = Some r'" by (metis domD domI)
    with ranges [OF that this] show ?thesis by blast
  qed
  have inv: "reopen_inv E (heap p) (prefix2range v) D (concat nss)"
    unfolding reopen_inv_def using r(4) named full ro dist by blast
  have idle: "recover p = p" using r(2) by (intro idle_recover) (simp add: is_prefix_map_def)
  have "pinfo (reopened_cache v) = pinfo v" "prefix2range (reopened_cache v) = []" by (simp_all add: reopened_cache_def)
  with RebuildFromPersistentNode_reopen [OF inv _ r(2), of "reopened_cache v" junk] r(1) obtain kts h' where
    run: "RebuildFromPersistentNode E junk (reopened_cache v, p) = (Val (), (reopened_cache v)\<lparr>prefix2range := kts\<rparr>, p\<lparr>heap := h'\<rparr>)"
    and kts: "map_of kts = handles junk (heap p) (prefix2range v) D" and cl: "cleared (concat nss) (heap p) h'" by auto
  let ?v = "(reopened_cache v)\<lparr>prefix2range := kts\<rparr>" and ?p = "p\<lparr>heap := h'\<rparr>"
  let ?m = "\<lambda>k. map_option (\<lambda>(free, cs). (free, if k \<in> D then cs else [])) (m k)"
  have new: "\<exists>rt0 free cs. rt = new_handle junk (heap p) (k \<in> D) rt0 \<and> map_of (prefix2range v) k = Some rt0 \<and> m k = Some (free, cs) \<and>
      nonVolatileTab rt0 \<in> set (concat nss) \<and> range_rep E h' rt (free, if k \<in> D then cs else []) \<and> reopenable E h' (k \<in> D) k rt"
    if "map_of kts k = Some rt" for k rt
  proof -
    from that obtain rt0 where rt0: "map_of (prefix2range v) k = Some rt0" "rt = new_handle junk (heap p) (k \<in> D) rt0"
      by (auto simp: kts handles_def)
    from full [OF rt0(1)] obtain free cs where f: "m k = Some (free, cs)" "nonVolatileTab rt0 \<in> set (concat nss)" "range_rep E (heap p) rt0 (free, cs)"
      by auto
    from cleared_range [OF cl r(4) f(2) ro [OF rt0(1)] f(3), of junk] rt0 f(1,2) show ?thesis by blast
  qed
  have tabs: "tab_of kts = tab_of (prefix2range v)"
    by (auto simp: tab_of_def kts handles_def fun_eq_iff option.map_comp comp_def)
  have "cache_rep E (?v, ?p) ?m"
  proof (rule cache_repI [where nss = nss and pin = pin])
    show "heap ?p (pinfo ?v) = Some (Info pin)" using cleared_keeps(1) [OF cl r(1)] by (simp add: reopened_cache_def)
    show "is_prefix_map (range_map pin) ?p nss" by (rule cleared_prefix_map [OF r(2) cl r(4)])
    show "separate (heap ?p) (concat nss)" using cleared_separate [OF cl r(4)] named by (simp add: named_def) blast
    show "dom ?m = dom (map_of (prefix2range ?v))" using r(5) by (auto simp: kts handles_def dom_def)
  next
    fix k rt r1 assume 1: "map_of (prefix2range ?v) k = Some rt" "?m k = Some r1"
    then have "map_of kts k = Some rt" by simp
    from new [OF this] 1(2) show "nonVolatileTab rt \<in> set (concat nss) \<and> range_rep E (heap ?p) rt r1" by auto
  next
    fix x assume x: "x \<in> set (concat nss)"
    show "named (heap ?p) (prefix2range ?v) x" using cleared_named [OF cl r(4) x named [OF x] tabs] by simp
  next
    fix k k' rt rt' assume "map_of (prefix2range ?v) k = Some rt" "map_of (prefix2range ?v) k' = Some rt'" and ne: "k \<noteq> k'"
    then have 1: "map_of kts k = Some rt" and 2: "map_of kts k' = Some rt'" by simp_all
    from new [OF 1] new [OF 2] dist ne show "nonVolatileTab rt \<noteq> nonVolatileTab rt'" by auto
  qed (rule r(3))
  moreover have "D \<subseteq> dom ?m" using D by (auto simp: dom_def)
  moreover have "reopenable E (heap ?p) (k \<in> D) k rt" if "map_of (prefix2range ?v) k = Some rt" for k rt
    using new [of k rt] that by auto
  ultimately have "life_rep E (?v, ?p) (spec_restart (m, D))" by (simp add: life_rep_iff spec_restart_def)
  with run idle show ?thesis by (simp add: exec_simps)
qed

lemma life_append:
  assumes rep: "life_rep E (v, p) (m, D)" and ok: "ok_cmd E (CmdAppend bloom gap kvs meta) m" and len: "length (meta_prefix meta) < 2 ^ 64"
  shows "\<exists>w p'. AppendToRange L E 0 junk bloom (chunk_bytes E gap kvs) meta (v, p) = (Val (), w, p') \<and>
    life_rep E (w, p') (spec_append E bloom gap kvs (meta_prefix meta) m, D)"
proof -
  let ?k = "meta_prefix meta"
  obtain free cs where r: "arange m ?k = (free, cs)" by (cases "arange m ?k")
  have o: "8 \<le> length bloom" "length gap = 8 * length kvs \<and> length kvs < 2 ^ 31" "keys_sorted E kvs" "length (cur_start meta) + length (cur_end meta) + 16 < 2 ^ 64"
    "block_size E gap kvs \<le> free" "0 \<notin> set ?k" using ok r by simp_all
  have spec: "spec_append E bloom gap kvs ?k m = m(?k \<mapsto> (free - block_size E gap kvs, cs @ [(bloom, kvs)]))"
    by (simp add: spec_append_def r)
  show ?thesis
  proof (cases "m ?k")
    case (Some r')
    with r have m: "m ?k = Some (free, cs)" by (simp add: arange_def)
    have "cache_rep E (v, p) m" using rep by (simp add: life_rep_iff)
    with m obtain rt where rt: "map_of (prefix2range v) ?k = Some rt" by (elim cache_repE) (metis domD domI)
    from life_append_known [OF rep rt m o(1-5)] rt show ?thesis
      by (simp add: AppendToRange_def exec_simps vget_run spec)
  next
    case None
    from life_new [OF rep None o(6) len, of junk] obtain rt p1 where
      nr: "NewRange L E 0 junk ?k (v, p) = (Val (), v\<lparr>prefix2range := prefix2range v @ [(?k, rt)]\<rparr>, p1)"
      and none: "map_of (prefix2range v) ?k = None"
      and rep1: "life_rep E (v\<lparr>prefix2range := prefix2range v @ [(?k, rt)]\<rparr>, p1) (m(?k \<mapsto> (free, cs)), D)" unfolding r by blast
    have "map_of (prefix2range (v\<lparr>prefix2range := prefix2range v @ [(?k, rt)]\<rparr>)) ?k = Some rt" using none by (simp add: map_add_def)
    from life_append_known [OF rep1 this _ o(1-5), of cs] nr none show ?thesis
      by (simp add: AppendToRange_def exec_simps vget_run spec)
  qed
qed

lemma life_simulates:
  assumes "life_rep E s l" and "ok_life E c l" and "spec_life E c l = (r, l')"
  shows "\<exists>s'. exec_life L E junk c s = (Val r, s') \<and> life_rep E s' l'"
proof (cases c)
  case Restart
  with assms life_restart [of "fst s" "snd s" "fst l" "snd l" junk] show ?thesis by simp
next
  case (Run cmd)
  show ?thesis
  proof (cases cmd)
    case (CmdAppend bloom gap kvs meta)
    with Run assms life_append [of "fst s" "snd s" "fst l" "snd l" bloom gap kvs meta junk] show ?thesis
      by (cases l) (auto simp: exec_simps)
  next
    case (CmdGet key)
    obtain m D where l: "l = (m, D)" by (cases l)
    then have "cache_rep E (fst s, snd s) m" using assms(1) by (simp add: life_rep_def case_prod_beta)
    then have "tryC (cache_Get E key) s = (Val (spec_get E key m), s)"
      using cache_Get_spec [OF key_order_axioms coding64_axioms bits, of "fst s" "snd s" m key]
      by (simp add: tryC_def split: sum.split)
    with CmdGet Run l assms show ?thesis by (auto simp: exec_simps)
  qed
qed

lemma life_commands_simulate: "simulation (life_rep E) (exec_life L E junk) (spec_life E) (ok_life E)"
  by unfold_locales (rule life_simulates)

lemma life_init:
  assumes "heap p (pinfo v) = Some (Info pin)" and "idle p" and "finite (dom (heap p))" and "0 < n" and "unat n < 2 ^ 22"
    and "prefix2range v = []"
  shows "\<exists>p'. cache_init L (pinfo v) n ds sz (v, p) = (Val (), v, p') \<and> life_rep E (v, p') (Map.empty, {})"
  using cache_init_rep [OF assms, of ds sz] assms(6) by (auto simp: life_rep_iff)

end

sublocale cache_env \<subseteq> life: simulation "life_rep E" "exec_life L E junk" "spec_life E" "ok_life E" for junk
  by (rule life_commands_simulate)

section \<open>Ranges of the cache are not durable\<close>

fun appended_prefix :: "life_cmd \<Rightarrow> byte list set" where
  "appended_prefix (Run (CmdAppend bloom gap kvs meta)) = {meta_prefix meta}"
| "appended_prefix c = {}"

lemma spec_life_durable: "snd (snd (spec_life E c (m, D))) = D"
  by (cases c) (auto simp: spec_restart_def split: prod.splits)

lemma spec_life_dom: "dom (fst (snd (spec_life E c (m, D)))) = dom m \<union> appended_prefix c"
proof (cases c)
  case (Run cmd)
  then show ?thesis by (cases cmd) (auto simp: spec_append_def split: prod.splits)
qed (auto simp: spec_restart_def dom_def)

lemma spec_all_dom:
  "dom (fst (snd (spec_all (spec_life E) cs (m, D)))) = dom m \<union> \<Union> (appended_prefix ` set cs) \<and> snd (snd (spec_all (spec_life E) cs (m, D))) = D"
proof (induction cs arbitrary: m)
  case (Cons c cs)
  obtain r m' where c: "spec_life E c (m, D) = (r, m', D)" using spec_life_durable [of E c m D] by (metis prod.collapse)
  obtain rs m2 D2 where cs: "spec_all (spec_life E) cs (m', D) = (rs, m2, D2)" by (metis prod.collapse)
  show ?case using spec_life_dom [of E c m D] Cons.IH [of m'] by (simp add: c cs Un_assoc)
qed simp

lemma run_all_append: "run_all exec (cs @ ds) s = bindC (run_all exec cs) (\<lambda>rs. bindC (run_all exec ds) (\<lambda>rs'. returnC (rs @ rs'))) s"
proof (induction cs arbitrary: s)
  case Nil
  show ?case by (simp add: exec_simps returnC_def split: outcome.split prod.split)
next
  case (Cons c cs)
  then show ?case by (simp add: exec_simps split: outcome.split prod.split)
qed

lemma ok_all_append: "ok_all spec ok (cs @ ds) m \<longleftrightarrow> ok_all spec ok cs m \<and> ok_all spec ok ds (snd (spec_all spec cs m))"
  by (induction cs arbitrary: m) (auto split: prod.split)

lemma spec_all_append: "spec_all spec (cs @ ds) m =
    (let (rs, m1) = spec_all spec cs m; (rs', m2) = spec_all spec ds m1 in (rs @ rs', m2))"
  by (induction cs arbitrary: m) (auto simp: Let_def split: prod.split)

section \<open>Properties\<close>

text \<open>C1: The cache refines its specification over its whole life: from any state that represents an abstract cache with durable prefixes \<open>D\<close>, every
  sequence of admissible appends, look-ups and restarts runs without a fault and returns exactly the results of the abstract
  cache, in which a restart keeps the chunks of the durable ranges (those whose sequence number is not 0) and loses those of all
  others, whose space stays used.\<close>

theorem cache_life_refines_spec:
  assumes "cache_env L E" and "life_rep E s l" and "ok_all (spec_life E) (ok_life E) cs l"
  shows "\<exists>s'. run_all (exec_life L E junk) cs s = (Val (fst (spec_all (spec_life E) cs l)), s') \<and>
    life_rep E s' (snd (spec_all (spec_life E) cs l))"
  using simulation.run_refines [OF cache_env.life_commands_simulate [OF assms(1)] assms(2,3)] by (metis prod.collapse)

text \<open>C3: With the initial sequence number 0, the one that \<open>NvRangeTab\<close> has (\<open>putAndGet\<close> leaves a hole there), what the cache
  stores in ranges of its own does not survive: whatever admissible commands run after the first start, once the cache is
  restarted a look-up of any key whose prefix was appended to throws \<open>std::out_of_range\<close>, and of any other key returns \<open>NotFound\<close>.\<close>

theorem restart_loses_own_ranges:
  assumes "cache_env L E" and "heap p (pinfo v) = Some (Info pin)" and "idle p" and "finite (dom (heap p))"
    and "0 < n" and "unat n < 2 ^ 22" and "prefix2range v = []" and "ok_all (spec_life E) (ok_life E) cs (Map.empty, {})"
  shows "\<exists>rs s'. thenC (cache_init L (pinfo v) n ds sz) (run_all (exec_life L E junk) (cs @ [Restart, Run (CmdGet key)])) (v, p) =
    (Val (rs @ [Reopened, Done (Got (if prefix_extractor E key \<in> \<Union> (appended_prefix ` set cs) then Inl Out_of_range else Inr NotFound))]), s')"
proof -
  from cache_env.life_init [OF assms(1-7), of ds sz] obtain p' where
    1: "cache_init L (pinfo v) n ds sz (v, p) = (Val (), v, p')" "life_rep E (v, p') (Map.empty, {})" by blast
  obtain rs m where m: "spec_all (spec_life E) cs (Map.empty, {}) = (rs, m, {})" and dom: "dom m = \<Union> (appended_prefix ` set cs)"
    using spec_all_dom [of E cs Map.empty "{}"] by (cases "spec_all (spec_life E) cs (Map.empty, {})") auto
  have ok: "ok_all (spec_life E) (ok_life E) (cs @ [Restart, Run (CmdGet key)]) (Map.empty, {})"
    using assms(8) m by (simp add: ok_all_append spec_restart_def)
  let ?m = "\<lambda>k. map_option (\<lambda>(free, cs). (free, [] :: chunk list)) (m k)"
  have get: "spec_get E key ?m = (if prefix_extractor E key \<in> dom m then Inl Out_of_range else Inr NotFound)"
    by (cases "m (prefix_extractor E key)") (auto simp: spec_get_def)
  have "spec_all (spec_life E) (cs @ [Restart, Run (CmdGet key)]) (Map.empty, {}) = (rs @ [Reopened, Done (Got (spec_get E key ?m))], ?m, {})"
    using m by (simp add: spec_all_append spec_restart_def)
  from simulation.run_refines [OF cache_env.life_commands_simulate [OF assms(1)] 1(2) ok this, of junk] 1(1) show ?thesis
    by (auto simp: exec_simps get dom)
qed

text \<open>A durable range for \<open>[65]\<close> keeps its chunk over a restart, a range that the cache makes for \<open>[66]\<close> loses it.\<close>

definition life_script :: "life_cmd list" where
  "life_script =
     [Run (CmdAppend (replicate 8 1) (replicate 8 0) [([65], [6])] (demo_meta [65])),
      Run (CmdAppend (replicate 8 1) (replicate 8 0) [([66], [9])] (demo_meta [66])),
      Run (CmdGet [65]), Run (CmdGet [66]), Restart, Run (CmdGet [65]), Run (CmdGet [66])]"

lemma life_pool_rep: "life_rep default_rocksdb (demo_cache [([65], cache_handle 3)], cache_pool) ([[65] \<mapsto> (84, [])], {[65]})"
proof -
  have "reopenable default_rocksdb (heap cache_pool) True [65] (cache_handle 3)"
    by (simp add: reopenable_def cache_handle_def cache_pool_def c_str_def) (simp add: cache_tab_def)
  with cache_pool_rep show ?thesis by (simp add: life_rep_iff demo_cache_def)
qed

theorem cache_life_refines_spec_witness:
  "\<exists>s'. run_all (exec_life healthy default_rocksdb demo_range) life_script (demo_cache [([65], cache_handle 3)], cache_pool) =
    (Val [Done Appended, Done Appended, Done (Got (Inr (OK [6]))), Done (Got (Inr (OK [9]))), Reopened,
      Done (Got (Inr (OK [6]))), Done (Got (Inl Out_of_range))], s')"
proof -
  have ok: "ok_all (spec_life default_rocksdb) (ok_life default_rocksdb) life_script ([[65] \<mapsto> (84, [])], {[65]})"
    by (simp add: life_script_def demo_meta_def spec_append_def spec_restart_def arange_def demo_size range_buf_size_def keys_sorted_def)
  have "fst (spec_all (spec_life default_rocksdb) life_script ([[65] \<mapsto> (84, [])], {[65]})) =
      [Done Appended, Done Appended, Done (Got (Inr (OK [6]))), Done (Got (Inr (OK [9]))), Reopened,
       Done (Got (Inr (OK [6]))), Done (Got (Inl Out_of_range))]"
    by (simp add: life_script_def demo_meta_def spec_append_def spec_get_def spec_restart_def arange_def demo_prefix)
  with cache_life_refines_spec [OF nvm_cache.cache_env_axioms life_pool_rep ok, of demo_range] show ?thesis by auto
qed

theorem restart_loses_own_ranges_witness:
  "\<exists>rs s'. thenC (cache_init healthy 6 2 0 100) (run_all (exec_life healthy default_rocksdb demo_range)
      [Run (CmdAppend (replicate 8 1) (replicate 8 0) [([65], [6])] (demo_meta [65])), Run (CmdGet [65]), Restart, Run (CmdGet [65])])
      (demo_cache [], cache_pool) = (Val (rs @ [Reopened, Done (Got (Inl Out_of_range))]), s')"
proof -
  let ?cs = "[Run (CmdAppend (replicate 8 1) (replicate 8 0) [([65], [6])] (demo_meta [65])), Run (CmdGet [65])]"
  have "heap cache_pool (pinfo (demo_cache [])) = Some (Info cache_info)" by (simp add: cache_pool_def demo_cache_def)
  moreover have "idle cache_pool" "finite (dom (heap cache_pool))" using cache_prefix_map by (auto simp: is_prefix_map_def)
  moreover have "prefix2range (demo_cache []) = []" "pinfo (demo_cache []) = 6" by (simp_all add: demo_cache_def)
  moreover have "ok_all (spec_life default_rocksdb) (ok_life default_rocksdb) ?cs (Map.empty, {})"
    by (simp add: demo_meta_def spec_append_def arange_def demo_size range_buf_size_def keys_sorted_def)
  moreover have "prefix_extractor default_rocksdb [65] \<in> \<Union> (appended_prefix ` set ?cs)" by (simp add: demo_meta_def demo_prefix)
  ultimately show ?thesis
    using restart_loses_own_ranges [OF nvm_cache.cache_env_axioms, of cache_pool "demo_cache []" cache_info 2 ?cs 0 100 demo_range "[65]"] by simp
qed

end
