(* ===== verification/Nvm_Arena.thy ===== *)
theory Nvm_Arena
  imports Prelude
begin

unbundle bit_operations_syntax

text \<open>
  \<open>nvm_arena.h\<close> and \<open>nvm_arena.cc\<close>: the arena that serves memtable allocations from one mapped
  persistent-memory block, aligned requests from its low end and unaligned ones from its high end.
  Pointers are 64-bit words. RocksDB's \<open>OptimizeBlockSize\<close>, libpmem's \<open>pmem_map_file\<close> and the
  \<open>new char[]\<close> of the run-time library are arguments. The interface \<open>region_allocator\<close> states what a
  client of an allocator relies on; it is interpreted on the arena here and on the per-core shard of
  the concurrent arena in \<open>Concurrent_Arena\<close>.
\<close>

section \<open>State\<close>

record NVMArena =
  block_addr :: u64
  block_sz :: u64
  unaligned_alloc_ptr :: u64
  aligned_alloc_ptr :: u64
  alloc_bytes_remaining :: u64
  kBlockSize :: u64
  blocks :: "u64 list"
  blocks_memory :: u64
  irregular_block_num :: u64

type_synonym 'a arena_op = "(NVMArena, 'a) cpp"

definition kAlignUnit :: u64 where
  "kAlignUnit = 16"  \<comment> \<open>\<open>alignof(max_align_t)\<close> on x86-64\<close>

definition kMinBlockSize :: u64 where
  "kMinBlockSize = 4096"

definition kMaxBlockSize :: u64 where
  "kMaxBlockSize = ucast (push_bit 30 (2 :: u32))"

section \<open>Operations\<close>

text \<open>
  The constructor. \<open>OptimizeBlockSize\<close> and \<open>pmem_map_file\<close> are arguments; the latter gets the number
  of the file to create (\<open>map_file_idx\<close>, which the caller's static counter supplies and which is
  incremented) and the size, and returns the address or fails. A failure ends the process.
\<close>

definition NVMArena_ctor ::
  "(u64 \<Rightarrow> u64) \<Rightarrow> (int \<Rightarrow> u64 \<Rightarrow> u64 option) \<Rightarrow> u64 \<Rightarrow> int \<Rightarrow> NVMArena outcome \<times> int" where
  "NVMArena_ctor optimize pmem_map_file block_size map_file_idx =
     (let sz = optimize (push_bit 3 block_size) in
      (case pmem_map_file map_file_idx sz of
         None \<Rightarrow> Die Exit_process
       | Some a \<Rightarrow> Val \<lparr>block_addr = a, block_sz = sz, unaligned_alloc_ptr = a + sz, aligned_alloc_ptr = a,
           alloc_bytes_remaining = sz, kBlockSize = sz, blocks = [], blocks_memory = 0 + sz, irregular_block_num = 0\<rparr>,
       map_file_idx + 1))"

text \<open>
  \<open>AllocateFallback\<close> calls \<open>exit(-1)\<close> first; the code after it, RocksDB's fallback, is never reached
  and is kept as \<open>AllocateFallback_rest\<close>.
\<close>

definition AllocateNewBlock :: "(NVMArena \<Rightarrow> u64 \<Rightarrow> u64 option) \<Rightarrow> u64 \<Rightarrow> u64 arena_op" where
  "AllocateNewBlock new_char block_bytes =
     thenC (modC (\<lambda>s. s\<lparr>blocks := blocks s @ [0]\<rparr>))
     (bindC (getC (\<lambda>s. new_char s block_bytes)) (\<lambda>r. case r of
        None \<Rightarrow> throwC Bad_alloc
      | Some block \<Rightarrow>
          thenC (modC (\<lambda>s. s\<lparr>blocks_memory := blocks_memory s + block_bytes\<rparr>))
          (thenC (modC (\<lambda>s. s\<lparr>blocks := (blocks s)[length (blocks s) - 1 := block]\<rparr>))
           (returnC block))))"

definition AllocateFallback_rest :: "(NVMArena \<Rightarrow> u64 \<Rightarrow> u64 option) \<Rightarrow> u64 \<Rightarrow> bool \<Rightarrow> u64 arena_op" where
  "AllocateFallback_rest new_char bytes aligned =
     bindC (getC kBlockSize) (\<lambda>kb.
     if bytes > kb div 4
     then thenC (modC (\<lambda>s. s\<lparr>irregular_block_num := irregular_block_num s + 1\<rparr>)) (AllocateNewBlock new_char bytes)
     else bindC (AllocateNewBlock new_char kb) (\<lambda>block_head.
          thenC (modC (\<lambda>s. s\<lparr>alloc_bytes_remaining := kb - bytes\<rparr>))
          (if aligned
           then thenC (modC (\<lambda>s. s\<lparr>aligned_alloc_ptr := block_head + bytes, unaligned_alloc_ptr := block_head + kb\<rparr>))
                (returnC block_head)
           else thenC (modC (\<lambda>s. s\<lparr>aligned_alloc_ptr := block_head, unaligned_alloc_ptr := block_head + kb - bytes\<rparr>))
                (getC unaligned_alloc_ptr))))"

definition AllocateFallback :: "(NVMArena \<Rightarrow> u64 \<Rightarrow> u64 option) \<Rightarrow> u64 \<Rightarrow> bool \<Rightarrow> u64 arena_op" where
  "AllocateFallback new_char bytes aligned =
     thenC (dieC Exit_process :: unit arena_op) (AllocateFallback_rest new_char bytes aligned)"

definition arena_Allocate :: "(NVMArena \<Rightarrow> u64 \<Rightarrow> u64 option) \<Rightarrow> u64 \<Rightarrow> u64 arena_op" where
  "arena_Allocate new_char bytes =
     thenC (assertC (bytes > 0))
     (bindC (getC alloc_bytes_remaining) (\<lambda>rem.
      if bytes \<le> rem
      then thenC (modC (\<lambda>s. s\<lparr>unaligned_alloc_ptr := unaligned_alloc_ptr s - bytes\<rparr>))
           (thenC (modC (\<lambda>s. s\<lparr>alloc_bytes_remaining := alloc_bytes_remaining s - bytes\<rparr>))
            (getC unaligned_alloc_ptr))
      else AllocateFallback new_char bytes False))"

definition arena_AllocateAligned :: "(NVMArena \<Rightarrow> u64 \<Rightarrow> u64 option) \<Rightarrow> u64 \<Rightarrow> u64 arena_op" where
  "arena_AllocateAligned new_char bytes =
     thenC (assertC (kAlignUnit AND (kAlignUnit - 1) = 0))
     (bindC (getC aligned_alloc_ptr) (\<lambda>p.
      let current_mod = p AND (kAlignUnit - 1);
          slop = (if current_mod = 0 then 0 else kAlignUnit - current_mod);
          needed = bytes + slop in
      bindC (getC alloc_bytes_remaining) (\<lambda>rem.
      bindC (if needed \<le> rem
             then thenC (modC (\<lambda>s. s\<lparr>aligned_alloc_ptr := aligned_alloc_ptr s + needed\<rparr>))
                  (thenC (modC (\<lambda>s. s\<lparr>alloc_bytes_remaining := alloc_bytes_remaining s - needed\<rparr>))
                   (returnC (p + slop)))
             else AllocateFallback new_char bytes True) (\<lambda>result.
      thenC (assertC (result AND (kAlignUnit - 1) = 0)) (returnC result)))))"

definition ApproximateMemoryUsage :: "u64 arena_op" where
  "ApproximateMemoryUsage = getC (\<lambda>s. blocks_memory s - alloc_bytes_remaining s)"

definition MemoryAllocatedBytes :: "u64 arena_op" where
  "MemoryAllocatedBytes = getC blocks_memory"

definition AllocatedAndUnused :: "u64 arena_op" where
  "AllocatedAndUnused = getC alloc_bytes_remaining"

definition BlockSize :: "u64 arena_op" where
  "BlockSize = getC block_sz"

section \<open>The interface of an allocator\<close>

text \<open>
  An allocator serves a sequence of requests from a shrinking free interval. \<open>serve\<close> collects the
  regions (start and length) it hands out, and is \<open>None\<close> as soon as a request is not served.
\<close>

primrec serve :: "('r \<Rightarrow> 's \<Rightarrow> ((nat \<times> nat) \<times> 's) option) \<Rightarrow> 'r list \<Rightarrow> 's \<Rightarrow> ((nat \<times> nat) list \<times> 's) option" where
  "serve alloc [] s = Some ([], s)"
| "serve alloc (r # rs) s = (case alloc r s of
     None \<Rightarrow> None
   | Some (reg, s') \<Rightarrow> (case serve alloc rs s' of None \<Rightarrow> None | Some (regs, s'') \<Rightarrow> Some (reg # regs, s'')))"

definition apart :: "nat \<times> nat \<Rightarrow> nat \<times> nat \<Rightarrow> bool" where
  "apart = (\<lambda>(b, n) (c, m). b + n \<le> c \<or> c + m \<le> b)"

locale region_allocator =
  fixes inv :: "'s \<Rightarrow> bool" and lo hi :: "'s \<Rightarrow> nat" and req_ok :: "'r \<Rightarrow> bool" and cost :: "'r \<Rightarrow> nat"
    and alloc :: "'r \<Rightarrow> 's \<Rightarrow> ((nat \<times> nat) \<times> 's) option"
  assumes ordered: "inv s \<Longrightarrow> lo s \<le> hi s"
    and alloc_inv: "inv s \<Longrightarrow> req_ok r \<Longrightarrow> alloc r s = Some (reg, s') \<Longrightarrow> inv s'"
    and alloc_inside: "inv s \<Longrightarrow> req_ok r \<Longrightarrow> alloc r s = Some (reg, s') \<Longrightarrow> lo s \<le> fst reg \<and> fst reg + snd reg \<le> hi s"
    and alloc_shrinks: "inv s \<Longrightarrow> req_ok r \<Longrightarrow> alloc r s = Some (reg, s') \<Longrightarrow> lo s \<le> lo s' \<and> hi s' \<le> hi s"
    and alloc_leaves: "inv s \<Longrightarrow> req_ok r \<Longrightarrow> alloc r s = Some (reg, s') \<Longrightarrow> fst reg + snd reg \<le> lo s' \<or> hi s' \<le> fst reg"
    and alloc_fits: "inv s \<Longrightarrow> req_ok r \<Longrightarrow> cost r \<le> hi s - lo s \<Longrightarrow>
      \<exists>reg s'. alloc r s = Some (reg, s') \<and> hi s - lo s \<le> cost r + (hi s' - lo s')"
begin

lemma serve_inside:
  assumes "inv s" and "list_all req_ok rs" and "serve alloc rs s = Some (regs, s')"
  shows "inv s' \<and> lo s \<le> lo s' \<and> hi s' \<le> hi s \<and> (\<forall>(b, n) \<in> set regs. lo s \<le> b \<and> b + n \<le> hi s)"
  using assms
proof (induction rs arbitrary: s regs)
  case (Cons r rs)
  from Cons.prems obtain reg s1 regs1 where step: "alloc r s = Some (reg, s1)" "serve alloc rs s1 = Some (regs1, s')"
    "regs = reg # regs1" by (auto split: option.splits prod.splits)
  note laws = alloc_inv [OF _ _ step(1)] alloc_inside [OF _ _ step(1)] alloc_shrinks [OF _ _ step(1)]
  from Cons.prems laws have "inv s1" "lo s \<le> lo s1" "hi s1 \<le> hi s" "lo s \<le> fst reg" "fst reg + snd reg \<le> hi s"
    by auto
  with Cons.IH [OF \<open>inv s1\<close> _ step(2)] Cons.prems(2) step(3) show ?case by (fastforce split: prod.splits)
qed simp

lemma serve_apart:
  assumes "inv s" and "list_all req_ok rs" and "serve alloc rs s = Some (regs, s')"
  shows "sorted_wrt apart regs"
  using assms
proof (induction rs arbitrary: s regs)
  case (Cons r rs)
  from Cons.prems obtain reg s1 regs1 where step: "alloc r s = Some (reg, s1)" "serve alloc rs s1 = Some (regs1, s')"
    "regs = reg # regs1" by (auto split: option.splits prod.splits)
  from Cons.prems have inv1: "inv s1" and ok: "list_all req_ok rs" using alloc_inv [OF _ _ step(1)] by auto
  from Cons.prems have "fst reg + snd reg \<le> lo s1 \<or> hi s1 \<le> fst reg" using alloc_leaves [OF _ _ step(1)] by auto
  with serve_inside [OF inv1 ok step(2)] have "\<forall>q \<in> set regs1. apart reg q"
    by (fastforce simp: apart_def split: prod.splits)
  with Cons.IH [OF inv1 ok step(2)] step(3) show ?case by simp
qed simp

lemma serve_total:
  assumes "inv s" and "list_all req_ok rs" and "sum_list (map cost rs) \<le> hi s - lo s"
  shows "\<exists>regs s'. serve alloc rs s = Some (regs, s')"
  using assms
proof (induction rs arbitrary: s)
  case (Cons r rs)
  then obtain reg s1 where step: "alloc r s = Some (reg, s1)" "hi s - lo s \<le> cost r + (hi s1 - lo s1)"
    using alloc_fits [of s r] by auto
  have "inv s1" using Cons.prems alloc_inv [OF _ _ step(1)] by auto
  with Cons.IH [of s1] Cons.prems step obtain regs s' where "serve alloc rs s1 = Some (regs, s')" by auto
  with step show ?case by simp
qed simp

end

section \<open>The arena serves disjoint regions\<close>

datatype request = Unaligned u64 | Aligned u64

fun request_bytes :: "request \<Rightarrow> nat" where
  "request_bytes (Unaligned n) = unat n"
| "request_bytes (Aligned n) = unat n"

text \<open>Requests the arena is written for: no empty unaligned one (the \<open>assert\<close>), and no aligned one so
  large that rounding it up wraps around.\<close>

fun request_ok :: "request \<Rightarrow> bool" where
  "request_ok (Unaligned n) \<longleftrightarrow> n > 0"
| "request_ok (Aligned n) \<longleftrightarrow> unat n < 2 ^ 64 - 16"

fun request_cost :: "request \<Rightarrow> nat" where
  "request_cost (Unaligned n) = unat n"
| "request_cost (Aligned n) = unat n + 15"

fun arena_run :: "(NVMArena \<Rightarrow> u64 \<Rightarrow> u64 option) \<Rightarrow> request \<Rightarrow> u64 arena_op" where
  "arena_run new_char (Unaligned n) = arena_Allocate new_char n"
| "arena_run new_char (Aligned n) = arena_AllocateAligned new_char n"

definition arena_alloc :: "(NVMArena \<Rightarrow> u64 \<Rightarrow> u64 option) \<Rightarrow> request \<Rightarrow> NVMArena \<Rightarrow> ((nat \<times> nat) \<times> NVMArena) option" where
  "arena_alloc new_char r s = (case arena_run new_char r s of
     (Val a, s') \<Rightarrow> Some ((unat a, request_bytes r), s') | _ \<Rightarrow> None)"

definition arena_ok :: "NVMArena \<Rightarrow> bool" where
  "arena_ok s \<longleftrightarrow> unat (block_addr s) + unat (block_sz s) < 2 ^ 64 \<and>
     unat (block_addr s) \<le> unat (aligned_alloc_ptr s) \<and> unat (aligned_alloc_ptr s) \<le> unat (unaligned_alloc_ptr s) \<and>
     unat (unaligned_alloc_ptr s) \<le> unat (block_addr s) + unat (block_sz s) \<and>
     unat (alloc_bytes_remaining s) = unat (unaligned_alloc_ptr s) - unat (aligned_alloc_ptr s)"

subsection \<open>Alignment arithmetic\<close>

definition slop_of :: "u64 \<Rightarrow> u64" where
  "slop_of p = (let current_mod = p AND (kAlignUnit - 1) in if current_mod = 0 then 0 else kAlignUnit - current_mod)"

lemma and_15_mod: "unat (p AND 15 :: u64) = unat p mod 16"
proof -
  have "(15 :: u64) = mask 4" by (simp add: mask_eq_exp_minus_1)
  then have "p AND 15 = take_bit 4 p" by (simp add: take_bit_eq_mask)
  then have "unat (p AND 15) = take_bit 4 (unat p)" by (simp only: unsigned_take_bit_eq)
  then show ?thesis by (simp add: take_bit_eq_mod)
qed

lemma unat_slop: "unat (slop_of p) = (if unat p mod 16 = 0 then 0 else 16 - unat p mod 16)"
proof -
  have le: "p AND 15 \<le> (16 :: u64)" using and_15_mod [of p] by (simp add: word_le_nat_alt)
  have "p AND 15 = 0 \<longleftrightarrow> unat p mod 16 = 0" using and_15_mod [of p] by (metis unat_0 unsigned_eq_0_iff)
  then show ?thesis using le and_15_mod [of p] by (simp add: slop_of_def kAlignUnit_def Let_def unat_sub)
qed

lemma slop_le: "unat (slop_of p) \<le> 15"
  by (simp add: unat_slop) linarith

lemma slop_aligns: "(p + slop_of p) AND 15 = 0"
proof -
  have "unat (p + slop_of p) mod 16 = (unat p + unat (slop_of p)) mod 16"
    by (simp add: unat_word_ariths mod_mod_cancel)
  also have "\<dots> = 0"
  proof (cases "unat p mod 16 = 0")
    case False
    then have "unat p + (16 - unat p mod 16) = 16 * (unat p div 16) + 16"
      using div_mult_mod_eq [of "unat p" 16] mod_less_divisor [of 16 "unat p"] by linarith
    with False show ?thesis by (simp add: unat_slop)
  qed (simp add: unat_slop)
  finally show ?thesis using and_15_mod [of "p + slop_of p"] by (metis unsigned_eq_0_iff)
qed

subsection \<open>What each request does\<close>

lemma arena_Allocate_run:
  assumes "n > 0"
  shows "arena_Allocate new_char n s =
    (if n \<le> alloc_bytes_remaining s
     then (Val (unaligned_alloc_ptr s - n), s\<lparr>unaligned_alloc_ptr := unaligned_alloc_ptr s - n,
            alloc_bytes_remaining := alloc_bytes_remaining s - n\<rparr>)
     else (Die Exit_process, s))"
  using assms by (simp add: arena_Allocate_def AllocateFallback_def assertC_def modC_def getC_def exec_simps)

lemma arena_AllocateAligned_run:
  "arena_AllocateAligned new_char n s =
    (let slop = slop_of (aligned_alloc_ptr s) in
     if n + slop \<le> alloc_bytes_remaining s
     then (Val (aligned_alloc_ptr s + slop), s\<lparr>aligned_alloc_ptr := aligned_alloc_ptr s + (n + slop),
            alloc_bytes_remaining := alloc_bytes_remaining s - (n + slop)\<rparr>)
     else (Die Exit_process, s))"
proof -
  have "kAlignUnit AND (kAlignUnit - 1) = 0" by (simp add: kAlignUnit_def)
  moreover have "(aligned_alloc_ptr s + slop_of (aligned_alloc_ptr s)) AND (kAlignUnit - 1) = 0"
    using slop_aligns by (simp add: kAlignUnit_def)
  ultimately show ?thesis
    by (simp add: arena_AllocateAligned_def AllocateFallback_def assertC_def modC_def getC_def exec_simps Let_def
        slop_of_def [symmetric, unfolded Let_def])
qed

lemma unaligned_step:
  assumes "arena_ok s" and "n > 0" and "n \<le> alloc_bytes_remaining s"
  shows "unat (unaligned_alloc_ptr s - n) = unat (unaligned_alloc_ptr s) - unat n"
    and "unat (alloc_bytes_remaining s - n) = unat (alloc_bytes_remaining s) - unat n"
    and "unat (aligned_alloc_ptr s) + unat n \<le> unat (unaligned_alloc_ptr s)"
proof -
  from assms show "unat (aligned_alloc_ptr s) + unat n \<le> unat (unaligned_alloc_ptr s)"
    by (auto simp: arena_ok_def word_le_nat_alt)
  then show "unat (unaligned_alloc_ptr s - n) = unat (unaligned_alloc_ptr s) - unat n"
    by (intro unat_sub_no_wrap) (simp add: word_le_nat_alt)
  show "unat (alloc_bytes_remaining s - n) = unat (alloc_bytes_remaining s) - unat n"
    using assms(3) by (rule unat_sub_no_wrap)
qed

lemma aligned_step:
  assumes "arena_ok s" and "unat n < 2 ^ 64 - 16"
  defines "q \<equiv> slop_of (aligned_alloc_ptr s)"
  shows "unat (n + q) = unat n + unat q"
    and "n + q \<le> alloc_bytes_remaining s \<Longrightarrow>
      unat (aligned_alloc_ptr s) + unat n + unat q \<le> unat (unaligned_alloc_ptr s) \<and>
      unat (aligned_alloc_ptr s + q) = unat (aligned_alloc_ptr s) + unat q \<and>
      unat (aligned_alloc_ptr s + (n + q)) = unat (aligned_alloc_ptr s) + unat n + unat q \<and>
      unat (alloc_bytes_remaining s - (n + q)) = unat (alloc_bytes_remaining s) - (unat n + unat q)"
proof -
  have "unat q \<le> 15" by (simp add: q_def slop_le)
  then show nq: "unat (n + q) = unat n + unat q"
    using assms(2) by (intro unat_add_no_wrap) simp
  assume fits: "n + q \<le> alloc_bytes_remaining s"
  then have le: "unat (aligned_alloc_ptr s) + (unat n + unat q) \<le> unat (unaligned_alloc_ptr s)"
    using assms(1) nq by (auto simp: arena_ok_def word_le_nat_alt)
  moreover have "unat (unaligned_alloc_ptr s) < 2 ^ 64" using unat_u64_less [of "unaligned_alloc_ptr s"] by simp
  ultimately have "unat (aligned_alloc_ptr s + q) = unat (aligned_alloc_ptr s) + unat q"
    and "unat (aligned_alloc_ptr s + (n + q)) = unat (aligned_alloc_ptr s) + unat (n + q)"
    using nq unat_add_no_wrap [of "aligned_alloc_ptr s" q] unat_add_no_wrap [of "aligned_alloc_ptr s" "n + q"] by simp_all
  with le nq unat_sub_no_wrap [OF fits] show "unat (aligned_alloc_ptr s) + unat n + unat q \<le> unat (unaligned_alloc_ptr s) \<and>
      unat (aligned_alloc_ptr s + q) = unat (aligned_alloc_ptr s) + unat q \<and>
      unat (aligned_alloc_ptr s + (n + q)) = unat (aligned_alloc_ptr s) + unat n + unat q \<and>
      unat (alloc_bytes_remaining s - (n + q)) = unat (alloc_bytes_remaining s) - (unat n + unat q)" by simp
qed

lemma arena_alloc_Some:
  assumes "arena_ok s" and "request_ok r" and "arena_alloc new_char r s = Some (reg, s')"
  shows "arena_ok s' \<and> block_addr s' = block_addr s \<and> block_sz s' = block_sz s \<and> snd reg = request_bytes r \<and>
    unat (aligned_alloc_ptr s) \<le> fst reg \<and> fst reg + snd reg \<le> unat (unaligned_alloc_ptr s) \<and>
    unat (aligned_alloc_ptr s) \<le> unat (aligned_alloc_ptr s') \<and> unat (unaligned_alloc_ptr s') \<le> unat (unaligned_alloc_ptr s) \<and>
    (fst reg + snd reg \<le> unat (aligned_alloc_ptr s') \<or> unat (unaligned_alloc_ptr s') \<le> fst reg)"
proof (cases r)
  case (Unaligned n)
  with assms have n: "n > 0" "n \<le> alloc_bytes_remaining s"
    by (auto simp: arena_alloc_def arena_Allocate_run split: if_splits)
  with assms(3) Unaligned have "reg = (unat (unaligned_alloc_ptr s - n), unat n)"
    "s' = s\<lparr>unaligned_alloc_ptr := unaligned_alloc_ptr s - n, alloc_bytes_remaining := alloc_bytes_remaining s - n\<rparr>"
    by (auto simp: arena_alloc_def arena_Allocate_run)
  with unaligned_step [OF assms(1) n] assms(1) Unaligned show ?thesis by (auto simp: arena_ok_def)
next
  case (Aligned n)
  let ?q = "slop_of (aligned_alloc_ptr s)"
  from Aligned assms have n: "n + ?q \<le> alloc_bytes_remaining s"
    by (auto simp: arena_alloc_def arena_AllocateAligned_run Let_def split: if_splits)
  with assms(3) Aligned have "reg = (unat (aligned_alloc_ptr s + ?q), unat n)"
    "s' = s\<lparr>aligned_alloc_ptr := aligned_alloc_ptr s + (n + ?q), alloc_bytes_remaining := alloc_bytes_remaining s - (n + ?q)\<rparr>"
    by (auto simp: arena_alloc_def arena_AllocateAligned_run Let_def)
  with aligned_step(2) [OF assms(1) _ n] assms(1,2) Aligned show ?thesis by (auto simp: arena_ok_def)
qed

lemma arena_alloc_fits:
  assumes "arena_ok s" and "request_ok r"
    and "request_cost r \<le> unat (unaligned_alloc_ptr s) - unat (aligned_alloc_ptr s)"
  shows "\<exists>reg s'. arena_alloc new_char r s = Some (reg, s') \<and>
    unat (unaligned_alloc_ptr s) - unat (aligned_alloc_ptr s) \<le>
      request_cost r + (unat (unaligned_alloc_ptr s') - unat (aligned_alloc_ptr s'))"
proof (cases r)
  case (Unaligned n)
  with assms have n: "n > 0" "n \<le> alloc_bytes_remaining s" by (simp_all add: arena_ok_def word_le_nat_alt)
  with unaligned_step [OF assms(1) n] Unaligned show ?thesis by (simp add: arena_alloc_def arena_Allocate_run)
next
  case (Aligned n)
  let ?q = "slop_of (aligned_alloc_ptr s)"
  from Aligned assms(2) have n: "unat n < 2 ^ 64 - 16" by simp
  have fits: "n + ?q \<le> alloc_bytes_remaining s"
    using assms(1,3) Aligned slop_le [of "aligned_alloc_ptr s"] aligned_step(1) [OF assms(1) n]
    by (simp add: arena_ok_def word_le_nat_alt)
  with aligned_step(2) [OF assms(1) n fits] Aligned slop_le [of "aligned_alloc_ptr s"] show ?thesis
    by (simp add: arena_alloc_def arena_AllocateAligned_run Let_def)
qed

interpretation arena: region_allocator arena_ok "\<lambda>s. unat (aligned_alloc_ptr s)" "\<lambda>s. unat (unaligned_alloc_ptr s)"
    request_ok request_cost "arena_alloc new_char" for new_char
proof unfold_locales
  show "unat (aligned_alloc_ptr s) \<le> unat (unaligned_alloc_ptr s)" if "arena_ok s" for s
    using that by (simp add: arena_ok_def)
next
  fix s :: NVMArena and r reg s'
  assume "arena_ok s" "request_ok r" "arena_alloc new_char r s = Some (reg, s')"
  note step = arena_alloc_Some [OF this]
  from step show "arena_ok s'" by blast
  from step show "unat (aligned_alloc_ptr s) \<le> fst reg \<and> fst reg + snd reg \<le> unat (unaligned_alloc_ptr s)" by blast
  from step show "unat (aligned_alloc_ptr s) \<le> unat (aligned_alloc_ptr s') \<and> unat (unaligned_alloc_ptr s') \<le> unat (unaligned_alloc_ptr s)" by blast
  from step show "fst reg + snd reg \<le> unat (aligned_alloc_ptr s') \<or> unat (unaligned_alloc_ptr s') \<le> fst reg" by blast
qed (rule arena_alloc_fits)

subsection \<open>Sizes and alignment of the served regions\<close>

fun region_fits :: "request \<Rightarrow> nat \<times> nat \<Rightarrow> bool" where
  "region_fits (Unaligned n) (b, m) \<longleftrightarrow> m = unat n"
| "region_fits (Aligned n) (b, m) \<longleftrightarrow> m = unat n \<and> 16 dvd b"

lemma arena_alloc_region_fits:
  assumes "request_ok r" and "arena_alloc new_char r s = Some (reg, s')"
  shows "region_fits r reg"
proof (cases r)
  case (Unaligned n)
  with assms show ?thesis by (auto simp: arena_alloc_def arena_Allocate_run split: if_splits)
next
  case (Aligned n)
  have "unat (aligned_alloc_ptr s + slop_of (aligned_alloc_ptr s)) mod 16 = 0"
    using slop_aligns [of "aligned_alloc_ptr s"] by (simp flip: and_15_mod)
  with Aligned assms show ?thesis
    by (auto simp: arena_alloc_def arena_AllocateAligned_run Let_def split: if_splits)
qed

lemma serve_region_fits:
  assumes "list_all request_ok rs" and "serve (arena_alloc new_char) rs s = Some (regs, s')"
  shows "list_all2 region_fits rs regs"
  using assms
proof (induction rs arbitrary: s regs)
  case (Cons r rs)
  then show ?case by (auto simp: arena_alloc_region_fits split: option.splits prod.splits)
qed simp

lemma ctor_arena_ok:
  assumes "NVMArena_ctor optimize pmem_map_file n i = (Val s, j)" and "unat (block_addr s) + unat (block_sz s) < 2 ^ 64"
  shows "arena_ok s" and "unat (unaligned_alloc_ptr s) = unat (block_addr s) + unat (block_sz s)"
    and "aligned_alloc_ptr s = block_addr s"
proof -
  from assms(1) have s: "unaligned_alloc_ptr s = block_addr s + block_sz s" "aligned_alloc_ptr s = block_addr s"
    "alloc_bytes_remaining s = block_sz s"
    by (auto simp: NVMArena_ctor_def Let_def split: option.splits)
  show u: "unat (unaligned_alloc_ptr s) = unat (block_addr s) + unat (block_sz s)"
    using assms(2) by (simp add: s(1) unat_add_no_wrap)
  show "aligned_alloc_ptr s = block_addr s" by (rule s(2))
  show "arena_ok s" using assms(2) u by (simp add: arena_ok_def s(2,3))
qed

section \<open>Properties\<close>

text \<open>C15: A new arena serves every sequence of requests whose sizes, with at most 15 bytes of padding per aligned
  request, fit into the mapped block: each request is granted, the regions lie in the block, have the
  requested sizes, are aligned to 16 bytes where that was asked for, and no two of them overlap; the
  pointers and the count of remaining bytes stay consistent.\<close>

theorem arena_serves_disjoint_regions:
  assumes "NVMArena_ctor optimize pmem_map_file n i = (Val s, j)" and "unat (block_addr s) + unat (block_sz s) < 2 ^ 64"
    and "list_all request_ok rs" and "sum_list (map request_cost rs) \<le> unat (block_sz s)"
  shows "\<exists>regs s'. serve (arena_alloc new_char) rs s = Some (regs, s') \<and> arena_ok s' \<and>
    list_all2 region_fits rs regs \<and> sorted_wrt apart regs \<and>
    list_all (\<lambda>(b, m). unat (block_addr s) \<le> b \<and> b + m \<le> unat (block_addr s) + unat (block_sz s)) regs"
proof -
  note new = ctor_arena_ok [OF assms(1,2)]
  from arena.serve_total [OF new(1) assms(3), of new_char] assms(4) new(2,3) obtain regs s' where
    run: "serve (arena_alloc new_char) rs s = Some (regs, s')" by auto
  from arena.serve_inside [OF new(1) assms(3) run] arena.serve_apart [OF new(1) assms(3) run]
    serve_region_fits [OF assms(3) run] run new(2,3) show ?thesis
    by (auto simp: list_all_iff)
qed

definition demo_arena :: NVMArena where
  "demo_arena = \<lparr>block_addr = 4096, block_sz = 8192, unaligned_alloc_ptr = 12288, aligned_alloc_ptr = 4096,
     alloc_bytes_remaining = 8192, kBlockSize = 8192, blocks = [], blocks_memory = 8192, irregular_block_num = 0\<rparr>"

theorem arena_serves_disjoint_regions_witness:
  "\<exists>regs s'. serve (arena_alloc (\<lambda>s n. None)) [Aligned 10, Unaligned 7, Aligned 20] demo_arena = Some (regs, s') \<and> arena_ok s' \<and>
    list_all2 region_fits [Aligned 10, Unaligned 7, Aligned 20] regs \<and> sorted_wrt apart regs \<and>
    list_all (\<lambda>(b, m). 4096 \<le> b \<and> b + m \<le> 12288) regs"
proof -
  have ctor: "NVMArena_ctor (\<lambda>n. n) (\<lambda>i n. Some 4096) 1024 0 = (Val demo_arena, 1)"
    by (simp add: NVMArena_ctor_def demo_arena_def push_bit_eq_mult)
  show ?thesis
    using arena_serves_disjoint_regions [OF ctor, of "[Aligned 10, Unaligned 7, Aligned 20]" "\<lambda>s n. None"]
    by (simp add: demo_arena_def)
qed

text \<open>A request either is granted with the pointers and the count of remaining bytes kept consistent, or ends
  the process: the fallback that would map a further block exits before it does anything, so the arena
  never grows beyond its first block.\<close>

theorem arena_request_granted_or_exits:
  assumes "arena_ok s" and "request_ok r"
  shows "(\<exists>a s'. arena_run new_char r s = (Val a, s') \<and> arena_ok s' \<and> blocks s' = blocks s \<and>
      unat (aligned_alloc_ptr s) \<le> unat a \<and> unat a + request_bytes r \<le> unat (unaligned_alloc_ptr s)) \<or>
    (arena_run new_char r s = (Die Exit_process, s) \<and> unat (alloc_bytes_remaining s) < request_cost r)"
proof (cases "arena_alloc new_char r s")
  case None
  have "arena_run new_char r s = (Die Exit_process, s)"
    using None assms(2) by (cases r) (auto simp: arena_alloc_def arena_Allocate_run arena_AllocateAligned_run Let_def split: if_splits)
  moreover have "unat (alloc_bytes_remaining s) < request_cost r"
    using None arena_alloc_fits [OF assms, of new_char] assms(1) by (fastforce simp: arena_ok_def)
  ultimately show ?thesis by blast
next
  case (Some x)
  then obtain a s' where run: "arena_run new_char r s = (Val a, s')" and x: "x = ((unat a, request_bytes r), s')"
    by (auto simp: arena_alloc_def split: prod.splits outcome.splits)
  have "blocks s' = blocks s"
    using run assms(2) by (cases r) (auto simp: arena_Allocate_run arena_AllocateAligned_run Let_def split: if_splits)
  with arena_alloc_Some [OF assms Some [unfolded x]] run show ?thesis by auto
qed

theorem arena_request_granted_or_exits_witness:
  "(\<exists>a s'. arena_run (\<lambda>s n. None) (Unaligned 9000) demo_arena = (Val a, s') \<and> arena_ok s' \<and> blocks s' = [] \<and>
      4096 \<le> unat a \<and> unat a + 9000 \<le> 12288) \<or>
    (arena_run (\<lambda>s n. None) (Unaligned 9000) demo_arena = (Die Exit_process, demo_arena) \<and> 8192 < request_cost (Unaligned 9000))"
  using arena_request_granted_or_exits [of demo_arena "Unaligned 9000" "\<lambda>s n. None"]
  by (simp add: arena_ok_def demo_arena_def)

text \<open>The size of an aligned request is rounded up without a test for overflow: when the aligned pointer is not
  a multiple of 16, a request for \<open>2 ^ 64 - slop\<close> bytes is granted although it reserves nothing.\<close>

theorem aligned_request_wraps:
  assumes "unat (aligned_alloc_ptr s) mod 16 \<noteq> 0"
  shows "arena_AllocateAligned new_char (- slop_of (aligned_alloc_ptr s)) s =
      (Val (aligned_alloc_ptr s + slop_of (aligned_alloc_ptr s)), s) \<and>
    unat (- slop_of (aligned_alloc_ptr s)) = 2 ^ 64 - unat (slop_of (aligned_alloc_ptr s)) \<and>
    0 < unat (slop_of (aligned_alloc_ptr s)) \<and> unat (slop_of (aligned_alloc_ptr s)) < 16"
proof -
  let ?q = "slop_of (aligned_alloc_ptr s)"
  have q: "unat ?q \<le> 15" "0 < unat ?q" using assms slop_le [of "aligned_alloc_ptr s"] by (simp_all add: unat_slop)
  have "unat (- ?q) = 2 ^ 64 - unat ?q"
    using q unat_sub_if' [of 0 ?q] by simp
  with q show ?thesis by (simp add: arena_AllocateAligned_run Let_def)
qed

theorem aligned_request_wraps_witness:
  "arena_AllocateAligned (\<lambda>s n. None) (- slop_of 4097) (demo_arena\<lparr>aligned_alloc_ptr := 4097, alloc_bytes_remaining := 8191\<rparr>) =
      (Val (4097 + slop_of 4097), demo_arena\<lparr>aligned_alloc_ptr := 4097, alloc_bytes_remaining := 8191\<rparr>)"
  using aligned_request_wraps [of "demo_arena\<lparr>aligned_alloc_ptr := 4097, alloc_bytes_remaining := 8191\<rparr>" "\<lambda>s n. None"]
  by simp

end
