(* ===== verification/Concurrent_Arena.thy ===== *)
theory Concurrent_Arena
  imports Nvm_Arena
begin

unbundle bit_operations_syntax

text \<open>
  \<open>concurrentnvmarena.h\<close> and \<open>concurrentnvmarena.cc\<close>: the arena with one shard per core in front of
  RocksDB's \<open>Arena\<close>, and the pointers of its own that \<open>Allocate\<close> and \<open>AllocateAligned\<close> use. RocksDB's
  \<open>Arena\<close> is an argument: its state is the type \<open>'a\<close>, its operations the record \<open>rocks_arena\<close>. The
  outcome of each \<open>try_lock\<close>, the shard that \<open>AccessElementAndIndex\<close> picks, and the build-time macros
  are arguments too, so that a theorem for all of them covers every schedule of the locks. The source
  uses members \<open>alloc_ptr_\<close>, \<open>blocks_\<close>, \<open>blocks_memory_\<close> and \<open>tracker_\<close> that it does not declare;
  they are fields of the model, and
  \<open>ROCKSDB_SUPPORT_THREAD_LOCAL\<close> is taken as defined.
\<close>

section \<open>State\<close>

record 'a rocks_arena =
  ra_AllocateAligned :: "'a \<Rightarrow> u64 \<Rightarrow> u64 \<times> 'a"
  ra_AllocatedAndUnused :: "'a \<Rightarrow> u64"
  ra_MemoryAllocatedBytes :: "'a \<Rightarrow> u64"
  ra_IrregularBlockNum :: "'a \<Rightarrow> u64"
  ra_IsInInlineBlock :: "'a \<Rightarrow> bool"

record Shard =
  free_begin :: u64
  allocated_and_unused :: u64

record 'a ConcurrentNVMArena =
  hugetlb_size :: u64
  shard_block_size :: u64
  shards :: "Shard list"
  inner_arena :: 'a
  arena_allocated_and_unused :: u64
  memory_allocated_bytes :: u64
  arena_irregular_block_num :: u64
  c_kBlockSize :: u64
  c_irregular_block_num :: u64
  c_unaligned_alloc_ptr :: u64
  c_aligned_alloc_ptr :: u64
  c_alloc_ptr :: u64
  c_alloc_bytes_remaining :: u64
  c_blocks :: "u64 list"
  c_blocks_memory :: u64
  c_tracked :: "u64 list option"  \<comment> \<open>the calls of \<open>tracker_->Allocate\<close>, when there is a tracker\<close>
  tls_cpuid :: u64

type_synonym ('a, 'r) carena_op = "('a ConcurrentNVMArena, 'r) cpp"

definition kMaxShardBlockSize :: u64 where
  "kMaxShardBlockSize = 128 * 1024"

section \<open>Operations\<close>

definition new_Shard :: Shard where
  "new_Shard = \<lparr>free_begin = 0, allocated_and_unused = 0\<rparr>"

text \<open>
  The constructor initialises the shard size, the shards and RocksDB's arena; every other member keeps
  the indeterminate or default value in \<open>raw\<close>. \<open>cores\<close> is the size of \<open>CoreLocalArray\<close>.
\<close>

definition ConcurrentNVMArena_ctor ::
  "'a ConcurrentNVMArena \<Rightarrow> (u64 \<Rightarrow> u64 \<Rightarrow> 'a) \<Rightarrow> nat \<Rightarrow> u64 \<Rightarrow> u64 \<Rightarrow> 'a ConcurrentNVMArena" where
  "ConcurrentNVMArena_ctor raw new_arena cores block_size huge_page_size =
     raw\<lparr>shard_block_size := min kMaxShardBlockSize (block_size div 8), shards := replicate cores new_Shard,
       inner_arena := new_arena block_size huge_page_size\<rparr>"

definition ShardAllocatedAndUnused :: "('a, u64) carena_op" where
  "ShardAllocatedAndUnused = getC (\<lambda>s. foldl (\<lambda>total sh. total + allocated_and_unused sh) 0 (shards s))"

definition c_AllocatedAndUnused :: "('a, u64) carena_op" where
  "c_AllocatedAndUnused =
     bindC (getC arena_allocated_and_unused) (\<lambda>n. bindC ShardAllocatedAndUnused (\<lambda>m. returnC (n + m)))"

definition c_MemoryAllocatedBytes :: "'a ConcurrentNVMArena \<Rightarrow> u64" where
  "c_MemoryAllocatedBytes A = memory_allocated_bytes A"

definition c_IrregularBlockNum :: "'a ConcurrentNVMArena \<Rightarrow> u64" where
  "c_IrregularBlockNum A = arena_irregular_block_num A"

definition c_BlockSize :: "'a ConcurrentNVMArena \<Rightarrow> u64" where
  "c_BlockSize A = c_kBlockSize A"

definition c_AllocateNewBlock ::
  "('a ConcurrentNVMArena \<Rightarrow> u64 \<Rightarrow> u64 option) \<Rightarrow> (u64 \<Rightarrow> u64) \<Rightarrow> u64 \<Rightarrow> ('a, u64) carena_op" where
  "c_AllocateNewBlock new_char usable_size block_bytes =
     thenC (modC (\<lambda>s. s\<lparr>c_blocks := c_blocks s @ [0]\<rparr>))
     (bindC (getC (\<lambda>s. new_char s block_bytes)) (\<lambda>r. case r of
        None \<Rightarrow> throwC Bad_alloc
      | Some block \<Rightarrow>
          (let allocated_size = usable_size block_bytes in
           thenC (modC (\<lambda>s. s\<lparr>c_blocks_memory := c_blocks_memory s + allocated_size\<rparr>))
           (thenC (modC (\<lambda>s. s\<lparr>c_tracked := map_option (\<lambda>ns. ns @ [allocated_size]) (c_tracked s)\<rparr>))
           (thenC (modC (\<lambda>s. s\<lparr>c_blocks := (c_blocks s)[length (c_blocks s) - 1 := block]\<rparr>))
            (returnC block))))))"

text \<open>\<open>map_hugetlb\<close> says whether the macro \<open>MAP_HUGETLB\<close> is defined; \<open>from_huge_page\<close> is \<open>AllocateFromHugePage\<close>,
  which is declared but has no body.\<close>

definition c_AllocateFallback ::
  "bool \<Rightarrow> (u64 \<Rightarrow> ('a, u64) carena_op) \<Rightarrow> (u64 \<Rightarrow> ('a, u64) carena_op) \<Rightarrow> u64 \<Rightarrow> bool \<Rightarrow> ('a, u64) carena_op" where
  "c_AllocateFallback map_hugetlb from_huge_page new_block bytes aligned =
     bindC (getC c_kBlockSize) (\<lambda>kb.
     if bytes > kb div 4
     then thenC (modC (\<lambda>s. s\<lparr>c_irregular_block_num := c_irregular_block_num s + 1\<rparr>)) (new_block bytes)
     else
       bindC (if map_hugetlb
              then bindC (getC hugetlb_size) (\<lambda>hs.
                   if hs \<noteq> 0 then bindC (from_huge_page hs) (\<lambda>b. returnC (hs, b)) else returnC (0, 0))
              else bindC (new_block kb) (\<lambda>b. returnC (kb, b)))
         (\<lambda>(sz, block_head).
       thenC (modC (\<lambda>s. s\<lparr>c_alloc_bytes_remaining := sz - bytes\<rparr>))
       (if aligned
        then thenC (modC (\<lambda>s. s\<lparr>c_aligned_alloc_ptr := block_head + bytes, c_unaligned_alloc_ptr := block_head + sz\<rparr>))
             (returnC block_head)
        else thenC (modC (\<lambda>s. s\<lparr>c_aligned_alloc_ptr := block_head, c_unaligned_alloc_ptr := block_head + sz - bytes\<rparr>))
             (getC c_unaligned_alloc_ptr))))"

definition Fixup :: "'a rocks_arena \<Rightarrow> ('a, unit) carena_op" where
  "Fixup A = modC (\<lambda>s. s\<lparr>arena_allocated_and_unused := ra_AllocatedAndUnused A (inner_arena s),
     memory_allocated_bytes := ra_MemoryAllocatedBytes A (inner_arena s),
     arena_irregular_block_num := ra_IrregularBlockNum A (inner_arena s)\<rparr>)"

definition c_Allocate :: "(u64 \<Rightarrow> bool \<Rightarrow> ('a, u64) carena_op) \<Rightarrow> u64 \<Rightarrow> ('a, u64) carena_op" where
  "c_Allocate fallback bytes =
     thenC (assertC (bytes > 0))
     (bindC (getC c_alloc_bytes_remaining) (\<lambda>rem.
      if bytes \<le> rem
      then thenC (modC (\<lambda>s. s\<lparr>c_unaligned_alloc_ptr := c_unaligned_alloc_ptr s - bytes\<rparr>))
           (thenC (modC (\<lambda>s. s\<lparr>c_alloc_bytes_remaining := c_alloc_bytes_remaining s - bytes\<rparr>))
            (getC c_unaligned_alloc_ptr))
      else fallback bytes False))"

text \<open>The call \<open>AllocateFallback(bytes)\<close> leaves out the second argument; the comment at it says that the
  memory it returns is aligned, so the model passes \<open>True\<close>.\<close>

definition c_AllocateAligned :: "(u64 \<Rightarrow> bool \<Rightarrow> ('a, u64) carena_op) \<Rightarrow> u64 \<Rightarrow> ('a, u64) carena_op" where
  "c_AllocateAligned fallback bytes =
     (let rounded_up = ((bytes - 1) OR (8 - 1)) + 1 in
      thenC (assertC (rounded_up \<ge> bytes \<and> rounded_up < bytes + 8 \<and> rounded_up mod 8 = 0))
      (bindC (getC c_alloc_ptr) (\<lambda>p.
       let current_mod = p AND (8 - 1);
           slop = (if current_mod = 0 then 0 else 8 - current_mod);
           needed = bytes + slop in
       bindC (getC c_alloc_bytes_remaining) (\<lambda>rem.
       bindC (if needed \<le> rem
              then thenC (modC (\<lambda>s. s\<lparr>c_alloc_ptr := c_alloc_ptr s + needed\<rparr>))
                   (thenC (modC (\<lambda>s. s\<lparr>c_alloc_bytes_remaining := c_alloc_bytes_remaining s - needed\<rparr>))
                    (returnC (p + slop)))
              else fallback bytes True) (\<lambda>result.
       thenC (assertC (result AND (8 - 1) = 0)) (returnC result))))))"

text \<open>\<open>Repick\<close>: \<open>picked\<close> is the index \<open>AccessElementAndIndex\<close> returns.\<close>

definition Repick :: "nat \<Rightarrow> ('a, nat) carena_op" where
  "Repick picked =
     thenC (modC (\<lambda>s. s\<lparr>tls_cpuid := of_nat picked OR of_nat (length (shards s))\<rparr>)) (returnC picked)"

definition shard_at :: "nat \<Rightarrow> ('a, Shard) carena_op" where
  "shard_at i = bindC (getC shards) (\<lambda>ss. if i < length ss then returnC (ss ! i) else dieC Out_of_bounds)"

definition shard_mod :: "nat \<Rightarrow> (Shard \<Rightarrow> Shard) \<Rightarrow> ('a, unit) carena_op" where
  "shard_mod i f = modC (\<lambda>s. s\<lparr>shards := (shards s)[i := f (shards s ! i)]\<rparr>)"

text \<open>The last part of \<open>AllocateImpl\<close>: take \<open>bytes\<close> from the shard, which has \<open>avail\<close> bytes.\<close>

definition shard_take :: "nat \<Rightarrow> u64 \<Rightarrow> u64 \<Rightarrow> ('a, u64) carena_op" where
  "shard_take i avail bytes =
     thenC (shard_mod i (\<lambda>sh. sh\<lparr>allocated_and_unused := avail - bytes\<rparr>))
     (bindC (shard_at i) (\<lambda>sh.
      if bytes mod 8 = 0
      then thenC (shard_mod i (\<lambda>sh. sh\<lparr>free_begin := free_begin sh + bytes\<rparr>)) (returnC (free_begin sh))
      else returnC (free_begin sh + avail - bytes)))"

definition shard_reload ::
  "'a rocks_arena \<Rightarrow> nat \<Rightarrow> u64 \<Rightarrow> u64 \<Rightarrow> ('a, u64) carena_op \<Rightarrow> ('a, u64) carena_op" where
  "shard_reload A i sb bytes from_arena =
     bindC (getC arena_allocated_and_unused) (\<lambda>exact.
     bindC (getC inner_arena) (\<lambda>a.
     thenC (assertC (exact = ra_AllocatedAndUnused A a))
     (if exact \<ge> bytes \<and> ra_IsInInlineBlock A a
      then from_arena
      else
        (let avail = (if exact \<ge> sb div 2 \<and> exact < sb * 2 then exact else sb);
             (b, a') = ra_AllocateAligned A a avail in
         thenC (modC (\<lambda>s. s\<lparr>inner_arena := a'\<rparr>))
         (thenC (shard_mod i (\<lambda>sh. sh\<lparr>free_begin := b\<rparr>))
         (thenC (Fixup A) (shard_take i avail bytes)))))))"

definition AllocateImpl ::
  "'a rocks_arena \<Rightarrow> bool \<Rightarrow> bool \<Rightarrow> nat \<Rightarrow> u64 \<Rightarrow> bool \<Rightarrow> ('a, u64) carena_op \<Rightarrow> ('a, u64) carena_op" where
  "AllocateImpl A arena_free shard_free picked bytes force_arena func =
     (let from_arena = bindC func (\<lambda>rv. thenC (Fixup A) (returnC rv)) in
     bindC (getC shard_block_size) (\<lambda>sb.
     bindC (getC tls_cpuid) (\<lambda>cpu.
     bindC (if bytes > sb div 4 \<or> force_arena then returnC True
            else if cpu = 0 then bindC (shard_at 0) (\<lambda>sh0. returnC (allocated_and_unused sh0 = 0 \<and> arena_free))
            else returnC False) (\<lambda>direct.
     if direct then from_arena
     else
       bindC (getC (\<lambda>s. unat (cpu AND (of_nat (length (shards s)) - 1)))) (\<lambda>i0.
       bindC (if shard_free then returnC i0 else Repick picked) (\<lambda>i.
       bindC (shard_at i) (\<lambda>sh.
       if allocated_and_unused sh < bytes
       then shard_reload A i sb bytes from_arena
       else shard_take i (allocated_and_unused sh) bytes)))))))"

lemma mod_8_unat: "(n :: u64) mod 8 = 0 \<longleftrightarrow> 8 dvd unat n"
proof -
  have "n mod 8 = 0 \<longleftrightarrow> unat (n mod 8) = 0" by (rule unsigned_eq_0_iff [symmetric])
  also have "unat (n mod 8) = unat n mod 8" using unat_mod [of n 8] by simp
  finally show ?thesis by (simp add: dvd_eq_mod_eq_0)
qed

section \<open>A shard serves disjoint regions\<close>

definition shard_ready :: "nat \<Rightarrow> u64 \<Rightarrow> 'a ConcurrentNVMArena \<Rightarrow> bool" where
  "shard_ready i sb s \<longleftrightarrow> tls_cpuid s \<noteq> 0 \<and> unat (tls_cpuid s AND (of_nat (length (shards s)) - 1)) = i \<and>
     i < length (shards s) \<and> shard_block_size s = sb \<and>
     unat (free_begin (shards s ! i)) + unat (allocated_and_unused (shards s ! i)) < 2 ^ 64"

definition taken :: "u64 \<Rightarrow> Shard \<Rightarrow> Shard" where
  "taken n sh = sh\<lparr>allocated_and_unused := allocated_and_unused sh - n,
     free_begin := (if n mod 8 = 0 then free_begin sh + n else free_begin sh)\<rparr>"

definition taken_at :: "u64 \<Rightarrow> Shard \<Rightarrow> u64" where
  "taken_at n sh = (if n mod 8 = 0 then free_begin sh else free_begin sh + allocated_and_unused sh - n)"

lemma shard_take_run:
  assumes "i < length (shards s)"
  shows "shard_take i avail n s =
    (let sh = (shards s ! i)\<lparr>allocated_and_unused := avail\<rparr> in
     (Val (taken_at n sh), s\<lparr>shards := (shards s)[i := taken n sh]\<rparr>))"
  using assms
  by (cases "shards s ! i") (simp add: shard_take_def shard_mod_def shard_at_def modC_def getC_def exec_simps Let_def taken_def taken_at_def)

lemma AllocateImpl_shard:
  assumes "shard_ready i sb s" and "n \<le> sb div 4" and "n \<le> allocated_and_unused (shards s ! i)"
  shows "AllocateImpl A arena_free True picked n False func s =
    (Val (taken_at n (shards s ! i)), s\<lparr>shards := (shards s)[i := taken n (shards s ! i)]\<rparr>)"
proof -
  have "\<not> sb div 4 < n" "\<not> allocated_and_unused (shards s ! i) < n" using assms(2,3) by simp_all
  with assms(1) show ?thesis
    by (simp add: AllocateImpl_def Let_def getC_def shard_at_def exec_simps shard_ready_def shard_take_run)
qed

lemma AllocateImpl_reload:
  assumes "shard_ready i sb s" and "n \<le> sb div 4" and "allocated_and_unused (shards s ! i) < n"
  shows "AllocateImpl A arena_free True picked n False func s =
    shard_reload A i sb n (bindC func (\<lambda>rv. thenC (Fixup A) (returnC rv))) s"
proof -
  have "\<not> sb div 4 < n" using assms(2) by simp
  with assms(1,3) show ?thesis
    by (simp add: AllocateImpl_def Let_def getC_def shard_at_def exec_simps shard_ready_def)
qed

text \<open>A request served by the shard itself: no reload from the arena is needed.\<close>

definition shard_alloc ::
  "'a rocks_arena \<Rightarrow> bool \<Rightarrow> nat \<Rightarrow> nat \<Rightarrow> ('a, u64) carena_op \<Rightarrow> u64 \<Rightarrow> 'a ConcurrentNVMArena \<Rightarrow>
    ((nat \<times> nat) \<times> 'a ConcurrentNVMArena) option" where
  "shard_alloc A arena_free picked i func n s =
     (if allocated_and_unused (shards s ! i) < n then None
      else (case AllocateImpl A arena_free True picked n False func s of
              (Val a, s') \<Rightarrow> Some ((unat a, unat n), s') | _ \<Rightarrow> None))"

definition shard_lo :: "nat \<Rightarrow> 'a ConcurrentNVMArena \<Rightarrow> nat" where
  "shard_lo i s = unat (free_begin (shards s ! i))"

definition shard_hi :: "nat \<Rightarrow> 'a ConcurrentNVMArena \<Rightarrow> nat" where
  "shard_hi i s = unat (free_begin (shards s ! i)) + unat (allocated_and_unused (shards s ! i))"

lemma taken_bounds:
  assumes "unat (free_begin sh) + unat (allocated_and_unused sh) < 2 ^ 64" and "n \<le> allocated_and_unused sh"
  shows "unat (allocated_and_unused (taken n sh)) = unat (allocated_and_unused sh) - unat n"
    and "unat (free_begin (taken n sh)) = (if n mod 8 = 0 then unat (free_begin sh) + unat n else unat (free_begin sh))"
    and "unat (taken_at n sh) = (if n mod 8 = 0 then unat (free_begin sh)
      else unat (free_begin sh) + unat (allocated_and_unused sh) - unat n)"
    and "unat n \<le> unat (allocated_and_unused sh)"
proof -
  from assms(2) show le: "unat n \<le> unat (allocated_and_unused sh)" by (simp add: word_le_nat_alt)
  show "unat (allocated_and_unused (taken n sh)) = unat (allocated_and_unused sh) - unat n"
    using assms(2) by (simp add: taken_def unat_sub_no_wrap)
  have "unat (free_begin sh + n) = unat (free_begin sh) + unat n"
    by (rule unat_add_no_wrap) (use assms(1) le in simp)
  then show "unat (free_begin (taken n sh)) = (if n mod 8 = 0 then unat (free_begin sh) + unat n else unat (free_begin sh))"
    by (simp add: taken_def)
  have e: "unat (free_begin sh + allocated_and_unused sh) = unat (free_begin sh) + unat (allocated_and_unused sh)"
    by (rule unat_add_no_wrap) (use assms(1) in simp)
  then have "unat (free_begin sh + allocated_and_unused sh - n) = unat (free_begin sh) + unat (allocated_and_unused sh) - unat n"
    using le by (subst unat_sub_no_wrap) (simp_all add: word_le_nat_alt)
  then show "unat (taken_at n sh) = (if n mod 8 = 0 then unat (free_begin sh)
      else unat (free_begin sh) + unat (allocated_and_unused sh) - unat n)" by (simp add: taken_at_def)
qed

lemma shard_alloc_Some:
  assumes "shard_ready i sb s" and "n \<le> sb div 4" and "shard_alloc A arena_free picked i func n s = Some (reg, s')"
  shows "n \<le> allocated_and_unused (shards s ! i)"
    and "reg = (unat (taken_at n (shards s ! i)), unat n)"
    and "s' = s\<lparr>shards := (shards s)[i := taken n (shards s ! i)]\<rparr>"
proof -
  show le: "n \<le> allocated_and_unused (shards s ! i)" using assms(3) by (auto simp: shard_alloc_def split: if_splits)
  from assms(3) AllocateImpl_shard [OF assms(1,2) le, of A arena_free picked func]
  show "reg = (unat (taken_at n (shards s ! i)), unat n)"
    and "s' = s\<lparr>shards := (shards s)[i := taken n (shards s ! i)]\<rparr>"
    by (auto simp: shard_alloc_def split: if_splits)
qed

lemma shard_ready_taken:
  assumes "shard_ready i sb s" and "n \<le> allocated_and_unused (shards s ! i)"
  shows "shard_ready i sb (s\<lparr>shards := (shards s)[i := taken n (shards s ! i)]\<rparr>)"
proof -
  have "unat (free_begin (shards s ! i)) + unat (allocated_and_unused (shards s ! i)) < 2 ^ 64"
    using assms(1) by (simp add: shard_ready_def)
  note b = taken_bounds [OF this assms(2)]
  show ?thesis using assms(1) b(1,2,4) by (auto simp: shard_ready_def)
qed

interpretation shard: region_allocator "shard_ready i sb" "shard_lo i" "shard_hi i" "\<lambda>n. n \<le> sb div 4" unat
    "shard_alloc A arena_free picked i func" for i sb and A :: "'a rocks_arena" and arena_free picked func
proof unfold_locales
  show "shard_lo i s \<le> shard_hi i s" for s :: "'a ConcurrentNVMArena" by (simp add: shard_lo_def shard_hi_def)
next
  fix s :: "'a ConcurrentNVMArena" and n reg s'
  assume ready: "shard_ready i sb s" and n: "n \<le> sb div 4" and run: "shard_alloc A arena_free picked i func n s = Some (reg, s')"
  note step = shard_alloc_Some [OF ready n run]
  have i: "i < length (shards s)" and "unat (free_begin (shards s ! i)) + unat (allocated_and_unused (shards s ! i)) < 2 ^ 64"
    using ready by (simp_all add: shard_ready_def)
  note b = taken_bounds [OF this(2) step(1)]
  show "shard_ready i sb s'" unfolding step(3) by (rule shard_ready_taken [OF ready step(1)])
  show "shard_lo i s \<le> fst reg \<and> fst reg + snd reg \<le> shard_hi i s"
    using b(3,4) by (auto simp: step(2) shard_lo_def shard_hi_def)
  show "shard_lo i s \<le> shard_lo i s' \<and> shard_hi i s' \<le> shard_hi i s"
    using b i by (simp add: step(3) shard_lo_def shard_hi_def)
  show "fst reg + snd reg \<le> shard_lo i s' \<or> shard_hi i s' \<le> fst reg"
    using b i by (simp add: step(2,3) shard_lo_def shard_hi_def)
next
  fix s :: "'a ConcurrentNVMArena" and n
  assume ready: "shard_ready i sb s" and n: "n \<le> sb div 4" and fits: "unat n \<le> shard_hi i s - shard_lo i s"
  then have le: "n \<le> allocated_and_unused (shards s ! i)"
    by (simp add: shard_lo_def shard_hi_def word_le_nat_alt)
  have i: "i < length (shards s)" and "unat (free_begin (shards s ! i)) + unat (allocated_and_unused (shards s ! i)) < 2 ^ 64"
    using ready by (simp_all add: shard_ready_def)
  note b = taken_bounds [OF this(2) le]
  show "\<exists>reg s'. shard_alloc A arena_free picked i func n s = Some (reg, s') \<and>
      shard_hi i s - shard_lo i s \<le> unat n + (shard_hi i s' - shard_lo i s')"
    using le AllocateImpl_shard [OF ready n le] b i by (simp add: shard_alloc_def shard_lo_def shard_hi_def not_less [symmetric])
qed

text \<open>Only the shard changes, and requests for multiples of 8 bytes stay aligned.\<close>

lemma serve_shard_frame:
  assumes "shard_ready i sb s" and "list_all (\<lambda>n. n \<le> sb div 4) ns"
    and "serve (shard_alloc A arena_free picked i func) ns s = Some (regs, s')"
  shows "map snd regs = map unat ns \<and> (\<exists>sh. s' = s\<lparr>shards := (shards s)[i := sh]\<rparr>) \<and>
    (8 dvd shard_lo i s \<longrightarrow> list_all (\<lambda>(b, n). 8 dvd n \<longrightarrow> 8 dvd b) regs)"
  using assms
proof (induction ns arbitrary: s regs)
  case Nil
  then have "s' = s\<lparr>shards := (shards s)[i := shards s ! i]\<rparr>" and "regs = []" by simp_all
  then show ?case by (auto simp del: list_update_id)
next
  case (Cons n ns)
  from Cons.prems(3) obtain reg s1 regs1 where r: "shard_alloc A arena_free picked i func n s = Some (reg, s1)"
    "serve (shard_alloc A arena_free picked i func) ns s1 = Some (regs1, s')" "regs = reg # regs1"
    by (auto split: option.splits prod.splits)
  from Cons.prems(2) have n: "n \<le> sb div 4" and ns: "list_all (\<lambda>n. n \<le> sb div 4) ns" by simp_all
  note step = shard_alloc_Some [OF Cons.prems(1) n r(1)]
  have "shard_ready i sb s1" unfolding step(3) by (rule shard_ready_taken [OF Cons.prems(1) step(1)])
  note IH = Cons.IH [OF this ns r(2)]
  have i: "i < length (shards s)" and "unat (free_begin (shards s ! i)) + unat (allocated_and_unused (shards s ! i)) < 2 ^ 64"
    using Cons.prems(1) by (simp_all add: shard_ready_def)
  note b = taken_bounds [OF this(2) step(1)]
  have m: "n mod 8 = 0 \<longleftrightarrow> 8 dvd unat n" by (rule mod_8_unat)
  have "8 dvd shard_lo i s1 \<and> (8 dvd unat n \<longrightarrow> 8 dvd fst reg)" if "8 dvd shard_lo i s"
    using that b(2,3) m i by (simp add: step(2,3) shard_lo_def)
  moreover from IH have "\<exists>sh. s' = s\<lparr>shards := (shards s)[i := sh]\<rparr>" unfolding step(3) by auto
  moreover have "map snd regs1 = map unat ns" "8 dvd shard_lo i s1 \<longrightarrow> list_all (\<lambda>(b, n). 8 dvd n \<longrightarrow> 8 dvd b) regs1"
    using IH by blast+
  ultimately show ?case unfolding r(3) step(2) by simp
qed

section \<open>Properties\<close>

text \<open>C16: A shard serves every sequence of small requests that fits into its unused bytes, whatever the state of the
  arena's lock: each request is granted without touching the arena, the regions have the requested sizes,
  lie in the unused part of the shard and do not overlap, those for multiples of 8 bytes stay aligned to
  8 bytes, and no other shard and no counter changes.\<close>

theorem shard_serves_disjoint_regions:
  assumes "shard_ready i sb s" and "list_all (\<lambda>n. n \<le> sb div 4) ns"
    and "sum_list (map unat ns) \<le> unat (allocated_and_unused (shards s ! i))" and "8 dvd unat (free_begin (shards s ! i))"
  shows "\<exists>regs s'. serve (shard_alloc A arena_free picked i func) ns s = Some (regs, s') \<and> map snd regs = map unat ns \<and>
    sorted_wrt apart regs \<and> list_all (\<lambda>(b, n). shard_lo i s \<le> b \<and> b + n \<le> shard_hi i s) regs \<and>
    list_all (\<lambda>(b, n). 8 dvd n \<longrightarrow> 8 dvd b) regs \<and> (\<exists>sh. s' = s\<lparr>shards := (shards s)[i := sh]\<rparr>)"
proof -
  from shard.serve_total [OF assms(1,2), of A arena_free picked func] assms(3) obtain regs s' where
    run: "serve (shard_alloc A arena_free picked i func) ns s = Some (regs, s')"
    by (auto simp: shard_lo_def shard_hi_def)
  from shard.serve_inside [OF assms(1,2) run] shard.serve_apart [OF assms(1,2) run]
    serve_shard_frame [OF assms(1,2) run] run assms(4) show ?thesis
    by (auto simp: list_all_iff shard_lo_def)
qed

definition no_arena :: "unit rocks_arena" where
  "no_arena = \<lparr>ra_AllocateAligned = (\<lambda>a n. (65536, ())), ra_AllocatedAndUnused = (\<lambda>a. 0), ra_MemoryAllocatedBytes = (\<lambda>a. 0),
     ra_IrregularBlockNum = (\<lambda>a. 0), ra_IsInInlineBlock = (\<lambda>a. False)\<rparr>"

definition demo_carena :: "Shard list \<Rightarrow> unit ConcurrentNVMArena" where
  "demo_carena ss = \<lparr>hugetlb_size = 0, shard_block_size = 1024, shards = ss, inner_arena = (), arena_allocated_and_unused = 0,
     memory_allocated_bytes = 0, arena_irregular_block_num = 0, c_kBlockSize = 8192, c_irregular_block_num = 0,
     c_unaligned_alloc_ptr = 0, c_aligned_alloc_ptr = 0, c_alloc_ptr = 0, c_alloc_bytes_remaining = 0, c_blocks = [],
     c_blocks_memory = 0, c_tracked = None, tls_cpuid = 1\<rparr>"

definition demo_shards :: "u64 \<Rightarrow> Shard list" where
  "demo_shards n = [\<lparr>free_begin = 0, allocated_and_unused = 0\<rparr>, \<lparr>free_begin = 4096, allocated_and_unused = n\<rparr>]"

lemma demo_carena_ready: "unat n < 2 ^ 60 \<Longrightarrow> shard_ready 1 1024 (demo_carena (demo_shards n))"
  by (simp add: shard_ready_def demo_carena_def demo_shards_def)

theorem shard_serves_disjoint_regions_witness:
  "\<exists>regs s'. serve (shard_alloc no_arena True 0 1 (dieC Diverges)) [16, 5, 8] (demo_carena (demo_shards 100)) = Some (regs, s') \<and>
    map snd regs = [16, 5, 8] \<and> sorted_wrt apart regs"
  using shard_serves_disjoint_regions [OF demo_carena_ready, of 100 "[16, 5, 8]" no_arena True 0 "dieC Diverges"]
  by (auto simp: demo_carena_def demo_shards_def)

text \<open>A shard that cannot serve a request is reloaded: with the counter of the arena's unused bytes up to date, the
  shard gets a block from the arena, of the arena's unused size when that is within a factor of two of the
  shard block size and of the shard block size otherwise; the request is served from that block, the rest
  of the block is the shard's new unused space, and the counters mirror the arena again.\<close>

theorem shard_reload_serves_request:
  assumes "shard_ready i sb s" and "n \<le> sb div 4" and "allocated_and_unused (shards s ! i) < n"
    and "arena_allocated_and_unused s = ra_AllocatedAndUnused A (inner_arena s)" and "\<not> ra_IsInInlineBlock A (inner_arena s)"
    and "avail = (if ra_AllocatedAndUnused A (inner_arena s) \<ge> sb div 2 \<and> ra_AllocatedAndUnused A (inner_arena s) < sb * 2
      then ra_AllocatedAndUnused A (inner_arena s) else sb)"
    and "ra_AllocateAligned A (inner_arena s) avail = (b, a')" and "unat b + unat avail < 2 ^ 64"
  shows "\<exists>r s'. AllocateImpl A arena_free True picked n False func s = (Val r, s') \<and> shard_ready i sb s' \<and>
    unat b \<le> unat r \<and> unat r + unat n \<le> unat b + unat avail \<and>
    shard_hi i s' - shard_lo i s' = unat avail - unat n \<and> (unat r + unat n \<le> shard_lo i s' \<or> shard_hi i s' \<le> unat r) \<and>
    inner_arena s' = a' \<and> arena_allocated_and_unused s' = ra_AllocatedAndUnused A a'"
proof -
  let ?sh = "(shards s ! i)\<lparr>free_begin := b, allocated_and_unused := avail\<rparr>"
  let ?s = "s\<lparr>inner_arena := a', shards := (shards s)[i := taken n ?sh], arena_allocated_and_unused := ra_AllocatedAndUnused A a',
    memory_allocated_bytes := ra_MemoryAllocatedBytes A a', arena_irregular_block_num := ra_IrregularBlockNum A a'\<rparr>"
  have i: "i < length (shards s)" using assms(1) by (simp add: shard_ready_def)
  have half: "sb div 4 \<le> sb div 2" "sb div 4 \<le> sb" by (simp_all add: word_le_nat_alt unat_div)
  then have le: "n \<le> avail" using assms(2,6) by (auto split: if_splits)
  have run: "AllocateImpl A arena_free True picked n False func s = (Val (taken_at n ?sh), ?s)"
    unfolding AllocateImpl_reload [OF assms(1-3)]
    using assms(5,7) i
    by (simp add: shard_reload_def getC_def modC_def assertC_def shard_mod_def Fixup_def exec_simps assms(4)
        shard_take_run flip: assms(6)) (simp add: Let_def)
  have "unat (free_begin ?sh) + unat (allocated_and_unused ?sh) < 2 ^ 64" using assms(8) by simp
  note b = taken_bounds [OF this, of n] le
  have "shard_ready i sb ?s" using assms(1,8) b i by (auto simp: shard_ready_def)
  then show ?thesis using run b i by (auto simp: shard_lo_def shard_hi_def)
qed

theorem shard_reload_serves_request_witness:
  "\<exists>r s'. AllocateImpl no_arena True True 0 16 False (dieC Diverges) (demo_carena (demo_shards 0)) = (Val r, s') \<and>
    shard_ready 1 1024 s' \<and> 65536 \<le> unat r \<and> unat r + 16 \<le> 65536 + 1024"
  using shard_reload_serves_request [OF demo_carena_ready, of 0 16 no_arena 1024 65536 "()" True 0 "dieC Diverges"]
  by (auto simp: demo_carena_def demo_shards_def no_arena_def)

text \<open>Where huge pages are supported but not configured, the fallback of \<open>Allocate\<close> allocates nothing: it takes a
  block of size 0 at the null pointer, so a small request returns the address \<open>2 ^ 64 - bytes\<close>, and the
  count of remaining bytes wraps around to the same value, after which further requests are granted from
  there as well.\<close>

theorem hugepage_fallback_returns_wild_pointer:
  assumes "hugetlb_size s = 0" and "c_alloc_bytes_remaining s = 0" and "0 < n" and "n \<le> c_kBlockSize s div 4"
  shows "\<exists>s'. c_Allocate (c_AllocateFallback True from_huge_page new_block) n s = (Val (- n), s') \<and>
    c_blocks s' = c_blocks s \<and> unat (c_alloc_bytes_remaining s') = 2 ^ 64 - unat n \<and> unat (- n) = 2 ^ 64 - unat n"
proof -
  have "unat n \<noteq> 0" using assms(3) by (simp add: word_greater_zero_iff unsigned_eq_0_iff)
  then have "unat (- n) = 2 ^ 64 - unat n" using unat_sub_if' [of 0 n] unat_u64_less [of n] by simp
  with assms show ?thesis
    by (simp add: c_Allocate_def c_AllocateFallback_def assertC_def getC_def modC_def exec_simps not_less [symmetric])
qed

theorem hugepage_fallback_returns_wild_pointer_witness:
  "\<exists>s'. c_Allocate (c_AllocateFallback True (\<lambda>n. dieC Diverges) (\<lambda>n. dieC Diverges)) 100 (demo_carena []) = (Val (- 100), s') \<and>
    c_blocks s' = [] \<and> unat (c_alloc_bytes_remaining s') = 2 ^ 64 - 100"
  using hugepage_fallback_returns_wild_pointer [of "demo_carena []" 100 "\<lambda>n. dieC Diverges" "\<lambda>n. dieC Diverges"]
  by (auto simp: demo_carena_def)

text \<open>The constructor does not call \<open>Fixup\<close>: while the counter holds another value than the arena's, the first
  reload of a shard fails its assertion.\<close>

theorem stale_counter_asserts:
  assumes "shard_ready i sb s" and "n \<le> sb div 4" and "allocated_and_unused (shards s ! i) < n"
    and "arena_allocated_and_unused s \<noteq> ra_AllocatedAndUnused A (inner_arena s)"
  shows "AllocateImpl A arena_free True picked n False func s = (Die Assert_failed, s)"
  unfolding AllocateImpl_reload [OF assms(1-3)]
  using assms(4) by (simp add: shard_reload_def getC_def assertC_def exec_simps)

end
