(* ===== verification/Pstl_Hash_Map.thy ===== *)
theory Pstl_Hash_Map
  imports Pmem_Hash_Map
begin

unbundle bit_operations_syntax

text \<open>
  \<open>persistent_hash_map.h\<close> and \<open>persistent_hash_map.cpp\<close> (a map in the style of Java's \<open>HashMap\<close>, of which
  the sizing of the table, the spreading of hash codes and the nodes exist), and the bit utility of
  \<open>ex_common.h\<close>. The Java operator \<open>>>>\<close> in the source is the logical shift. \<open>MAXIMUM_CAPACITY\<close>, which
  the source does not declare, is an argument. \<open>get\<close>, \<open>put\<close> and \<open>hashCode\<close> of a node end
  without returning a value, which is a fault here.
\<close>

section \<open>Sizing and hashing\<close>

definition DEFAULT_INITIAL_CAPACITY :: u32 where
  "DEFAULT_INITIAL_CAPACITY = push_bit 4 1"

definition smear :: "nat \<Rightarrow> u32 \<Rightarrow> u32" where
  "smear k n = n OR drop_bit k n"

definition tableSizeFor :: "u32 \<Rightarrow> u32 \<Rightarrow> u32" where
  "tableSizeFor MAXIMUM_CAPACITY cap =
     (let n = cap - 1;
          n = smear 1 n;
          n = smear 2 n;
          n = smear 4 n;
          n = smear 8 n;
          n = smear 16 n in
      if n <s 0 then 1 else if MAXIMUM_CAPACITY \<le>s n then MAXIMUM_CAPACITY else n + 1)"

text \<open>\<open>hash(key)\<close>: \<open>None\<close> is the null key, otherwise the argument is its \<open>hashCode()\<close>.\<close>

definition spread_hash :: "u64 option \<Rightarrow> u64" where
  "spread_hash key = (case key of None \<Rightarrow> 0 | Some h \<Rightarrow> h XOR drop_bit 32 h)"

record PersistentHashMap =
  phm_threshold :: u32
  phm_loadFactor :: float32

definition PersistentHashMap_ctor :: "u32 \<Rightarrow> u32 \<Rightarrow> float32 \<Rightarrow> PersistentHashMap" where
  "PersistentHashMap_ctor MAXIMUM_CAPACITY initialCapacity lf =
     \<lparr>phm_threshold = tableSizeFor MAXIMUM_CAPACITY initialCapacity, phm_loadFactor = lf\<rparr>"

record ('k, 'v) hm_Node =
  node_hash :: u64
  node_key :: 'k
  node_value :: 'v
  node_next :: nat

definition Node_ctor :: "u64 \<Rightarrow> 'k \<Rightarrow> 'v \<Rightarrow> nat \<Rightarrow> ('k, 'v) hm_Node" where
  "Node_ctor h k v nx = \<lparr>node_hash = h, node_key = k, node_value = v, node_next = nx\<rparr>"

definition setValue :: "'v \<Rightarrow> (('k, 'v) hm_Node, 'v) cpp" where
  "setValue newVal = bindC (getC node_value) (\<lambda>oldVal. thenC (modC (\<lambda>nd. nd\<lparr>node_value := newVal\<rparr>)) (returnC oldVal))"

text \<open>\<open>equals\<close>: \<open>same\<close> says whether the two pointers are equal; the equality of keys and values is theirs.\<close>

definition node_equals ::
  "('k \<Rightarrow> 'k \<Rightarrow> bool) \<Rightarrow> ('v \<Rightarrow> 'v \<Rightarrow> bool) \<Rightarrow> bool \<Rightarrow> ('k, 'v) hm_Node \<Rightarrow> ('k, 'v) hm_Node \<Rightarrow> bool" where
  "node_equals key_equals value_equals same this ob =
     (if same then True
      else key_equals (node_key this) (node_key ob) \<and> value_equals (node_value this) (node_value ob))"

definition getKey :: "('k, 'v) hm_Node \<Rightarrow> 'k" where
  "getKey this = node_key this"

definition getValue :: "('k, 'v) hm_Node \<Rightarrow> 'v" where
  "getValue this = node_value this"

text \<open>
  \<open>hashCode\<close> computes the hash and does not return it; \<open>get\<close> is empty and \<open>put\<close> ends after hashing the key. A function
  with a result type that ends without \<open>return\<close> is undefined, a fault here.
\<close>

definition node_hashCode :: "('k \<Rightarrow> u64) \<Rightarrow> ('v \<Rightarrow> u64) \<Rightarrow> ('k, 'v) hm_Node \<Rightarrow> u64 outcome" where
  "node_hashCode key_hash value_hash this =
     (let unused = key_hash (node_key this) XOR value_hash (node_value this) in Die Contract_broken)"

definition phm_get :: "PersistentHashMap \<Rightarrow> 'k \<Rightarrow> 'v outcome" where
  "phm_get this key = Die Contract_broken"

definition phm_put :: "('k \<Rightarrow> u64) \<Rightarrow> PersistentHashMap \<Rightarrow> 'k \<Rightarrow> 'v \<Rightarrow> 'v outcome" where
  "phm_put key_hash this key value = (let unused = spread_hash (Some (key_hash key)) in Die Contract_broken)"

text \<open>\<open>__builtin_clzll\<close> is undefined at 0.\<close>

definition clzll :: "u64 \<Rightarrow> int outcome" where
  "clzll v = (if v = 0 then Die Contract_broken else Val (64 - int (bit_length (unat v))))"

definition find_last_set_64 :: "u64 \<Rightarrow> int outcome" where
  "find_last_set_64 val = bindO (clzll val) (\<lambda>z. Val (64 - z - 1))"

text \<open>The variant for Windows: \<open>BitScanReverse64\<close> stores the position of the highest set bit and says whether there is one.\<close>

definition BitScanReverse64 :: "u64 \<Rightarrow> bool \<times> u32" where
  "BitScanReverse64 v = (if v = 0 then (False, 0) else (True, of_nat (bit_length (unat v) - 1)))"

definition find_last_set_64_windows :: "u64 \<Rightarrow> int outcome" where
  "find_last_set_64_windows val = (let (found, lz) = BitScanReverse64 val in if found then Val (sint lz) else Val (- 1))"

definition MIN_u64 :: "u64 \<Rightarrow> u64 \<Rightarrow> u64" where
  "MIN_u64 a b = (if a < b then a else b)"

section \<open>Powers of two\<close>

lemma smear_bit:
  assumes "\<And>i. bit m i \<longleftrightarrow> (\<exists>j < k. bit n (i + j))"
  shows "bit (smear k m) i \<longleftrightarrow> (\<exists>j < 2 * k. bit n (i + j))"
proof -
  have "bit (smear k m) i \<longleftrightarrow> (\<exists>j < k. bit n (i + j)) \<or> (\<exists>j < k. bit n (i + k + j))"
    by (simp add: smear_def bit_or_iff bit_drop_bit_eq assms ac_simps)
  also have "\<dots> \<longleftrightarrow> (\<exists>j < 2 * k. bit n (i + j))"
  proof
    assume "\<exists>j < 2 * k. bit n (i + j)"
    then obtain j where j: "j < 2 * k" "bit n (i + j)" by blast
    show "(\<exists>j < k. bit n (i + j)) \<or> (\<exists>j < k. bit n (i + k + j))"
    proof (cases "j < k")
      case False
      with j have "j - k < k" "bit n (i + k + (j - k))" by simp_all
      then show ?thesis by blast
    qed (use j in blast)
  next
    assume "(\<exists>j < k. bit n (i + j)) \<or> (\<exists>j < k. bit n (i + k + j))"
    then show "\<exists>j < 2 * k. bit n (i + j)"
    proof
      assume "\<exists>j < k. bit n (i + j)"
      then obtain j where "j < k" "bit n (i + j)" by blast
      then have "j < 2 * k \<and> bit n (i + j)" by simp
      then show ?thesis by blast
    next
      assume "\<exists>j < k. bit n (i + k + j)"
      then obtain j where "k + j < 2 * k" "bit n (i + (k + j))" by (auto simp: add.assoc)
      then show ?thesis by blast
    qed
  qed
  finally show ?thesis .
qed

lemma smeared_bit:
  "bit (smear 16 (smear 8 (smear 4 (smear 2 (smear 1 n))))) i \<longleftrightarrow> (\<exists>j < 32. bit n (i + j))"
proof -
  have 0: "bit n i \<longleftrightarrow> (\<exists>j < 1. bit n (i + j))" for i by simp
  note 1 = smear_bit [OF 0, simplified mult_1_right]
  note 2 = smear_bit [OF 1] note 4 = smear_bit [OF 2 [simplified]] note 8 = smear_bit [OF 4 [simplified]]
  note 16 = smear_bit [OF 8 [simplified]]
  show ?thesis using 16 by simp
qed

lemma bit_length_upper: "m < 2 ^ bit_length m"
proof (induction m rule: bit_length.induct)
  case (1 m)
  then show ?case by (cases "m = 0") (auto simp: bit_length.simps [of m])
qed

lemma bit_length_lower: "m \<noteq> 0 \<Longrightarrow> 2 ^ (bit_length m - 1) \<le> m"
proof (induction m rule: bit_length.induct)
  case (1 m)
  show ?case
  proof (cases "m div 2 = 0")
    case True
    with 1(2) show ?thesis by (simp add: bit_length.simps [of m] bit_length.simps [of 0])
  next
    case False
    with 1 have "2 ^ (bit_length (m div 2) - 1) \<le> m div 2" by simp
    moreover from False have "bit_length (m div 2) = Suc (bit_length (m div 2) - 1)" by (simp add: bit_length.simps [of "m div 2"])
    ultimately have "2 ^ bit_length (m div 2) \<le> 2 * (m div 2)" by (metis power_Suc mult_le_mono2)
    then show ?thesis using 1(2) by (simp add: bit_length.simps [of m])
  qed
qed

lemma bit_length_pos: "m \<noteq> 0 \<Longrightarrow> 0 < bit_length m"
  by (simp add: bit_length.simps [of m])

lemma top_bit: "m \<noteq> 0 \<Longrightarrow> bit m (bit_length m - 1)"
proof -
  assume m: "m \<noteq> 0"
  have "m < 2 * 2 ^ (bit_length m - 1)" using bit_length_upper [of m] bit_length_pos [OF m]
    by (simp flip: power_Suc)
  with bit_length_lower [OF m] have "m div 2 ^ (bit_length m - 1) = 1"
    by (simp add: div_nat_eqI)
  then show ?thesis by (simp add: bit_iff_odd)
qed

lemma smeared_mask:
  "smear 16 (smear 8 (smear 4 (smear 2 (smear 1 n)))) = mask (bit_length (unat n))"
proof (rule bit_eqI)
  fix i
  let ?L = "bit_length (unat n)"
  have L: "?L \<le> 32" using bit_length_le [of "unat n" 32] unsigned_less [of n, where ?'a = nat] by simp
  have "(\<exists>j < 32. bit n (i + j)) \<longleftrightarrow> i < ?L"
  proof
    assume "\<exists>j < 32. bit n (i + j)"
    then obtain j where "bit (unat n) (i + j)" by (auto simp: bit_unsigned_iff)
    then have "2 ^ (i + j) \<le> unat n" by (cases "unat n < 2 ^ (i + j)") (simp_all add: bit_iff_odd)
    then have "(2 :: nat) ^ (i + j) < 2 ^ ?L" using bit_length_upper [of "unat n"] by (rule le_less_trans)
    then show "i < ?L" by simp
  next
    assume i: "i < ?L"
    then have "unat n \<noteq> 0" by (cases "unat n = 0") (simp_all add: bit_length.simps [of 0])
    then have "bit n (i + (?L - 1 - i))" using top_bit [of "unat n"] i by (simp add: bit_unsigned_iff)
    moreover have "?L - 1 - i < 32" using L i by simp
    ultimately show "\<exists>j < 32. bit n (i + j)" by blast
  qed
  moreover have "bit (mask ?L :: u32) i \<longleftrightarrow> i < ?L" using L by (auto simp: bit_mask_iff)
  ultimately show "bit (smear 16 (smear 8 (smear 4 (smear 2 (smear 1 n))))) i \<longleftrightarrow> bit (mask ?L :: u32) i"
    unfolding smeared_bit by blast
qed

lemma sint_small:
  fixes w :: u32
  assumes "unat w < 2 ^ 31"
  shows "sint w = int (unat w)"
proof -
  have "int (unat w) < int (2 ^ 31)" using assms by (simp only: of_nat_less_iff)
  then have "uint w < 2 ^ 31" by simp
  moreover have "- (2 ^ 31) \<le> uint w" by (rule order_trans [OF _ unsigned_greater_eq]) simp
  ultimately have "signed_take_bit 31 (uint w) = uint w" by (intro signed_take_bit_int_eq_self)
  then show ?thesis by (simp add: sint_uint)
qed

lemma unat_mask_u32: "L \<le> 32 \<Longrightarrow> unat (mask L :: u32) = 2 ^ L - 1"
proof -
  assume L: "L \<le> 32"
  have "unat (mask L :: u32) = take_bit 32 (mask L)"
    using unat_of_nat [of "mask L :: nat", where ?'a = 32] by (simp add: of_nat_mask_eq take_bit_eq_mod)
  also have "\<dots> = mask L" using L by (simp add: min_def)
  finally show ?thesis by (simp only: mask_eq_exp_minus_1)
qed

section \<open>Properties\<close>

text \<open>\<open>tableSizeFor\<close> returns, for every positive capacity up to the maximum (itself a power of two below
  \<open>2 ^ 31\<close>), the least power of two that is not below it, and the maximum for every larger capacity.\<close>

theorem table_size_is_least_power_of_two:
  assumes "k \<le> 30" and "0 < unat cap" and "unat cap < 2 ^ 31"
  shows "if unat cap \<le> 2 ^ k
    then \<exists>e. unat (tableSizeFor (2 ^ k) cap) = 2 ^ e \<and> unat cap \<le> 2 ^ e \<and> 2 ^ e < 2 * unat cap
    else tableSizeFor (2 ^ k) cap = 2 ^ k"
proof -
  let ?n = "unat cap - 1" and ?M = "2 ^ k :: u32"
  let ?L = "bit_length ?n"
  have n: "unat (cap - 1) = ?n" using assms(2) unat_sub_no_wrap [of 1 cap] by (simp add: word_le_nat_alt)
  have L: "?L \<le> 31" using assms(3) by (intro bit_length_le) simp
  have k31: "(2 :: nat) ^ k < 2 ^ 31" using assms(1) by (intro power_strict_increasing) simp_all
  have M: "unat ?M = 2 ^ k" using unat_of_nat [of "2 ^ k", where ?'a = 32] k31 by simp
  have m: "unat (mask ?L :: u32) = 2 ^ ?L - 1" using L by (simp add: unat_mask_u32)
  have small: "(2 :: nat) ^ ?L \<le> 2 ^ 31" using L by (intro power_increasing) simp_all
  have neg: "\<not> (mask ?L :: u32) <s 0" using sint_small [of "mask ?L"] m small by (simp add: word_sless_alt)
  have "unat (mask ?L :: u32) < 2 ^ 31" using small by (simp only: m) simp
  moreover have "unat ?M < 2 ^ 31" using k31 by (simp only: M)
  ultimately have "?M \<le>s mask ?L \<longleftrightarrow> int (unat ?M) \<le> int (unat (mask ?L :: u32))"
    by (simp only: word_sle_eq sint_small)
  then have ge: "?M \<le>s mask ?L \<longleftrightarrow> 2 ^ k \<le> (2 :: nat) ^ ?L - 1" by (simp only: of_nat_le_iff m M)
  have run: "tableSizeFor ?M cap = (if 2 ^ k \<le> (2 :: nat) ^ ?L - 1 then ?M else mask ?L + 1)"
    by (simp only: tableSizeFor_def Let_def smeared_mask n neg ge if_False)
  have up: "?n < 2 ^ ?L" by (rule bit_length_upper)
  show ?thesis
  proof (cases "unat cap \<le> 2 ^ k")
    case True
    then have "?L \<le> k" using assms(2) by (intro bit_length_le) simp
    then have "(2 :: nat) ^ ?L \<le> 2 ^ k" by (intro power_increasing) simp_all
    moreover have "(0 :: nat) < 2 ^ ?L" by simp
    ultimately have "\<not> 2 ^ k \<le> (2 :: nat) ^ ?L - 1" by linarith
    then have r: "tableSizeFor ?M cap = mask ?L + 1" by (simp only: run if_False)
    have "unat (mask ?L + 1 :: u32) = 2 ^ ?L" using m small by (subst unat_add_no_wrap) simp_all
    moreover have "unat cap \<le> 2 ^ ?L" using up by simp
    moreover have "2 ^ ?L < 2 * unat cap"
    proof (cases "?n = 0")
      case True then show ?thesis using assms(2) by (simp add: bit_length.simps)
    next
      case False
      then have "2 ^ ?L = 2 * (2 :: nat) ^ (?L - 1)" using bit_length_pos [OF False] by (simp flip: power_Suc)
      also have "\<dots> \<le> 2 * ?n" using bit_length_lower [OF False] by simp
      finally show ?thesis using assms(2) by simp
    qed
    ultimately show ?thesis using True r by auto
  next
    case False
    then have "2 ^ k \<le> (2 :: nat) ^ ?L - 1" using up by simp
    then show ?thesis using False run by simp
  qed
qed

theorem table_size_is_least_power_of_two_witness:
  "\<exists>e. unat (tableSizeFor (2 ^ 30) 100) = 2 ^ e \<and> 100 \<le> (2 :: nat) ^ e \<and> 2 ^ e < (200 :: nat)"
  using table_size_is_least_power_of_two [of 30 100] by simp

text \<open>Spreading the high bits of a hash code loses nothing: applying it twice gives the code back, so two keys
  collide after it only if their hash codes are equal.\<close>

theorem spread_hash_involution:
  "spread_hash (Some (spread_hash (Some h))) = h"
proof (rule bit_eqI)
  fix i
  show "bit (spread_hash (Some (spread_hash (Some h)))) i \<longleftrightarrow> bit h i"
  proof (cases "i + 32 < 64")
    case False
    then have "\<not> bit h (32 + i)" "\<not> bit h (32 + (32 + i))" using bit_imp_le_length [of h] by force+
    then show ?thesis by (simp add: spread_hash_def bit_xor_iff bit_drop_bit_eq)
  next
    case True
    then have "\<not> bit h (32 + (32 + i))" using bit_imp_le_length [of h] by force
    then show ?thesis by (auto simp: spread_hash_def bit_xor_iff bit_drop_bit_eq)
  qed
qed

text \<open>\<open>find_last_set_64\<close> returns the position of the highest set bit; for 0, where its comment promises \<open>-1\<close>, it
  calls \<open>__builtin_clzll(0)\<close>, which is undefined.\<close>

theorem find_last_set_position:
  "(if v = 0 then find_last_set_64 v = Die Contract_broken
    else \<exists>p. find_last_set_64 v = Val (int p) \<and> bit v p \<and> unat v < 2 ^ Suc p)"
proof (cases "v = 0")
  case False
  let ?L = "bit_length (unat v)"
  have v: "unat v \<noteq> 0" using False by (simp add: unsigned_eq_0_iff)
  have "bit v (?L - 1)" using top_bit [OF v] by (simp add: bit_unsigned_iff)
  moreover have "unat v < 2 ^ Suc (?L - 1)" using bit_length_upper [of "unat v"] bit_length_pos [OF v] by simp
  moreover have "find_last_set_64 v = Val (int (?L - 1))"
    using False bit_length_pos [OF v] by (simp add: find_last_set_64_def clzll_def)
  ultimately show ?thesis using False by auto
qed (simp add: find_last_set_64_def clzll_def)

text \<open>The two variants of \<open>find_last_set_64\<close> agree on every argument but 0, where only the one for Windows gives \<open>-1\<close>.\<close>

theorem find_last_set_variants:
  "find_last_set_64_windows v = (if v = 0 then Val (- 1) else find_last_set_64 v)"
proof (cases "v = 0")
  case False
  then have v: "unat v \<noteq> 0" by (simp add: unsigned_eq_0_iff)
  have "bit_length (unat v) \<le> 64" by (rule bit_length_le) (use unsigned_less [of v] in simp)
  then have small: "bit_length (unat v) - 1 < 2 ^ 31" by (rule le_less_trans [OF diff_le_self le_less_trans]) simp
  then have "sint (of_nat (bit_length (unat v) - 1) :: u32) = int (bit_length (unat v) - 1)"
    by (simp add: signed_of_nat signed_take_bit_int_eq_self_iff)
  moreover have "0 < bit_length (unat v)" using bit_length_pos [OF v] .
  ultimately show ?thesis using False
    by (simp add: find_last_set_64_windows_def find_last_set_64_def BitScanReverse64_def clzll_def of_nat_diff)
qed (simp add: find_last_set_64_windows_def BitScanReverse64_def)

end
