(* ===== verification/Pext.thy ===== *)
theory Pext
  imports Pmem_Cpp
begin

unbundle bit_operations_syntax

text \<open>
  \<open>libpmemobj++/pext.hpp\<close>: the compound assignment operators of \<open>p<T>\<close>, each built on \<open>p<T>::get_rw\<close>,
  which registers the member with the transaction and returns a reference to it. The operators are
  modelled for unsigned \<open>T\<close> of at least 32 bits, as the sources use them; the \<open>p<Y>\<close> operand is read
  with \<open>get_ro\<close>. A shift by the width or more, a division and a remainder by zero are undefined in C++
  and end the run.
\<close>

section \<open>Read-modify-write of a persistent member\<close>

definition p_update ::
  "'o libpmemobj \<Rightarrow> nat \<Rightarrow> ('o \<Rightarrow> 'f option) \<Rightarrow> ('f \<Rightarrow> 'o \<Rightarrow> 'o) \<Rightarrow> ('f \<Rightarrow> 'f outcome) \<Rightarrow> ('v, 'o, unit) pcpp" where
  "p_update L a g s f =
     thenC (conditional_add_to_tx L a g s)
     (bindC (pread a g) (\<lambda>x. bindC (liftO (f x)) (\<lambda>y. pwrite_raw a g s y)))"

text \<open>Division, remainder and shifts with their undefined cases.\<close>

definition div_out :: "'a::len word \<Rightarrow> 'a word \<Rightarrow> 'a word outcome" where
  "div_out x y = (if y = 0 then Die Div_by_zero else Val (x div y))"

definition mod_out :: "'a::len word \<Rightarrow> 'a word \<Rightarrow> 'a word outcome" where
  "mod_out x y = (if y = 0 then Die Div_by_zero else Val (x mod y))"

definition shl_out :: "'a::len word \<Rightarrow> 'a word \<Rightarrow> 'a word outcome" where
  "shl_out x y = (if unat y \<ge> LENGTH('a) then Die Contract_broken else Val (push_bit (unat y) x))"

definition shr_out :: "'a::len word \<Rightarrow> 'a word \<Rightarrow> 'a word outcome" where
  "shr_out x y = (if unat y \<ge> LENGTH('a) then Die Contract_broken else Val (drop_bit (unat y) x))"

section \<open>The operators\<close>

type_synonym ('o, 'a) getter = "'o \<Rightarrow> 'a word option"
type_synonym ('o, 'a) setter = "'a word \<Rightarrow> 'o \<Rightarrow> 'o"

definition p_preinc :: "'o libpmemobj \<Rightarrow> nat \<Rightarrow> ('o, 'a::len) getter \<Rightarrow> ('o, 'a) setter \<Rightarrow> ('v, 'o, unit) pcpp" where
  "p_preinc L a g s = p_update L a g s (\<lambda>x. Val (x + 1))"

definition p_predec :: "'o libpmemobj \<Rightarrow> nat \<Rightarrow> ('o, 'a::len) getter \<Rightarrow> ('o, 'a) setter \<Rightarrow> ('v, 'o, unit) pcpp" where
  "p_predec L a g s = p_update L a g s (\<lambda>x. Val (x - 1))"

definition p_postinc :: "'o libpmemobj \<Rightarrow> nat \<Rightarrow> ('o, 'a::len) getter \<Rightarrow> ('o, 'a) setter \<Rightarrow> ('v, 'o, 'a word) pcpp" where
  "p_postinc L a g s = bindC (pread a g) (\<lambda>temp. thenC (p_preinc L a g s) (returnC temp))"

definition p_postdec :: "'o libpmemobj \<Rightarrow> nat \<Rightarrow> ('o, 'a::len) getter \<Rightarrow> ('o, 'a) setter \<Rightarrow> ('v, 'o, 'a word) pcpp" where
  "p_postdec L a g s = bindC (pread a g) (\<lambda>temp. thenC (p_predec L a g s) (returnC temp))"

text \<open>The operators with a plain right operand, and those with a \<open>p<Y>\<close>, which is member \<open>gb\<close> of \<open>b\<close>.\<close>

definition p_add_assign :: "'o libpmemobj \<Rightarrow> nat \<Rightarrow> ('o, 'a::len) getter \<Rightarrow> ('o, 'a) setter \<Rightarrow> 'a word \<Rightarrow> ('v, 'o, unit) pcpp" where
  "p_add_assign L a g s y = p_update L a g s (\<lambda>x. Val (x + y))"

definition p_sub_assign :: "'o libpmemobj \<Rightarrow> nat \<Rightarrow> ('o, 'a::len) getter \<Rightarrow> ('o, 'a) setter \<Rightarrow> 'a word \<Rightarrow> ('v, 'o, unit) pcpp" where
  "p_sub_assign L a g s y = p_update L a g s (\<lambda>x. Val (x - y))"

definition p_mul_assign :: "'o libpmemobj \<Rightarrow> nat \<Rightarrow> ('o, 'a::len) getter \<Rightarrow> ('o, 'a) setter \<Rightarrow> 'a word \<Rightarrow> ('v, 'o, unit) pcpp" where
  "p_mul_assign L a g s y = p_update L a g s (\<lambda>x. Val (x * y))"

definition p_div_assign :: "'o libpmemobj \<Rightarrow> nat \<Rightarrow> ('o, 'a::len) getter \<Rightarrow> ('o, 'a) setter \<Rightarrow> 'a word \<Rightarrow> ('v, 'o, unit) pcpp" where
  "p_div_assign L a g s y = p_update L a g s (\<lambda>x. div_out x y)"

definition p_mod_assign :: "'o libpmemobj \<Rightarrow> nat \<Rightarrow> ('o, 'a::len) getter \<Rightarrow> ('o, 'a) setter \<Rightarrow> 'a word \<Rightarrow> ('v, 'o, unit) pcpp" where
  "p_mod_assign L a g s y = p_update L a g s (\<lambda>x. mod_out x y)"

definition p_and_assign :: "'o libpmemobj \<Rightarrow> nat \<Rightarrow> ('o, 'a::len) getter \<Rightarrow> ('o, 'a) setter \<Rightarrow> 'a word \<Rightarrow> ('v, 'o, unit) pcpp" where
  "p_and_assign L a g s y = p_update L a g s (\<lambda>x. Val (x AND y))"

definition p_or_assign :: "'o libpmemobj \<Rightarrow> nat \<Rightarrow> ('o, 'a::len) getter \<Rightarrow> ('o, 'a) setter \<Rightarrow> 'a word \<Rightarrow> ('v, 'o, unit) pcpp" where
  "p_or_assign L a g s y = p_update L a g s (\<lambda>x. Val (x OR y))"

definition p_xor_assign :: "'o libpmemobj \<Rightarrow> nat \<Rightarrow> ('o, 'a::len) getter \<Rightarrow> ('o, 'a) setter \<Rightarrow> 'a word \<Rightarrow> ('v, 'o, unit) pcpp" where
  "p_xor_assign L a g s y = p_update L a g s (\<lambda>x. Val (x XOR y))"

definition p_shl_assign :: "'o libpmemobj \<Rightarrow> nat \<Rightarrow> ('o, 'a::len) getter \<Rightarrow> ('o, 'a) setter \<Rightarrow> 'a word \<Rightarrow> ('v, 'o, unit) pcpp" where
  "p_shl_assign L a g s y = p_update L a g s (\<lambda>x. shl_out x y)"

definition p_shr_assign :: "'o libpmemobj \<Rightarrow> nat \<Rightarrow> ('o, 'a::len) getter \<Rightarrow> ('o, 'a) setter \<Rightarrow> 'a word \<Rightarrow> ('v, 'o, unit) pcpp" where
  "p_shr_assign L a g s y = p_update L a g s (\<lambda>x. shr_out x y)"

definition p_add_assign_p ::
  "'o libpmemobj \<Rightarrow> nat \<Rightarrow> ('o, 'a::len) getter \<Rightarrow> ('o, 'a) setter \<Rightarrow> nat \<Rightarrow> ('o, 'a) getter \<Rightarrow> ('v, 'o, unit) pcpp" where
  "p_add_assign_p L a g s b gb = bindC (pread b gb) (\<lambda>y. p_update L a g s (\<lambda>x. Val (x + y)))"

definition p_sub_assign_p ::
  "'o libpmemobj \<Rightarrow> nat \<Rightarrow> ('o, 'a::len) getter \<Rightarrow> ('o, 'a) setter \<Rightarrow> nat \<Rightarrow> ('o, 'a) getter \<Rightarrow> ('v, 'o, unit) pcpp" where
  "p_sub_assign_p L a g s b gb = bindC (pread b gb) (\<lambda>y. p_update L a g s (\<lambda>x. Val (x - y)))"

definition p_mul_assign_p ::
  "'o libpmemobj \<Rightarrow> nat \<Rightarrow> ('o, 'a::len) getter \<Rightarrow> ('o, 'a) setter \<Rightarrow> nat \<Rightarrow> ('o, 'a) getter \<Rightarrow> ('v, 'o, unit) pcpp" where
  "p_mul_assign_p L a g s b gb = bindC (pread b gb) (\<lambda>y. p_update L a g s (\<lambda>x. Val (x * y)))"

definition p_div_assign_p ::
  "'o libpmemobj \<Rightarrow> nat \<Rightarrow> ('o, 'a::len) getter \<Rightarrow> ('o, 'a) setter \<Rightarrow> nat \<Rightarrow> ('o, 'a) getter \<Rightarrow> ('v, 'o, unit) pcpp" where
  "p_div_assign_p L a g s b gb = bindC (pread b gb) (\<lambda>y. p_update L a g s (\<lambda>x. div_out x y))"

definition p_mod_assign_p ::
  "'o libpmemobj \<Rightarrow> nat \<Rightarrow> ('o, 'a::len) getter \<Rightarrow> ('o, 'a) setter \<Rightarrow> nat \<Rightarrow> ('o, 'a) getter \<Rightarrow> ('v, 'o, unit) pcpp" where
  "p_mod_assign_p L a g s b gb = bindC (pread b gb) (\<lambda>y. p_update L a g s (\<lambda>x. mod_out x y))"

definition p_and_assign_p ::
  "'o libpmemobj \<Rightarrow> nat \<Rightarrow> ('o, 'a::len) getter \<Rightarrow> ('o, 'a) setter \<Rightarrow> nat \<Rightarrow> ('o, 'a) getter \<Rightarrow> ('v, 'o, unit) pcpp" where
  "p_and_assign_p L a g s b gb = bindC (pread b gb) (\<lambda>y. p_update L a g s (\<lambda>x. Val (x AND y)))"

definition p_or_assign_p ::
  "'o libpmemobj \<Rightarrow> nat \<Rightarrow> ('o, 'a::len) getter \<Rightarrow> ('o, 'a) setter \<Rightarrow> nat \<Rightarrow> ('o, 'a) getter \<Rightarrow> ('v, 'o, unit) pcpp" where
  "p_or_assign_p L a g s b gb = bindC (pread b gb) (\<lambda>y. p_update L a g s (\<lambda>x. Val (x OR y)))"

definition p_xor_assign_p ::
  "'o libpmemobj \<Rightarrow> nat \<Rightarrow> ('o, 'a::len) getter \<Rightarrow> ('o, 'a) setter \<Rightarrow> nat \<Rightarrow> ('o, 'a) getter \<Rightarrow> ('v, 'o, unit) pcpp" where
  "p_xor_assign_p L a g s b gb = bindC (pread b gb) (\<lambda>y. p_update L a g s (\<lambda>x. Val (x XOR y)))"

definition p_shl_assign_p ::
  "'o libpmemobj \<Rightarrow> nat \<Rightarrow> ('o, 'a::len) getter \<Rightarrow> ('o, 'a) setter \<Rightarrow> nat \<Rightarrow> ('o, 'a) getter \<Rightarrow> ('v, 'o, unit) pcpp" where
  "p_shl_assign_p L a g s b gb = bindC (pread b gb) (\<lambda>y. p_update L a g s (\<lambda>x. shl_out x y))"

definition p_shr_assign_p ::
  "'o libpmemobj \<Rightarrow> nat \<Rightarrow> ('o, 'a::len) getter \<Rightarrow> ('o, 'a) setter \<Rightarrow> nat \<Rightarrow> ('o, 'a) getter \<Rightarrow> ('v, 'o, unit) pcpp" where
  "p_shr_assign_p L a g s b gb = bindC (pread b gb) (\<lambda>y. p_update L a g s (\<lambda>x. shr_out x y))"

section \<open>A compound assignment is a snapshotting assignment of the computed value\<close>

lemma conditional_add_cases:
  assumes "heap p a = Some ob" and "g ob = Some old"
  shows "conditional_add_to_tx L a g s (v, p) =
    (if stage p \<noteq> TX_STAGE_WORK then (Val (), v, p)
     else if add_range_rc L p a = 0 then (Val (), v, p\<lparr>undo_log := Snapshot a (s old) # undo_log p\<rparr>)
     else (Throw Transaction_error, v, abort_pool (add_range_rc L p a) p))"
  using assms
  by (simp add: conditional_add_to_tx_def pmemobj_tx_stage_def bindC_def returnC_def throwC_def
      pmemobj_tx_add_range_direct_def Let_def)

lemma p_update_run:
  assumes "heap p a = Some ob" and "g ob = Some x"
  shows "p_update L a g s f (v, p) = (case f x of
      Val y \<Rightarrow> p_assign L a g s y (v, p)
    | Throw e \<Rightarrow> thenC (conditional_add_to_tx L a g s) (throwC e) (v, p)
    | Die e \<Rightarrow> thenC (conditional_add_to_tx L a g s) (dieC e) (v, p))"
  using assms
  by (cases "f x")
     (simp_all add: p_update_def p_assign_def exec_simps conditional_add_cases [where ob = ob and old = x] pread_def)

lemma p_update_dangling:
  assumes "Option.bind (heap p a) g = None"
  shows "p_update L a g s f (v, p) = (Die Null_deref, v, p)"
  using assms
  by (simp add: p_update_def conditional_add_to_tx_def pmemobj_tx_stage_def exec_simps
      pmemobj_tx_add_range_direct_def pread_def Let_def)

lemma p_update_alt:
  "p_update L a g s f = bindC (pread a g) (\<lambda>x. case f x of
      Val y \<Rightarrow> p_assign L a g s y
    | Throw e \<Rightarrow> thenC (conditional_add_to_tx L a g s) (throwC e)
    | Die e \<Rightarrow> thenC (conditional_add_to_tx L a g s) (dieC e))"
proof (rule ext)
  fix vp :: "'a \<times> 'b pool"
  obtain v p where vp: "vp = (v, p)" by (cases vp)
  show "p_update L a g s f vp = bindC (pread a g) (\<lambda>x. case f x of
      Val y \<Rightarrow> p_assign L a g s y
    | Throw e \<Rightarrow> thenC (conditional_add_to_tx L a g s) (throwC e)
    | Die e \<Rightarrow> thenC (conditional_add_to_tx L a g s) (dieC e)) vp"
  proof (cases "Option.bind (heap p a) g")
    case None
    then show ?thesis by (simp add: vp p_update_dangling bindC_def pread_def)
  next
    case (Some x)
    then obtain ob where "heap p a = Some ob" "g ob = Some x" by (cases "heap p a") auto
    then show ?thesis by (cases "f x") (simp_all add: vp p_update_run bindC_def pread_def)
  qed
qed

lemma tx_safe_p_update [tx_safe_intros]:
  assumes "field g s"
  shows "tx_safe A (p_update L a g s f)"
proof -
  have "tx_safe A (case f x of
      Val y \<Rightarrow> p_assign L a g s y
    | Throw e \<Rightarrow> thenC (conditional_add_to_tx L a g s) (throwC e)
    | Die e \<Rightarrow> thenC (conditional_add_to_tx L a g s) (dieC e))" for x
    by (cases "f x") (simp_all add: tx_safe_intros assms)
  then show ?thesis unfolding p_update_alt by (intro tx_safe_bindC tx_safe_pread)
qed

section \<open>Properties\<close>

datatype assign_op = Add | Sub | Mul | Div | Mod | BitAnd | BitOr | BitXor | Shl | Shr

fun op_value :: "assign_op \<Rightarrow> 'a::len word \<Rightarrow> 'a word \<Rightarrow> 'a word outcome" where
  "op_value Add x y = Val (x + y)"
| "op_value Sub x y = Val (x - y)"
| "op_value Mul x y = Val (x * y)"
| "op_value Div x y = (if y = 0 then Die Div_by_zero else Val (x div y))"
| "op_value Mod x y = (if y = 0 then Die Div_by_zero else Val (x mod y))"
| "op_value BitAnd x y = Val (x AND y)"
| "op_value BitOr x y = Val (x OR y)"
| "op_value BitXor x y = Val (x XOR y)"
| "op_value Shl x y = (if unat y \<ge> LENGTH('a) then Die Contract_broken else Val (push_bit (unat y) x))"
| "op_value Shr x y = (if unat y \<ge> LENGTH('a) then Die Contract_broken else Val (drop_bit (unat y) x))"

fun op_assign :: "assign_op \<Rightarrow> 'o libpmemobj \<Rightarrow> nat \<Rightarrow> ('o, 'a::len) getter \<Rightarrow> ('o, 'a) setter \<Rightarrow> 'a word \<Rightarrow> ('v, 'o, unit) pcpp" where
  "op_assign Add = p_add_assign" | "op_assign Sub = p_sub_assign" | "op_assign Mul = p_mul_assign"
| "op_assign Div = p_div_assign" | "op_assign Mod = p_mod_assign" | "op_assign BitAnd = p_and_assign"
| "op_assign BitOr = p_or_assign" | "op_assign BitXor = p_xor_assign" | "op_assign Shl = p_shl_assign"
| "op_assign Shr = p_shr_assign"

fun op_assign_p ::
  "assign_op \<Rightarrow> 'o libpmemobj \<Rightarrow> nat \<Rightarrow> ('o, 'a::len) getter \<Rightarrow> ('o, 'a) setter \<Rightarrow> nat \<Rightarrow> ('o, 'a) getter \<Rightarrow> ('v, 'o, unit) pcpp" where
  "op_assign_p Add = p_add_assign_p" | "op_assign_p Sub = p_sub_assign_p" | "op_assign_p Mul = p_mul_assign_p"
| "op_assign_p Div = p_div_assign_p" | "op_assign_p Mod = p_mod_assign_p" | "op_assign_p BitAnd = p_and_assign_p"
| "op_assign_p BitOr = p_or_assign_p" | "op_assign_p BitXor = p_xor_assign_p" | "op_assign_p Shl = p_shl_assign_p"
| "op_assign_p Shr = p_shr_assign_p"

lemmas assign_defs = p_add_assign_def p_sub_assign_def p_mul_assign_def p_div_assign_def p_mod_assign_def p_and_assign_def
  p_or_assign_def p_xor_assign_def p_shl_assign_def p_shr_assign_def

lemmas assign_p_defs = p_add_assign_p_def p_sub_assign_p_def p_mul_assign_p_def p_div_assign_p_def p_mod_assign_p_def
  p_and_assign_p_def p_or_assign_p_def p_xor_assign_p_def p_shl_assign_p_def p_shr_assign_p_def

lemma op_assign_update: "op_assign op L a g s y = p_update L a g s (\<lambda>x. op_value op x y)"
  by (cases op) (simp_all add: assign_defs div_out_def mod_out_def shl_out_def shr_out_def)

lemma op_assign_p_update: "op_assign_p op L a g s b gb = bindC (pread b gb) (\<lambda>y. op_assign op L a g s y)"
  by (cases op) (simp_all add: assign_defs assign_p_defs)

text \<open>Every compound assignment operator of \<open>p<T>\<close>, with a plain operand and with a \<open>p<Y>\<close> operand, stores the
  value of the operation on the old value and the operand, and nothing else changes; inside a transaction
  the old value is logged first, so that undoing the log restores it; a division by zero and a shift by the
  width of the type or more end the run instead.\<close>

theorem compound_assignment_applies_and_logs:
  assumes "heap p a = Some ob" and "g ob = Some x" and "field g s" and "stage p = TX_STAGE_WORK" and "add_range_rc L p a = 0"
    and "heap p b = Some ob'" and "gb ob' = Some y"
  shows "\<exists>r p'. op_assign op L a g s y (v, p) = (r, v, p') \<and> op_assign_p op L a g s b gb (v, p) = (r, v, p') \<and>
    rollback (undo_log p') (heap p') = rollback (undo_log p) (heap p) \<and>
    (case op_value op x y of
       Val z \<Rightarrow> r = Val () \<and> heap p' = (heap p)(a \<mapsto> s z ob) \<and> g (s z ob) = Some z
     | Throw e \<Rightarrow> False
     | Die e \<Rightarrow> r = Die e \<and> heap p' = heap p)"
proof -
  have b: "pread b gb (v, p) = (Val y, v, p)" using assms(6,7) by (rule pread_run)
  have f: "(heap p)(a \<mapsto> s x (s z ob)) = heap p" "(heap p)(a \<mapsto> s x ob) = heap p" "g (s z ob) = Some z" for z
    using assms(1-3) by (auto simp: field_def)
  have "\<exists>r p'. op_assign op L a g s y (v, p) = (r, v, p') \<and>
    rollback (undo_log p') (heap p') = rollback (undo_log p) (heap p) \<and>
    (case op_value op x y of
       Val z \<Rightarrow> r = Val () \<and> heap p' = (heap p)(a \<mapsto> s z ob) \<and> g (s z ob) = Some z
     | Throw e \<Rightarrow> False
     | Die e \<Rightarrow> r = Die e \<and> heap p' = heap p)"
  proof (cases "op_value op x y")
    case (Val z)
    then show ?thesis using assms f
      by (simp add: op_assign_update p_update_run p_assign_in_tx [where ob = ob and old = x] rollback_def)
  next
    case (Throw e)
    then show ?thesis by (cases op) (simp_all split: if_splits)
  next
    case (Die e)
    then show ?thesis using assms f
      by (simp add: op_assign_update p_update_run conditional_add_cases [where ob = ob and old = x] exec_simps rollback_def)
  qed
  then show ?thesis using b by (simp add: op_assign_p_update bindC_def)
qed

definition word_cells :: "u64 pool" where
  "word_cells = \<lparr>heap = [1 \<mapsto> 7, 2 \<mapsto> 0], stage = TX_STAGE_WORK, depth = 1, undo_log = [], freed = [], errnum = 0\<rparr>"

lemma field_word: "field Some (\<lambda>x _. x)"
  by (simp add: field_def)

theorem compound_assignment_applies_and_logs_witness:
  "\<exists>p'. op_assign Div healthy 1 Some (\<lambda>x _. x) 0 ((), word_cells) = (Die Div_by_zero, (), p') \<and> heap p' = heap word_cells"
  using compound_assignment_applies_and_logs [OF _ _ field_word, of word_cells 1 7 7 healthy 2 0 Some 0 Div "()"]
  by (auto simp: word_cells_def healthy_def)

end
