(* ===== verification/Persistent_Ptr.thy ===== *)
theory Persistent_Ptr
  imports Pext
begin

unbundle bit_operations_syntax

text \<open>
  \<open>libpmemobj++/persistent_ptr.hpp\<close> and \<open>detail/persistent_ptr_base.hpp\<close>, the fat pointer \<open>PMEMoid\<close> of
  \<open>libpmemobj/base.h\<close> and its inline \<open>pmemobj_direct\<close> with the per-thread cache of the last pool. A
  volatile pointer is a 64-bit word, a \<open>ptrdiff_t\<close> its two's complement, \<open>sizeof(T)\<close> the argument \<open>sz\<close>.
  \<open>pmemobj_pool_by_oid\<close> and \<open>pmemobj_oid\<close>, which are not inline, are arguments. The other theories use
  a persistent pointer only through its offset, which is what these operations give on one open pool.
\<close>

section \<open>Object handles\<close>

datatype PMEMoid = PMEMoid (pool_uuid_lo: u64) (off: u64)

definition OID_NULL :: PMEMoid where
  "OID_NULL = PMEMoid 0 0"

definition OID_IS_NULL :: "PMEMoid \<Rightarrow> bool" where
  "OID_IS_NULL oid \<longleftrightarrow> off oid = 0"

definition OID_EQUALS :: "PMEMoid \<Rightarrow> PMEMoid \<Rightarrow> bool" where
  "OID_EQUALS lhs rhs \<longleftrightarrow> off lhs = off rhs \<and> pool_uuid_lo lhs = pool_uuid_lo rhs"

record pcache =
  pc_pop :: u64
  pc_uuid_lo :: u64
  pc_invalidate :: u32

record direct_state =
  cached_pool :: pcache
  cache_invalidate :: u32

definition pmemobj_direct_inline :: "(PMEMoid \<Rightarrow> u64) \<Rightarrow> PMEMoid \<Rightarrow> (direct_state, u64) cpp" where
  "pmemobj_direct_inline pool_by_oid oid =
     (if off oid = 0 \<or> pool_uuid_lo oid = 0 then returnC 0
      else
        bindC (getC cache_invalidate) (\<lambda>inv.
        bindC (getC cached_pool) (\<lambda>c.
        if inv \<noteq> pc_invalidate c \<or> pc_uuid_lo c \<noteq> pool_uuid_lo oid
        then
          (let pop = pool_by_oid oid in
           if pop = 0
           then thenC (modC (\<lambda>s. s\<lparr>cached_pool := \<lparr>pc_pop = pop, pc_uuid_lo = 0, pc_invalidate = inv\<rparr>\<rparr>)) (returnC 0)
           else thenC (modC (\<lambda>s. s\<lparr>cached_pool := \<lparr>pc_pop = pop, pc_uuid_lo = pool_uuid_lo oid, pc_invalidate = inv\<rparr>\<rparr>))
                (returnC (pop + off oid)))
        else returnC (pc_pop c + off oid))))"

section \<open>Constructors and conversions\<close>

definition ptr_default :: PMEMoid where
  "ptr_default = OID_NULL"

definition ptr_from_oid :: "PMEMoid \<Rightarrow> PMEMoid" where
  "ptr_from_oid oid = oid"

definition ptr_from_volatile :: "(u64 \<Rightarrow> PMEMoid) \<Rightarrow> u64 \<Rightarrow> PMEMoid" where
  "ptr_from_volatile pmemobj_oid p = pmemobj_oid p"

text \<open>The converting constructors: \<open>d\<close> is \<open>calculate_offset<U>()\<close>, the offset of the base in the derived class.\<close>

definition ptr_convert :: "u64 \<Rightarrow> PMEMoid \<Rightarrow> PMEMoid" where
  "ptr_convert d r = PMEMoid (pool_uuid_lo r) (off r + d)"

text \<open>
  \<open>calculate_offset<U>()\<close> casts the address 0xDEADBEEF from \<open>U *\<close> to \<open>T *\<close> and takes the difference. A
  \<open>static_cast\<close> between classes maps null to null and moves any other address by a constant.
\<close>

definition ptr_offset_magic :: u64 where
  "ptr_offset_magic = 0xDEADBEEF"

definition calculate_offset :: "(u64 \<Rightarrow> u64) \<Rightarrow> u64" where
  "calculate_offset cast = (let tmp = ptr_offset_magic; diff = cast tmp in diff - tmp)"

definition static_cast :: "u64 \<Rightarrow> u64 \<Rightarrow> u64" where
  "static_cast d a = (if a = 0 then 0 else a + d)"

lemma calculate_offset_static_cast [simp]: "calculate_offset (static_cast d) = d"
  by (simp add: calculate_offset_def static_cast_def ptr_offset_magic_def)

text \<open>
  The copy and move constructors, the explicit constructors from \<open>persistent_ptr<void>\<close>, the conversion operator
  to \<open>persistent_ptr_base<Y>\<close>, which leaves the offset alone, and the accessor \<open>raw\<close>.
\<close>

definition ptr_copy :: "PMEMoid \<Rightarrow> PMEMoid" where
  "ptr_copy r = r"

definition ptr_move :: "PMEMoid \<Rightarrow> PMEMoid" where
  "ptr_move r = r"

definition ptr_raw :: "PMEMoid \<Rightarrow> PMEMoid" where
  "ptr_raw oid = oid"

definition ptr_from_void :: "PMEMoid \<Rightarrow> PMEMoid" where
  "ptr_from_void rhs = ptr_from_oid (ptr_raw rhs)"

definition ptr_convert_operator :: "PMEMoid \<Rightarrow> PMEMoid" where
  "ptr_convert_operator oid = ptr_from_oid oid"

text \<open>The private constructor for pointers to volatile objects, used by \<open>pointer_to\<close>.\<close>

definition ptr_to_object :: "(u64 \<Rightarrow> PMEMoid) \<Rightarrow> u64 \<Rightarrow> PMEMoid" where
  "ptr_to_object pmemobj_oid vptr =
     (let oid = ptr_from_volatile pmemobj_oid vptr in
      if OID_IS_NULL oid then PMEMoid (- 1) vptr else oid)"

definition pointer_to :: "(u64 \<Rightarrow> PMEMoid) \<Rightarrow> u64 \<Rightarrow> PMEMoid" where
  "pointer_to pmemobj_oid ref = ptr_to_object pmemobj_oid ref"

section \<open>Access\<close>

definition ptr_get :: "(PMEMoid \<Rightarrow> u64) \<Rightarrow> PMEMoid \<Rightarrow> (direct_state, u64) cpp" where
  "ptr_get pool_by_oid oid =
     (if pool_uuid_lo oid = - 1 then returnC (off oid) else pmemobj_direct_inline pool_by_oid oid)"

definition ptr_bool :: "(PMEMoid \<Rightarrow> u64) \<Rightarrow> PMEMoid \<Rightarrow> (direct_state, bool) cpp" where
  "ptr_bool pool_by_oid oid = bindC (ptr_get pool_by_oid oid) (\<lambda>a. returnC (a \<noteq> 0))"

text \<open>\<open>operator*\<close> and \<open>operator->\<close> dereference the direct pointer.\<close>

definition ptr_deref :: "(PMEMoid \<Rightarrow> u64) \<Rightarrow> PMEMoid \<Rightarrow> (direct_state, u64) cpp" where
  "ptr_deref pool_by_oid oid =
     bindC (ptr_get pool_by_oid oid) (\<lambda>a. if a = 0 then dieC Null_deref else returnC a)"

text \<open>\<open>operator[]\<close>: the address of element \<open>i\<close>; \<open>extent\<close> is 0 for an array of unknown bound.\<close>

definition ptr_index :: "(PMEMoid \<Rightarrow> u64) \<Rightarrow> u64 \<Rightarrow> u64 \<Rightarrow> PMEMoid \<Rightarrow> u64 \<Rightarrow> (direct_state, u64) cpp" where
  "ptr_index pool_by_oid sz extent oid i =
     thenC (assertC (0 \<le>s i \<and> (i <s extent \<or> extent = 0)))
     (bindC (ptr_get pool_by_oid oid) (\<lambda>a. if a = 0 then dieC Null_deref else returnC (a + i * sz)))"

text \<open>The conversion to \<open>persistent_ptr<void>\<close> goes through the direct pointer.\<close>

definition ptr_to_void :: "(PMEMoid \<Rightarrow> u64) \<Rightarrow> (u64 \<Rightarrow> PMEMoid) \<Rightarrow> PMEMoid \<Rightarrow> (direct_state, PMEMoid) cpp" where
  "ptr_to_void pool_by_oid pmemobj_oid oid =
     bindC (ptr_get pool_by_oid oid) (\<lambda>a. returnC (ptr_from_volatile pmemobj_oid a))"

text \<open>\<open>persist()\<close> and \<open>flush()\<close> without a pool argument look the pool up first; \<open>sync\<close> is \<open>pmemobj_persist\<close>
  or \<open>pmemobj_flush\<close>.\<close>

definition ptr_persist ::
  "(PMEMoid \<Rightarrow> u64) \<Rightarrow> (u64 \<Rightarrow> u64 \<Rightarrow> u64 \<Rightarrow> (direct_state, unit) cpp) \<Rightarrow> u64 \<Rightarrow> PMEMoid \<Rightarrow> (direct_state, unit) cpp" where
  "ptr_persist pool_by_oid pmemobj_persist sz oid =
     (let pop = pool_by_oid oid in
      if pop = 0 then throwC Pool_error
      else bindC (ptr_get pool_by_oid oid) (\<lambda>a. pmemobj_persist pop a sz))"

definition ptr_flush ::
  "(PMEMoid \<Rightarrow> u64) \<Rightarrow> (u64 \<Rightarrow> u64 \<Rightarrow> u64 \<Rightarrow> (direct_state, unit) cpp) \<Rightarrow> u64 \<Rightarrow> PMEMoid \<Rightarrow> (direct_state, unit) cpp" where
  "ptr_flush pool_by_oid pmemobj_flush sz oid =
     (let pop = pool_by_oid oid in
      if pop = 0 then throwC Pool_error
      else bindC (ptr_get pool_by_oid oid) (\<lambda>a. pmemobj_flush pop a sz))"

text \<open>The variants with a pool argument use its handle.\<close>

definition ptr_persist_in ::
  "(PMEMoid \<Rightarrow> u64) \<Rightarrow> (u64 \<Rightarrow> u64 \<Rightarrow> u64 \<Rightarrow> (direct_state, unit) cpp) \<Rightarrow> u64 \<Rightarrow> u64 \<Rightarrow> PMEMoid \<Rightarrow> (direct_state, unit) cpp" where
  "ptr_persist_in pool_by_oid pmemobj_persist pop sz oid =
     bindC (ptr_get pool_by_oid oid) (\<lambda>a. pmemobj_persist pop a sz)"

definition ptr_flush_in ::
  "(PMEMoid \<Rightarrow> u64) \<Rightarrow> (u64 \<Rightarrow> u64 \<Rightarrow> u64 \<Rightarrow> (direct_state, unit) cpp) \<Rightarrow> u64 \<Rightarrow> u64 \<Rightarrow> PMEMoid \<Rightarrow> (direct_state, unit) cpp" where
  "ptr_flush_in pool_by_oid pmemobj_flush pop sz oid =
     bindC (ptr_get pool_by_oid oid) (\<lambda>a. pmemobj_flush pop a sz)"

section \<open>Pointer arithmetic\<close>

definition ptr_add :: "u64 \<Rightarrow> PMEMoid \<Rightarrow> u64 \<Rightarrow> PMEMoid" where
  "ptr_add sz lhs s = PMEMoid (pool_uuid_lo lhs) (off lhs + s * sz)"

definition ptr_sub :: "u64 \<Rightarrow> PMEMoid \<Rightarrow> u64 \<Rightarrow> PMEMoid" where
  "ptr_sub sz lhs s = PMEMoid (pool_uuid_lo lhs) (off lhs - s * sz)"

text \<open>The difference: \<open>d\<close> is signed, but \<open>sizeof(T)\<close> is unsigned, so the division is an unsigned one.\<close>

definition ptr_diff :: "u64 \<Rightarrow> PMEMoid \<Rightarrow> PMEMoid \<Rightarrow> u64 outcome" where
  "ptr_diff sz lhs rhs =
     (if pool_uuid_lo lhs \<noteq> pool_uuid_lo rhs then Die Assert_failed
      else let d = off lhs - off rhs in Val (d div sz))"

text \<open>The operators that change a pointer in place: the pointer is member \<open>g\<close>, \<open>s\<close> of the object at \<open>a\<close>.\<close>

definition ptr_preinc :: "'o libpmemobj \<Rightarrow> u64 \<Rightarrow> nat \<Rightarrow> ('o \<Rightarrow> PMEMoid option) \<Rightarrow> (PMEMoid \<Rightarrow> 'o \<Rightarrow> 'o) \<Rightarrow> ('v, 'o, unit) pcpp" where
  "ptr_preinc L sz a g s = p_update L a g s (\<lambda>oid. Val (PMEMoid (pool_uuid_lo oid) (off oid + sz)))"

definition ptr_postinc :: "'o libpmemobj \<Rightarrow> u64 \<Rightarrow> nat \<Rightarrow> ('o \<Rightarrow> PMEMoid option) \<Rightarrow> (PMEMoid \<Rightarrow> 'o \<Rightarrow> 'o) \<Rightarrow> ('v, 'o, PMEMoid) pcpp" where
  "ptr_postinc L sz a g s = bindC (pread a g) (\<lambda>noid. thenC (ptr_preinc L sz a g s) (returnC noid))"

definition ptr_predec :: "'o libpmemobj \<Rightarrow> u64 \<Rightarrow> nat \<Rightarrow> ('o \<Rightarrow> PMEMoid option) \<Rightarrow> (PMEMoid \<Rightarrow> 'o \<Rightarrow> 'o) \<Rightarrow> ('v, 'o, unit) pcpp" where
  "ptr_predec L sz a g s = p_update L a g s (\<lambda>oid. Val (PMEMoid (pool_uuid_lo oid) (off oid - sz)))"

definition ptr_postdec :: "'o libpmemobj \<Rightarrow> u64 \<Rightarrow> nat \<Rightarrow> ('o \<Rightarrow> PMEMoid option) \<Rightarrow> (PMEMoid \<Rightarrow> 'o \<Rightarrow> 'o) \<Rightarrow> ('v, 'o, PMEMoid) pcpp" where
  "ptr_postdec L sz a g s = bindC (pread a g) (\<lambda>noid. thenC (ptr_predec L sz a g s) (returnC noid))"

definition ptr_add_assign ::
  "'o libpmemobj \<Rightarrow> u64 \<Rightarrow> nat \<Rightarrow> ('o \<Rightarrow> PMEMoid option) \<Rightarrow> (PMEMoid \<Rightarrow> 'o \<Rightarrow> 'o) \<Rightarrow> u64 \<Rightarrow> ('v, 'o, unit) pcpp" where
  "ptr_add_assign L sz a g s n = p_update L a g s (\<lambda>oid. Val (PMEMoid (pool_uuid_lo oid) (off oid + n * sz)))"

definition ptr_sub_assign ::
  "'o libpmemobj \<Rightarrow> u64 \<Rightarrow> nat \<Rightarrow> ('o \<Rightarrow> PMEMoid option) \<Rightarrow> (PMEMoid \<Rightarrow> 'o \<Rightarrow> 'o) \<Rightarrow> u64 \<Rightarrow> ('v, 'o, unit) pcpp" where
  "ptr_sub_assign L sz a g s n = p_update L a g s (\<lambda>oid. Val (PMEMoid (pool_uuid_lo oid) (off oid - n * sz)))"

text \<open>Assignment of null, move assignment and swap.\<close>

definition ptr_assign_null :: "'o libpmemobj \<Rightarrow> nat \<Rightarrow> ('o \<Rightarrow> PMEMoid option) \<Rightarrow> (PMEMoid \<Rightarrow> 'o \<Rightarrow> 'o) \<Rightarrow> ('v, 'o, unit) pcpp" where
  "ptr_assign_null L a g s = thenC (conditional_add_to_tx L a g s) (pwrite_raw a g s (PMEMoid 0 0))"

definition ptr_move_assign ::
  "'o libpmemobj \<Rightarrow> nat \<Rightarrow> ('o \<Rightarrow> PMEMoid option) \<Rightarrow> (PMEMoid \<Rightarrow> 'o \<Rightarrow> 'o) \<Rightarrow> PMEMoid \<Rightarrow> ('v, 'o, unit) pcpp" where
  "ptr_move_assign L a g s r = thenC (conditional_add_to_tx L a g s) (pwrite_raw a g s r)"

definition ptr_swap :: "'o libpmemobj \<Rightarrow> nat \<Rightarrow> nat \<Rightarrow> ('o \<Rightarrow> PMEMoid option) \<Rightarrow> (PMEMoid \<Rightarrow> 'o \<Rightarrow> 'o) \<Rightarrow> ('v, 'o, unit) pcpp" where
  "ptr_swap L a b g s =
     thenC (conditional_add_to_tx L a g s)
       (thenC (conditional_add_to_tx L b g s)
         (bindC (pread a g) (\<lambda>x. bindC (pread b g) (\<lambda>y.
            thenC (pwrite_raw a g s y) (pwrite_raw b g s x)))))"

text \<open>
  Copy assignment and converting assignment make a temporary and swap it with the pointer; the temporary is outside
  every pool, so only the pointer is added to the transaction.
\<close>

definition ptr_assign ::
  "'o libpmemobj \<Rightarrow> nat \<Rightarrow> ('o \<Rightarrow> PMEMoid option) \<Rightarrow> (PMEMoid \<Rightarrow> 'o \<Rightarrow> 'o) \<Rightarrow> PMEMoid \<Rightarrow> ('v, 'o, unit) pcpp" where
  "ptr_assign L a g s r = (let tmp = ptr_copy r in p_assign L a g s tmp)"

definition ptr_assign_convert ::
  "'o libpmemobj \<Rightarrow> nat \<Rightarrow> ('o \<Rightarrow> PMEMoid option) \<Rightarrow> (PMEMoid \<Rightarrow> 'o \<Rightarrow> 'o) \<Rightarrow> (u64 \<Rightarrow> u64) \<Rightarrow> PMEMoid \<Rightarrow> ('v, 'o, unit) pcpp" where
  "ptr_assign_convert L a g s cast r = (let tmp = ptr_convert (calculate_offset cast) r in p_assign L a g s tmp)"

section \<open>Printing\<close>

text \<open>\<open>operator<<\<close> writes both words of the handle in lower-case hexadecimal.\<close>

definition hex_digit :: "nat \<Rightarrow> char" where
  "hex_digit d = ''0123456789abcdef'' ! d"

fun hex :: "nat \<Rightarrow> string" where
  "hex n = (if n < 16 then [hex_digit n] else hex (n div 16) @ [hex_digit (n mod 16)])"

declare hex.simps [simp del]

definition ptr_print :: "PMEMoid \<Rightarrow> string" where
  "ptr_print oid = (let raw_oid = ptr_raw oid in
     ''0x'' @ hex (unat (pool_uuid_lo raw_oid)) @ '', 0x'' @ hex (unat (off raw_oid)))"

section \<open>Comparison\<close>

definition ptr_eq :: "PMEMoid \<Rightarrow> PMEMoid \<Rightarrow> bool" where
  "ptr_eq lhs rhs = OID_EQUALS lhs rhs"

definition ptr_neq :: "PMEMoid \<Rightarrow> PMEMoid \<Rightarrow> bool" where
  "ptr_neq lhs rhs = (\<not> ptr_eq lhs rhs)"

definition ptr_eq_null :: "(PMEMoid \<Rightarrow> u64) \<Rightarrow> PMEMoid \<Rightarrow> (direct_state, bool) cpp" where
  "ptr_eq_null pool_by_oid lhs = bindC (ptr_get pool_by_oid lhs) (\<lambda>a. returnC (a = 0))"

definition ptr_neq_null :: "(PMEMoid \<Rightarrow> u64) \<Rightarrow> PMEMoid \<Rightarrow> (direct_state, bool) cpp" where
  "ptr_neq_null pool_by_oid lhs = bindC (ptr_get pool_by_oid lhs) (\<lambda>a. returnC (a \<noteq> 0))"

definition ptr_less :: "PMEMoid \<Rightarrow> PMEMoid \<Rightarrow> bool" where
  "ptr_less lhs rhs =
     (if pool_uuid_lo lhs = pool_uuid_lo rhs then off lhs < off rhs else pool_uuid_lo lhs < pool_uuid_lo rhs)"

definition ptr_le :: "PMEMoid \<Rightarrow> PMEMoid \<Rightarrow> bool" where
  "ptr_le lhs rhs = (\<not> ptr_less rhs lhs)"

definition ptr_greater :: "PMEMoid \<Rightarrow> PMEMoid \<Rightarrow> bool" where
  "ptr_greater lhs rhs = ptr_less rhs lhs"

definition ptr_ge :: "PMEMoid \<Rightarrow> PMEMoid \<Rightarrow> bool" where
  "ptr_ge lhs rhs = (\<not> ptr_less lhs rhs)"

text \<open>Comparisons with \<open>nullptr\<close> compare direct pointers with \<open>std::less\<close>, here the order of addresses.\<close>

definition ptr_less_null :: "(PMEMoid \<Rightarrow> u64) \<Rightarrow> PMEMoid \<Rightarrow> (direct_state, bool) cpp" where
  "ptr_less_null pool_by_oid lhs = bindC (ptr_get pool_by_oid lhs) (\<lambda>a. returnC (a < 0))"

definition null_less_ptr :: "(PMEMoid \<Rightarrow> u64) \<Rightarrow> PMEMoid \<Rightarrow> (direct_state, bool) cpp" where
  "null_less_ptr pool_by_oid rhs = bindC (ptr_get pool_by_oid rhs) (\<lambda>a. returnC (0 < a))"

definition ptr_le_null :: "(PMEMoid \<Rightarrow> u64) \<Rightarrow> PMEMoid \<Rightarrow> (direct_state, bool) cpp" where
  "ptr_le_null pool_by_oid lhs = bindC (null_less_ptr pool_by_oid lhs) (\<lambda>b. returnC (\<not> b))"

definition null_le_ptr :: "(PMEMoid \<Rightarrow> u64) \<Rightarrow> PMEMoid \<Rightarrow> (direct_state, bool) cpp" where
  "null_le_ptr pool_by_oid rhs = bindC (ptr_less_null pool_by_oid rhs) (\<lambda>b. returnC (\<not> b))"

definition ptr_greater_null :: "(PMEMoid \<Rightarrow> u64) \<Rightarrow> PMEMoid \<Rightarrow> (direct_state, bool) cpp" where
  "ptr_greater_null pool_by_oid lhs = null_less_ptr pool_by_oid lhs"

definition null_greater_ptr :: "(PMEMoid \<Rightarrow> u64) \<Rightarrow> PMEMoid \<Rightarrow> (direct_state, bool) cpp" where
  "null_greater_ptr pool_by_oid rhs = ptr_less_null pool_by_oid rhs"

definition ptr_ge_null :: "(PMEMoid \<Rightarrow> u64) \<Rightarrow> PMEMoid \<Rightarrow> (direct_state, bool) cpp" where
  "ptr_ge_null pool_by_oid lhs = bindC (ptr_less_null pool_by_oid lhs) (\<lambda>b. returnC (\<not> b))"

definition null_ge_ptr :: "(PMEMoid \<Rightarrow> u64) \<Rightarrow> PMEMoid \<Rightarrow> (direct_state, bool) cpp" where
  "null_ge_ptr pool_by_oid rhs = bindC (null_less_ptr pool_by_oid rhs) (\<lambda>b. returnC (\<not> b))"

section \<open>Pointers are linearly ordered\<close>

instantiation PMEMoid :: linorder
begin

definition less_PMEMoid :: "PMEMoid \<Rightarrow> PMEMoid \<Rightarrow> bool" where
  "less_PMEMoid = ptr_less"

definition less_eq_PMEMoid :: "PMEMoid \<Rightarrow> PMEMoid \<Rightarrow> bool" where
  "less_eq_PMEMoid = ptr_le"

instance
proof
  fix x y z :: PMEMoid
  show "x < y \<longleftrightarrow> x \<le> y \<and> \<not> y \<le> x"
    by (auto simp: less_PMEMoid_def less_eq_PMEMoid_def ptr_le_def ptr_less_def)
  show "x \<le> x" by (simp add: less_eq_PMEMoid_def ptr_le_def ptr_less_def)
  show "x \<le> y \<Longrightarrow> y \<le> z \<Longrightarrow> x \<le> z"
    by (auto simp: less_eq_PMEMoid_def ptr_le_def ptr_less_def split: if_splits)
  show "x \<le> y \<Longrightarrow> y \<le> x \<Longrightarrow> x = y"
    by (cases x; cases y) (auto simp: less_eq_PMEMoid_def ptr_le_def ptr_less_def split: if_splits)
  show "x \<le> y \<or> y \<le> x"
    by (auto simp: less_eq_PMEMoid_def ptr_le_def ptr_less_def)
qed

end

section \<open>The cache of pmemobj\_direct is transparent\<close>

text \<open>
  Pools are opened and closed between lookups; closing one increments \<open>_pobj_cache_invalidate\<close>. A pool that
  is open already is not opened again.
\<close>

datatype pool_event = Lookup PMEMoid | Open_pool u64 u64 | Close_pool u64

type_synonym registry = "u64 \<rightharpoonup> u64"

definition pool_of :: "registry \<Rightarrow> PMEMoid \<Rightarrow> u64" where
  "pool_of reg oid = (case reg (pool_uuid_lo oid) of None \<Rightarrow> 0 | Some b \<Rightarrow> b)"

definition open_in :: "u64 \<Rightarrow> u64 \<Rightarrow> registry \<Rightarrow> registry" where
  "open_in u b reg = (if reg u = None then reg(u \<mapsto> b) else reg)"

definition uncached_direct :: "registry \<Rightarrow> PMEMoid \<Rightarrow> u64" where
  "uncached_direct reg oid =
     (if off oid = 0 \<or> pool_uuid_lo oid = 0 \<or> pool_of reg oid = 0 then 0 else pool_of reg oid + off oid)"

fun lookups :: "pool_event list \<Rightarrow> registry \<Rightarrow> direct_state \<Rightarrow> u64 outcome list" where
  "lookups [] reg s = []"
| "lookups (Lookup oid # es) reg s =
     (let (r, s') = pmemobj_direct_inline (pool_of reg) oid s in r # lookups es reg s')"
| "lookups (Open_pool u b # es) reg s = lookups es (open_in u b reg) s"
| "lookups (Close_pool u # es) reg s = lookups es (reg(u := None)) (s\<lparr>cache_invalidate := cache_invalidate s + 1\<rparr>)"

fun uncached_lookups :: "pool_event list \<Rightarrow> registry \<Rightarrow> u64 list" where
  "uncached_lookups [] reg = []"
| "uncached_lookups (Lookup oid # es) reg = uncached_direct reg oid # uncached_lookups es reg"
| "uncached_lookups (Open_pool u b # es) reg = uncached_lookups es (open_in u b reg)"
| "uncached_lookups (Close_pool u # es) reg = uncached_lookups es (reg(u := None))"

fun is_close :: "pool_event \<Rightarrow> bool" where
  "is_close (Close_pool u) = True"
| "is_close _ = False"

text \<open>\<open>coherent k\<close>: at most \<open>k\<close> pools were closed since the cache was filled; if none was, its entry is right.\<close>

definition coherent :: "nat \<Rightarrow> registry \<Rightarrow> direct_state \<Rightarrow> bool" where
  "coherent k reg s \<longleftrightarrow> (\<exists>j \<le> k. cache_invalidate s = pc_invalidate (cached_pool s) + of_nat j \<and>
     (j = 0 \<longrightarrow> pc_uuid_lo (cached_pool s) \<noteq> 0 \<longrightarrow> reg (pc_uuid_lo (cached_pool s)) = Some (pc_pop (cached_pool s)) \<and>
        pc_pop (cached_pool s) \<noteq> 0))"

lemma coherent_hit:
  assumes "coherent k reg s" and "k < 2 ^ 32" and "cache_invalidate s = pc_invalidate (cached_pool s)"
    and "pc_uuid_lo (cached_pool s) = u" and "u \<noteq> 0"
  shows "reg u = Some (pc_pop (cached_pool s))" and "pc_pop (cached_pool s) \<noteq> 0"
proof -
  from assms(1) obtain j where j: "j \<le> k" "cache_invalidate s = pc_invalidate (cached_pool s) + of_nat j"
    "j = 0 \<longrightarrow> pc_uuid_lo (cached_pool s) \<noteq> 0 \<longrightarrow> reg (pc_uuid_lo (cached_pool s)) = Some (pc_pop (cached_pool s)) \<and>
      pc_pop (cached_pool s) \<noteq> 0" by (auto simp: coherent_def)
  have "(of_nat j :: u32) = 0" using j(2) assms(3) by simp
  then have "unat (of_nat j :: u32) = 0" by simp
  moreover have "unat (of_nat j :: u32) = j mod 2 ^ 32" by (simp add: unat_of_nat)
  ultimately have "j = 0" using j(1) assms(2) by simp
  with j(3) assms(4,5) show "reg u = Some (pc_pop (cached_pool s))" "pc_pop (cached_pool s) \<noteq> 0" by auto
qed

lemma direct_step:
  assumes "coherent k reg s" and "k < 2 ^ 32"
  shows "\<exists>s'. pmemobj_direct_inline (pool_of reg) oid s = (Val (uncached_direct reg oid), s') \<and> coherent k reg s'"
proof (cases "off oid = 0 \<or> pool_uuid_lo oid = 0")
  case True
  then show ?thesis using assms by (auto simp: pmemobj_direct_inline_def uncached_direct_def returnC_def)
next
  case False
  show ?thesis
  proof (cases "cache_invalidate s \<noteq> pc_invalidate (cached_pool s) \<or> pc_uuid_lo (cached_pool s) \<noteq> pool_uuid_lo oid")
    case True
    with False show ?thesis
      by (auto simp: pmemobj_direct_inline_def uncached_direct_def getC_def modC_def exec_simps Let_def coherent_def
          pool_of_def split: option.splits)
  next
    case hit: False
    with False coherent_hit [OF assms, of "pool_uuid_lo oid"] assms(1) show ?thesis
      by (simp add: pmemobj_direct_inline_def uncached_direct_def getC_def exec_simps pool_of_def)
  qed
qed

lemma coherent_open: "coherent k reg s \<Longrightarrow> coherent k (open_in u b reg) s"
  by (auto simp: coherent_def open_in_def)

lemma coherent_close:
  assumes "coherent k reg s"
  shows "coherent (Suc k) (reg(u := None)) (s\<lparr>cache_invalidate := cache_invalidate s + 1\<rparr>)"
proof -
  from assms obtain j where "j \<le> k" "cache_invalidate s = pc_invalidate (cached_pool s) + of_nat j"
    by (auto simp: coherent_def)
  then show ?thesis unfolding coherent_def by (intro exI [of _ "Suc j"]) (simp add: ac_simps)
qed

lemma lookups_coherent:
  "coherent k reg s \<Longrightarrow> k + length (filter is_close es) < 2 ^ 32 \<Longrightarrow> lookups es reg s = map Val (uncached_lookups es reg)"
proof (induction es reg s arbitrary: k rule: lookups.induct)
  case (2 oid es reg s)
  from 2(3) have "k < 2 ^ 32" by simp
  from direct_step [OF 2(2) this, of oid] obtain s' where
    s': "pmemobj_direct_inline (pool_of reg) oid s = (Val (uncached_direct reg oid), s')" "coherent k reg s'" by blast
  from 2(1) [OF s'(1) [symmetric] refl s'(2)] 2(3) s'(1) show ?case by simp
next
  case (3 u b es reg s)
  from 3(1) [OF coherent_open [OF 3(2)]] 3(3) show ?case by simp
next
  case (4 u es reg s)
  from 4(3) have "Suc k + length (filter is_close es) < 2 ^ 32" by simp
  from 4(1) [OF coherent_close [OF 4(2)] this] show ?case by (simp only: lookups.simps uncached_lookups.simps)
qed simp

section \<open>Properties\<close>

text \<open>C17: The per-thread cache in \<open>pmemobj_direct\<close> is invisible: starting from its zero-initialised state, over any
  sequence of lookups with pools opened and closed in between (fewer than \<open>2 ^ 32\<close> closings, the range of the
  invalidation counter), every lookup returns what an uncached one returns, in particular never an address
  in a pool that was closed.\<close>

theorem direct_cache_transparent:
  assumes "length (filter is_close es) < 2 ^ 32"
    and "s = \<lparr>cached_pool = \<lparr>pc_pop = 0, pc_uuid_lo = 0, pc_invalidate = 0\<rparr>, cache_invalidate = 0\<rparr>"
  shows "lookups es reg s = map Val (uncached_lookups es reg)"
proof -
  have "coherent 0 reg s" by (simp add: coherent_def assms(2))
  from lookups_coherent [OF this] assms(1) show ?thesis by simp
qed

theorem direct_cache_transparent_witness:
  "lookups [Open_pool 5 4096, Lookup (PMEMoid 5 64), Close_pool 5, Lookup (PMEMoid 5 64), Open_pool 5 8192, Lookup (PMEMoid 5 64)]
     Map.empty \<lparr>cached_pool = \<lparr>pc_pop = 0, pc_uuid_lo = 0, pc_invalidate = 0\<rparr>, cache_invalidate = 0\<rparr> = [Val 4160, Val 0, Val 8256]"
  using direct_cache_transparent [OF _ refl,
    of "[Open_pool 5 4096, Lookup (PMEMoid 5 64), Close_pool 5, Lookup (PMEMoid 5 64), Open_pool 5 8192, Lookup (PMEMoid 5 64)]" Map.empty]
  by (simp add: uncached_direct_def pool_of_def open_in_def)

text \<open>Adding and subtracting elements are inverse to each other, and the difference of two pointers counts the
  elements between them when the left one is not below the right one. When it is below, the difference is
  wrong for every element size above 1: the signed byte distance is divided as an unsigned number, so the
  result is a large positive count and not the negative number of elements.\<close>

theorem pointer_difference_sign:
  assumes "1 < unat sz" and "0 < unat k" and "unat k * unat sz \<le> 2 ^ 63"
  shows "ptr_sub sz (ptr_add sz p k) k = p \<and> ptr_diff sz (ptr_add sz p k) p = Val k \<and>
    (\<exists>d. ptr_diff sz (ptr_sub sz p k) p = Val d \<and> unat d = (2 ^ 64 - unat k * unat sz) div unat sz \<and> d \<noteq> - k)"
proof -
  have "unat k * unat sz < 2 ^ 64" using assms(3) by (rule le_less_trans) simp
  then have m: "unat (k * sz) = unat k * unat sz" by (simp add: unat_word_ariths)
  have add: "ptr_diff sz (ptr_add sz p k) p = Val k"
  proof -
    have "unat ((k * sz) div sz) = unat k" using assms(1) by (simp add: unat_div m)
    then have "k * sz div sz = k" by (simp only: unsigned_word_eqI)
    then show ?thesis by (simp add: ptr_diff_def ptr_add_def)
  qed
  let ?d = "(- (k * sz)) div sz"
  have pos: "0 < unat k * unat sz" using assms(1,2) by simp
  have neg: "unat (- (k * sz)) = 2 ^ 64 - unat k * unat sz"
    using unat_sub_if' [of 0 "k * sz"] pos m by simp
  have d: "unat ?d = (2 ^ 64 - unat k * unat sz) div unat sz" by (simp only: unat_div neg)
  have "unat ?d < 2 ^ 63"
  proof -
    have "unat ?d \<le> (2 ^ 64 - unat k * unat sz) div 2" unfolding d using assms(1) by (intro div_le_mono2) simp_all
    also have "\<dots> \<le> (2 ^ 64 - 1) div 2" using pos by (intro div_le_mono) linarith
    also have "\<dots> < 2 ^ 63" by simp
    finally show ?thesis .
  qed
  moreover have "2 ^ 63 \<le> unat (- k)"
  proof -
    have "2 * unat k \<le> unat k * unat sz" using assms(1) by simp
    then have "2 * unat k \<le> 2 ^ 63" using assms(3) by linarith
    moreover have "unat (- k) = 2 ^ 64 - unat k" using unat_sub_if' [of 0 k] assms(2) by simp
    ultimately show ?thesis by simp
  qed
  ultimately have ne: "?d \<noteq> - k" by auto
  have run: "ptr_diff sz (ptr_sub sz p k) p = Val ?d" by (simp add: ptr_diff_def ptr_sub_def)
  have inverse: "ptr_sub sz (ptr_add sz p k) k = p" by (simp add: ptr_sub_def ptr_add_def)
  from inverse add run d ne show ?thesis by blast
qed

theorem pointer_difference_sign_witness:
  "ptr_diff 8 (ptr_add 8 (PMEMoid 5 64) 2) (PMEMoid 5 64) = Val 2 \<and>
    (\<exists>d. ptr_diff 8 (ptr_sub 8 (PMEMoid 5 64) 2) (PMEMoid 5 64) = Val d \<and> unat d = 2 ^ 61 - 2 \<and> d \<noteq> - 2)"
  using pointer_difference_sign [of 8 2 "PMEMoid 5 64"] by auto

text \<open>A null pointer does not survive a conversion to a base class at a non-zero offset: the converting
  constructor adds the offset to the null handle as well, and on a pool that is open the result denotes an
  address, so the converted pointer is neither equal to the null handle nor, for a handle with the pool's
  identifier and offset 0, to \<open>nullptr\<close>.\<close>

theorem converted_null_is_not_null:
  assumes "d \<noteq> 0" and "u \<noteq> 0" and "u \<noteq> - 1" and "reg u = Some b" and "b \<noteq> 0" and "b + d \<noteq> 0"
    and "coherent 0 reg s"
  shows "(\<exists>s'. ptr_eq_null (pool_of reg) (PMEMoid u 0) s = (Val True, s')) \<and>
    (\<exists>s'. ptr_eq_null (pool_of reg) (ptr_convert d (PMEMoid u 0)) s = (Val False, s')) \<and>
    ptr_neq (ptr_convert d ptr_default) ptr_default"
proof -
  obtain s1 where s1: "pmemobj_direct_inline (pool_of reg) (PMEMoid u 0) s = (Val 0, s1)"
    using direct_step [OF assms(7), of "PMEMoid u 0"] by (auto simp: uncached_direct_def)
  obtain s2 where s2: "pmemobj_direct_inline (pool_of reg) (PMEMoid u d) s = (Val (b + d), s2)"
    using direct_step [OF assms(7), of "PMEMoid u d"] assms by (auto simp: uncached_direct_def pool_of_def)
  show ?thesis using assms(1,3,6) s1 s2
    by (simp add: ptr_eq_null_def ptr_get_def ptr_convert_def exec_simps ptr_neq_def ptr_eq_def OID_EQUALS_def
        ptr_default_def OID_NULL_def)
qed

theorem converted_null_is_not_null_witness:
  "(\<exists>s'. ptr_eq_null (pool_of [5 \<mapsto> 4096]) (ptr_convert 8 (PMEMoid 5 0))
      \<lparr>cached_pool = \<lparr>pc_pop = 0, pc_uuid_lo = 0, pc_invalidate = 0\<rparr>, cache_invalidate = 0\<rparr> = (Val False, s'))"
  using converted_null_is_not_null [of 8 5 "[5 \<mapsto> 4096]" 4096
      "\<lparr>cached_pool = \<lparr>pc_pop = 0, pc_uuid_lo = 0, pc_invalidate = 0\<rparr>, cache_invalidate = 0\<rparr>"]
  by (simp add: coherent_def)

text \<open>
  The constructor that converts a pointer to a base class and the one that converts it back are inverse to each other.
  The conversion operator does not adjust the offset: for a base class at a non-zero offset \<open>d\<close> the pointer it gives
  for the derived class is off by \<open>d\<close>.
\<close>

theorem conversion_operator_drops_offset:
  assumes "d \<noteq> 0"
  shows "ptr_convert (calculate_offset (static_cast (- d))) (ptr_convert (calculate_offset (static_cast d)) oid) = oid \<and>
    ptr_convert_operator (ptr_convert (calculate_offset (static_cast d)) oid) = PMEMoid (pool_uuid_lo oid) (off oid + d) \<and>
    ptr_convert_operator (ptr_convert (calculate_offset (static_cast d)) oid) \<noteq> oid"
  using assms by (cases oid) (simp add: ptr_convert_def ptr_convert_operator_def ptr_from_oid_def)

theorem conversion_operator_drops_offset_witness:
  "ptr_convert_operator (ptr_convert (calculate_offset (static_cast 8)) (PMEMoid 5 64)) = PMEMoid 5 72"
  using conversion_operator_drops_offset [of 8 "PMEMoid 5 64"] by simp

definition digit_value :: "char \<Rightarrow> nat" where
  "digit_value c = (if of_char c < (58 :: nat) then of_char c - 48 else of_char c - 87)"

definition parse_hex :: "string \<Rightarrow> nat" where
  "parse_hex = foldl (\<lambda>n c. 16 * n + digit_value c) 0"

lemma digit_cases:
  assumes "d < 16"
  shows "digit_value (hex_digit d) = d \<and> hex_digit d \<noteq> CHR '','' "
proof -
  have "d \<in> set [0..<16]" using assms by simp
  then show ?thesis by (auto simp: upt_rec hex_digit_def digit_value_def)
qed

lemma parse_hex_hex: "parse_hex (hex n) = n"
proof (induction n rule: hex.induct)
  case (1 n)
  show ?case
  proof (cases "n < 16")
    case True
    then show ?thesis by (subst hex.simps) (simp add: parse_hex_def digit_cases)
  next
    case False
    with 1 have "parse_hex (hex (n div 16)) = n div 16" by simp
    with False show ?thesis by (subst hex.simps) (simp add: parse_hex_def digit_cases)
  qed
qed

lemma hex_no_comma: "CHR '','' \<notin> set (hex n)"
proof (induction n rule: hex.induct)
  case (1 n)
  then show ?case
    using digit_cases [of n] digit_cases [of "n mod 16"] by (subst hex.simps) auto
qed

text \<open>The reader of that format: the words around the comma, without their prefixes.\<close>

definition parse_ptr :: "string \<Rightarrow> PMEMoid" where
  "parse_ptr cs = (let w1 = takeWhile (\<lambda>c. c \<noteq> CHR '','') cs; w2 = drop (length w1 + 2) cs in
     PMEMoid (of_nat (parse_hex (drop 2 w1))) (of_nat (parse_hex (drop 2 w2))))"

text \<open>The printed form of a pointer determines it.\<close>

theorem printed_pointer_roundtrip: "parse_ptr (ptr_print oid) = oid"
proof -
  let ?u = "hex (unat (pool_uuid_lo oid))" and ?o = "hex (unat (off oid))"
  have print: "ptr_print oid = (''0x'' @ ?u) @ CHR '','' # '' 0x'' @ ?o"
    by (simp add: ptr_print_def ptr_raw_def Let_def)
  have "\<forall>c \<in> set (''0x'' @ ?u). c \<noteq> CHR '',''" using hex_no_comma by auto
  then have w1: "takeWhile (\<lambda>c. c \<noteq> CHR '','') (ptr_print oid) = ''0x'' @ ?u"
    unfolding print by (subst takeWhile_append2) auto
  have w2: "drop (length (''0x'' @ ?u) + 2) (ptr_print oid) = ''0x'' @ ?o"
    unfolding print by simp
  show ?thesis
    unfolding parse_ptr_def Let_def w1 w2 by (simp add: parse_hex_hex)
qed

end
