(* ===== verification/Pool_Api.thy ===== *)
theory Pool_Api
  imports Persistent_Ptr
begin

text \<open>
  \<open>libpmemobj++/pool.hpp\<close> and \<open>utils.hpp\<close>: \<open>pool_base\<close> and \<open>pool<T>\<close>, the handles through which a program opens, closes and
  persists a pool. A handle object is the pointer \<open>pop\<close>; an operation works on that pointer and on the
  state \<open>'s\<close> of the C library, whose functions (\<open>libpmemobj/pool_base.h\<close>, \<open>libpmemobj/base.h\<close>) are the record
  \<open>pool_lib\<close>. What the library documents of opening and closing is the locale \<open>pool_library\<close>.
\<close>

section \<open>The library\<close>

record 's pool_lib =
  pmemobj_open :: "string \<Rightarrow> string \<Rightarrow> 's \<Rightarrow> u64 \<times> 's"
  pmemobj_create :: "string \<Rightarrow> string \<Rightarrow> u64 \<Rightarrow> u32 \<Rightarrow> 's \<Rightarrow> u64 \<times> 's"
  pmemobj_check :: "string \<Rightarrow> string \<Rightarrow> 's \<Rightarrow> int"
  pmemobj_close :: "u64 \<Rightarrow> 's \<Rightarrow> 's"
  pmemobj_root :: "u64 \<Rightarrow> u64 \<Rightarrow> 's \<Rightarrow> PMEMoid \<times> 's"
  pmemobj_persist :: "u64 \<Rightarrow> u64 \<Rightarrow> u64 \<Rightarrow> 's \<Rightarrow> 's"
  pmemobj_flush :: "u64 \<Rightarrow> u64 \<Rightarrow> u64 \<Rightarrow> 's \<Rightarrow> 's"
  pmemobj_drain :: "u64 \<Rightarrow> 's \<Rightarrow> 's"
  pmemobj_memcpy_persist :: "u64 \<Rightarrow> u64 \<Rightarrow> u64 \<Rightarrow> u64 \<Rightarrow> 's \<Rightarrow> u64 \<times> 's"
  pmemobj_memset_persist :: "u64 \<Rightarrow> u64 \<Rightarrow> u32 \<Rightarrow> u64 \<Rightarrow> 's \<Rightarrow> u64 \<times> 's"
  pmemobj_pool_by_ptr :: "u64 \<Rightarrow> 's \<Rightarrow> u64"
  pmemobj_pool_by_oid :: "PMEMoid \<Rightarrow> 's \<Rightarrow> u64"

type_synonym ('s, 'a) pool_op = "(u64 \<times> 's, 'a) cpp"

definition lib_call :: "('s \<Rightarrow> 'a \<times> 's) \<Rightarrow> (u64 \<times> 's, 'a) cpp" where
  "lib_call f = (\<lambda>(pop, s). let (x, s') = f s in (Val x, pop, s'))"

definition lib_proc :: "('s \<Rightarrow> 's) \<Rightarrow> (u64 \<times> 's, unit) cpp" where
  "lib_proc f = (\<lambda>(pop, s). (Val (), pop, f s))"

definition set_pop :: "u64 \<Rightarrow> (u64 \<times> 's, unit) cpp" where
  "set_pop h = modC (\<lambda>(pop, s). (h, s))"

definition DEFAULT_MODE :: u32 where
  "DEFAULT_MODE = 384"  \<comment> \<open>\<open>S_IWUSR | S_IRUSR\<close>\<close>

section \<open>pool\_base\<close>

text \<open>\<open>open\<close> and \<open>create\<close> are static and return a handle; the model assigns it to the handle object.\<close>

definition pool_base_ctor :: "u64" where
  "pool_base_ctor = 0"

definition pool_open :: "'s pool_lib \<Rightarrow> string \<Rightarrow> string \<Rightarrow> ('s, unit) pool_op" where
  "pool_open lib path layout =
     bindC (lib_call (pmemobj_open lib path layout)) (\<lambda>pop.
     if pop = 0 then throwC Pool_error else set_pop pop)"

definition pool_create :: "'s pool_lib \<Rightarrow> string \<Rightarrow> string \<Rightarrow> u64 \<Rightarrow> u32 \<Rightarrow> ('s, unit) pool_op" where
  "pool_create lib path layout sz mode =
     bindC (lib_call (pmemobj_create lib path layout sz mode)) (\<lambda>pop.
     if pop = 0 then throwC Pool_error else set_pop pop)"

definition pool_check :: "'s pool_lib \<Rightarrow> string \<Rightarrow> string \<Rightarrow> ('s, int) pool_op" where
  "pool_check lib path layout = getC (\<lambda>(pop, s). pmemobj_check lib path layout s)"

definition pool_close :: "'s pool_lib \<Rightarrow> ('s, unit) pool_op" where
  "pool_close lib =
     bindC (getC fst) (\<lambda>pop.
     if pop = 0 then throwC Logic_error
     else thenC (lib_proc (pmemobj_close lib pop)) (set_pop 0))"

definition pool_persist :: "'s pool_lib \<Rightarrow> u64 \<Rightarrow> u64 \<Rightarrow> ('s, unit) pool_op" where
  "pool_persist lib addr len = bindC (getC fst) (\<lambda>pop. lib_proc (pmemobj_persist lib pop addr len))"

definition pool_persist_p :: "'s pool_lib \<Rightarrow> u64 \<Rightarrow> u64 \<Rightarrow> ('s, unit) pool_op" where
  "pool_persist_p lib prop sizeof_Y = bindC (getC fst) (\<lambda>pop. lib_proc (pmemobj_persist lib pop prop sizeof_Y))"

definition sizeof_PMEMoid :: u64 where
  "sizeof_PMEMoid = 16"

definition pool_persist_ptr :: "'s pool_lib \<Rightarrow> u64 \<Rightarrow> ('s, unit) pool_op" where
  "pool_persist_ptr lib ptr = bindC (getC fst) (\<lambda>pop. lib_proc (pmemobj_persist lib pop ptr sizeof_PMEMoid))"

definition pool_flush :: "'s pool_lib \<Rightarrow> u64 \<Rightarrow> u64 \<Rightarrow> ('s, unit) pool_op" where
  "pool_flush lib addr len = bindC (getC fst) (\<lambda>pop. lib_proc (pmemobj_flush lib pop addr len))"

definition pool_flush_p :: "'s pool_lib \<Rightarrow> u64 \<Rightarrow> u64 \<Rightarrow> ('s, unit) pool_op" where
  "pool_flush_p lib prop sizeof_Y = bindC (getC fst) (\<lambda>pop. lib_proc (pmemobj_flush lib pop prop sizeof_Y))"

definition pool_flush_ptr :: "'s pool_lib \<Rightarrow> u64 \<Rightarrow> ('s, unit) pool_op" where
  "pool_flush_ptr lib ptr = bindC (getC fst) (\<lambda>pop. lib_proc (pmemobj_flush lib pop ptr sizeof_PMEMoid))"

definition pool_drain :: "'s pool_lib \<Rightarrow> ('s, unit) pool_op" where
  "pool_drain lib = bindC (getC fst) (\<lambda>pop. lib_proc (pmemobj_drain lib pop))"

definition pool_memcpy_persist :: "'s pool_lib \<Rightarrow> u64 \<Rightarrow> u64 \<Rightarrow> u64 \<Rightarrow> ('s, u64) pool_op" where
  "pool_memcpy_persist lib dest src len = bindC (getC fst) (\<lambda>pop. lib_call (pmemobj_memcpy_persist lib pop dest src len))"

definition pool_memset_persist :: "'s pool_lib \<Rightarrow> u64 \<Rightarrow> u32 \<Rightarrow> u64 \<Rightarrow> ('s, u64) pool_op" where
  "pool_memset_persist lib dest c len = bindC (getC fst) (\<lambda>pop. lib_call (pmemobj_memset_persist lib pop dest c len))"

definition pool_get_handle :: "('s, u64) pool_op" where
  "pool_get_handle = getC fst"

section \<open>pool\<close>

definition pool_get_root :: "'s pool_lib \<Rightarrow> u64 \<Rightarrow> ('s, PMEMoid) pool_op" where
  "pool_get_root lib sizeof_T =
     bindC (getC fst) (\<lambda>pop.
     if pop = 0 then throwC Pool_error else lib_call (pmemobj_root lib pop sizeof_T))"

text \<open>
  \<open>pool<T>\<close> is made from a \<open>pool_base\<close> by copying the handle; its static functions go through those of
  \<open>pool_base\<close>.
\<close>

definition pool_from_base :: "u64 \<Rightarrow> ('s, unit) pool_op" where
  "pool_from_base pb = set_pop pb"

definition typed_pool_open :: "'s pool_lib \<Rightarrow> string \<Rightarrow> string \<Rightarrow> ('s, unit) pool_op" where
  "typed_pool_open lib path layout =
     thenC (pool_open lib path layout) (bindC (getC fst) pool_from_base)"

definition typed_pool_create :: "'s pool_lib \<Rightarrow> string \<Rightarrow> string \<Rightarrow> u64 \<Rightarrow> u32 \<Rightarrow> ('s, unit) pool_op" where
  "typed_pool_create lib path layout sz mode =
     thenC (pool_create lib path layout sz mode) (bindC (getC fst) pool_from_base)"

definition typed_pool_check :: "'s pool_lib \<Rightarrow> string \<Rightarrow> string \<Rightarrow> ('s, int) pool_op" where
  "typed_pool_check lib path layout = pool_check lib path layout"

subsection \<open>Wide strings\<close>

text \<open>On Windows there are variants for paths and layouts of UTF-16 code units, over three more functions of the library.\<close>

record 's wide_lib =
  pmemobj_openW :: "16 word list \<Rightarrow> 16 word list \<Rightarrow> 's \<Rightarrow> u64 \<times> 's"
  pmemobj_createW :: "16 word list \<Rightarrow> 16 word list \<Rightarrow> u64 \<Rightarrow> u32 \<Rightarrow> 's \<Rightarrow> u64 \<times> 's"
  pmemobj_checkW :: "16 word list \<Rightarrow> 16 word list \<Rightarrow> 's \<Rightarrow> int"

definition pool_openW :: "'s wide_lib \<Rightarrow> 16 word list \<Rightarrow> 16 word list \<Rightarrow> ('s, unit) pool_op" where
  "pool_openW lib path layout =
     bindC (lib_call (pmemobj_openW lib path layout)) (\<lambda>pop.
     if pop = 0 then throwC Pool_error else set_pop pop)"

definition pool_createW :: "'s wide_lib \<Rightarrow> 16 word list \<Rightarrow> 16 word list \<Rightarrow> u64 \<Rightarrow> u32 \<Rightarrow> ('s, unit) pool_op" where
  "pool_createW lib path layout sz mode =
     bindC (lib_call (pmemobj_createW lib path layout sz mode)) (\<lambda>pop.
     if pop = 0 then throwC Pool_error else set_pop pop)"

definition pool_checkW :: "'s wide_lib \<Rightarrow> 16 word list \<Rightarrow> 16 word list \<Rightarrow> ('s, int) pool_op" where
  "pool_checkW lib path layout = getC (\<lambda>(pop, s). pmemobj_checkW lib path layout s)"

definition typed_pool_openW :: "'s wide_lib \<Rightarrow> 16 word list \<Rightarrow> 16 word list \<Rightarrow> ('s, unit) pool_op" where
  "typed_pool_openW lib path layout =
     thenC (pool_openW lib path layout) (bindC (getC fst) pool_from_base)"

definition typed_pool_createW :: "'s wide_lib \<Rightarrow> 16 word list \<Rightarrow> 16 word list \<Rightarrow> u64 \<Rightarrow> u32 \<Rightarrow> ('s, unit) pool_op" where
  "typed_pool_createW lib path layout sz mode =
     thenC (pool_createW lib path layout sz mode) (bindC (getC fst) pool_from_base)"

definition typed_pool_checkW :: "'s wide_lib \<Rightarrow> 16 word list \<Rightarrow> 16 word list \<Rightarrow> ('s, int) pool_op" where
  "typed_pool_checkW lib path layout = pool_checkW lib path layout"

text \<open>Where the library treats the code units as it treats the characters they stand for (\<open>enc\<close>), the variants are the functions above.\<close>

lemma wide_variants:
  assumes "\<And>path layout. pmemobj_openW W (enc path) (enc layout) = pmemobj_open lib path layout"
    and "\<And>path layout. pmemobj_createW W (enc path) (enc layout) = pmemobj_create lib path layout"
    and "\<And>path layout. pmemobj_checkW W (enc path) (enc layout) = pmemobj_check lib path layout"
  shows "typed_pool_openW W (enc path) (enc layout) = typed_pool_open lib path layout"
    and "typed_pool_createW W (enc path) (enc layout) sz mode = typed_pool_create lib path layout sz mode"
    and "typed_pool_checkW W (enc path) (enc layout) = typed_pool_check lib path layout"
  using assms
  by (simp_all add: typed_pool_openW_def typed_pool_open_def typed_pool_createW_def typed_pool_create_def typed_pool_checkW_def
      typed_pool_check_def pool_openW_def pool_open_def pool_createW_def pool_create_def pool_checkW_def pool_check_def)

section \<open>utils.hpp\<close>

definition pool_by_vptr :: "'s pool_lib \<Rightarrow> u64 \<Rightarrow> ('s, u64) pool_op" where
  "pool_by_vptr lib that =
     bindC (getC (\<lambda>(pop, s). pmemobj_pool_by_ptr lib that s)) (\<lambda>pop.
     if pop = 0 then throwC Pool_error else returnC pop)"

definition pool_by_pptr :: "'s pool_lib \<Rightarrow> PMEMoid \<Rightarrow> ('s, u64) pool_op" where
  "pool_by_pptr lib ptr =
     bindC (getC (\<lambda>(pop, s). pmemobj_pool_by_oid lib ptr s)) (\<lambda>pop.
     if pop = 0 then throwC Pool_error else returnC pop)"

section \<open>The life of a handle\<close>

text \<open>
  The documented behaviour of \<open>pmemobj_open\<close>, \<open>pmemobj_create\<close> and \<open>pmemobj_close\<close>: a call that succeeds returns
  a handle that was not in use and keeps the others; one that fails returns \<open>NULL\<close>; closing a live handle
  ends exactly that one; a look-up by address or object answers with a live handle or \<open>NULL\<close>.
\<close>

locale pool_library =
  fixes lib :: "'s pool_lib" and live :: "'s \<Rightarrow> u64 set"
  assumes open_fails: "pmemobj_open lib path layout s = (0, s') \<Longrightarrow> live s' = live s"
    and open_fresh: "pmemobj_open lib path layout s = (h, s') \<Longrightarrow> h \<noteq> 0 \<Longrightarrow> h \<notin> live s \<and> live s' = insert h (live s)"
    and create_fails: "pmemobj_create lib path layout sz mode s = (0, s') \<Longrightarrow> live s' = live s"
    and create_fresh: "pmemobj_create lib path layout sz mode s = (h, s') \<Longrightarrow> h \<noteq> 0 \<Longrightarrow> h \<notin> live s \<and> live s' = insert h (live s)"
    and close_live: "h \<in> live s \<Longrightarrow> live (pmemobj_close lib h s) = live s - {h}"
    and by_ptr_live: "pmemobj_pool_by_ptr lib a s \<noteq> 0 \<Longrightarrow> pmemobj_pool_by_ptr lib a s \<in> live s"
    and by_oid_live: "pmemobj_pool_by_oid lib oid s \<noteq> 0 \<Longrightarrow> pmemobj_pool_by_oid lib oid s \<in> live s"
begin

text \<open>Opening by either way gives a live handle, or throws with no handle opened.\<close>

lemma open_run:
  "case pool_open lib path layout (old, s) of
     (Val _, h, s') \<Rightarrow> h \<noteq> 0 \<and> h \<notin> live s \<and> live s' = insert h (live s)
   | (Throw e, h, s') \<Rightarrow> e = Pool_error \<and> h = old \<and> live s' = live s
   | (Die f, h, s') \<Rightarrow> False"
proof (cases "pmemobj_open lib path layout s")
  case (Pair h s')
  then show ?thesis
    by (cases "h = 0")
       (simp_all add: pool_open_def lib_call_def set_pop_def modC_def exec_simps open_fails open_fresh)
qed

lemma create_run:
  "case pool_create lib path layout sz mode (old, s) of
     (Val _, h, s') \<Rightarrow> h \<noteq> 0 \<and> h \<notin> live s \<and> live s' = insert h (live s)
   | (Throw e, h, s') \<Rightarrow> e = Pool_error \<and> h = old \<and> live s' = live s
   | (Die f, h, s') \<Rightarrow> False"
proof (cases "pmemobj_create lib path layout sz mode s")
  case (Pair h s')
  then show ?thesis
    by (cases "h = 0")
       (simp_all add: pool_create_def lib_call_def set_pop_def modC_def exec_simps create_fails create_fresh)
qed

lemma close_run:
  assumes "h \<noteq> 0" and "h \<in> live s"
  shows "pool_close lib (h, s) = (Val (), 0, pmemobj_close lib h s)" and "live (pmemobj_close lib h s) = live s - {h}"
  using assms
  by (simp_all add: pool_close_def lib_proc_def set_pop_def getC_def modC_def exec_simps close_live)

text \<open>A handle that was looked up can be closed, which ends the pool of the object.\<close>

lemma by_vptr_run:
  "case pool_by_vptr lib a (old, s) of
     (Val h, pop, s') \<Rightarrow> h \<in> live s \<and> pop = old \<and> s' = s \<and> live (snd (snd (pool_close lib (h, s)))) = live s - {h}
   | (Throw e, pop, s') \<Rightarrow> e = Pool_error \<and> pop = old \<and> s' = s
   | (Die f, pop, s') \<Rightarrow> False"
  using close_run by (simp add: pool_by_vptr_def getC_def exec_simps by_ptr_live)

lemma by_pptr_run:
  "case pool_by_pptr lib oid (old, s) of
     (Val h, pop, s') \<Rightarrow> h \<in> live s \<and> pop = old \<and> s' = s \<and> live (snd (snd (pool_close lib (h, s)))) = live s - {h}
   | (Throw e, pop, s') \<Rightarrow> e = Pool_error \<and> pop = old \<and> s' = s
   | (Die f, pop, s') \<Rightarrow> False"
  using close_run by (simp add: pool_by_pptr_def getC_def exec_simps by_oid_live)

end

lemma closed_handle:
  "pool_close lib (0, s) = (Throw Logic_error, 0, s)"
  "pool_get_root lib n (0, s) = (Throw Pool_error, 0, s)"
  by (simp_all add: pool_close_def pool_get_root_def getC_def exec_simps)

section \<open>Properties\<close>

text \<open>A pool handle has one life: \<open>create\<close> either throws \<open>pool_error\<close> with no pool opened, or yields a live handle;
  \<open>close\<close> on it ends exactly that pool and clears the handle, after which a second \<open>close\<close> and \<open>get_root\<close> throw and
  leave the library alone. A copy of the handle, however, is not cleared: closing it then calls
  \<open>pmemobj_close\<close> on a pool that is no longer open.\<close>

theorem pool_handle_closed_once:
  assumes "pool_library lib live" and "pool_create lib path layout sz mode (0, s) = (r, h, s1)"
  shows "case r of
      Val _ \<Rightarrow> h \<noteq> 0 \<and> live s1 = insert h (live s) \<and>
        (\<exists>s2. pool_close lib (h, s1) = (Val (), 0, s2) \<and> live s2 = live s \<and>
          pool_close lib (0, s2) = (Throw Logic_error, 0, s2) \<and> pool_get_root lib n (0, s2) = (Throw Pool_error, 0, s2) \<and>
          pool_close lib (h, s2) = (Val (), 0, pmemobj_close lib h s2) \<and> h \<notin> live s2)
    | Throw e \<Rightarrow> e = Pool_error \<and> h = 0 \<and> live s1 = live s
    | Die f \<Rightarrow> False"
proof (cases r)
  case (Val u)
  with assms(2) pool_library.create_run [OF assms(1), where path = path and layout = layout and sz = sz and mode = mode and old = 0 and s = s]
  have h: "h \<noteq> 0" "h \<notin> live s" "live s1 = insert h (live s)" by simp_all
  then have "h \<in> live s1" by simp
  note close = pool_library.close_run [OF assms(1) h(1) this]
  have "live (pmemobj_close lib h s1) = live s" using close(2) h by auto
  moreover have "pool_close lib (h, s2) = (Val (), 0, pmemobj_close lib h s2)" for s2
    using h(1) by (simp add: pool_close_def lib_proc_def set_pop_def getC_def modC_def exec_simps)
  ultimately show ?thesis using h close(1) Val by (simp add: closed_handle)
next
  case (Throw e)
  with assms(2) pool_library.create_run [OF assms(1), where path = path and layout = layout and sz = sz and mode = mode and old = 0 and s = s] show ?thesis by simp
next
  case (Die f)
  with assms(2) pool_library.create_run [OF assms(1), where path = path and layout = layout and sz = sz and mode = mode and old = 0 and s = s] show ?thesis by simp
qed

text \<open>A library whose state is the number of the next handle and the list of live handles.\<close>

definition counting_lib :: "(nat \<times> u64 list) pool_lib" where
  "counting_lib =
     (let fresh = (\<lambda>(n, hs). let h = of_nat (Suc n) in if h \<noteq> 0 \<and> h \<notin> set hs then (h, Suc n, h # hs) else (0, n, hs)) in
      \<lparr>pmemobj_open = (\<lambda>path layout. fresh), pmemobj_create = (\<lambda>path layout sz mode. fresh),
       pmemobj_check = (\<lambda>path layout s. 1), pmemobj_close = (\<lambda>h (n, hs). (n, filter (\<lambda>k. k \<noteq> h) hs)),
       pmemobj_root = (\<lambda>h n s. (PMEMoid h 64, s)), pmemobj_persist = (\<lambda>h a n s. s), pmemobj_flush = (\<lambda>h a n s. s),
       pmemobj_drain = (\<lambda>h s. s), pmemobj_memcpy_persist = (\<lambda>h d src n s. (d, s)), pmemobj_memset_persist = (\<lambda>h d c n s. (d, s)),
       pmemobj_pool_by_ptr = (\<lambda>a (n, hs). case hs of [] \<Rightarrow> 0 | h # _ \<Rightarrow> h),
       pmemobj_pool_by_oid = (\<lambda>oid (n, hs). if pool_uuid_lo oid \<in> set hs then pool_uuid_lo oid else 0)\<rparr>)"

interpretation counting: pool_library counting_lib "\<lambda>(n, hs). set hs"
  by unfold_locales (auto simp: counting_lib_def Let_def split: if_splits prod.splits list.splits)

theorem pool_handle_closed_once_witness:
  "\<exists>s2. pool_create counting_lib ''f'' ''layout'' 8388608 DEFAULT_MODE (0, 0, []) = (Val (), 1, 1, [1]) \<and>
    pool_close counting_lib (1, 1, [1]) = (Val (), 0, s2) \<and> pool_close counting_lib (0, s2) = (Throw Logic_error, 0, s2)"
proof -
  have run: "pool_create counting_lib ''f'' ''layout'' 8388608 DEFAULT_MODE (0, 0, []) = (Val (), 1, 1, [1])"
    by (simp add: pool_create_def counting_lib_def lib_call_def set_pop_def modC_def exec_simps Let_def)
  from pool_handle_closed_once [OF counting.pool_library_axioms run, of 0] run show ?thesis by auto
qed

end
