(* ===== verification/Sync.thy ===== *)
theory Sync
  imports Prelude "HOL-Library.Multiset"
begin

text \<open>
  The persistent synchronisation primitives of libpmemobj++: \<open>mutex.hpp\<close>, \<open>shared_mutex.hpp\<close>,
  \<open>timed_mutex.hpp\<close>, \<open>condition_variable.hpp\<close> and \<open>detail/conversions.hpp\<close>. The C functions of
  \<open>libpmemobj/thread.h\<close> they wrap are the record \<open>sync_lib\<close>, over an arbitrary state \<open>'s\<close> and the
  calling thread; a call of a blocking function stands for the moment at which it returns. An object is
  the address of its lock. Time points are whole nanoseconds since the epoch of their clock; overflow of
  the 64-bit representation of \<open>std::chrono\<close> is left out.
\<close>

section \<open>The library\<close>

type_synonym thread = nat
type_synonym timespec = "int \<times> int"

record 's sync_lib =
  pool_by_ptr :: "u64 \<Rightarrow> u64"
  mutex_zero :: "u64 \<Rightarrow> u64 \<Rightarrow> 's \<Rightarrow> 's"
  mutex_lock :: "u64 \<Rightarrow> thread \<Rightarrow> u64 \<Rightarrow> 's \<Rightarrow> int \<times> 's"
  mutex_timedlock :: "u64 \<Rightarrow> thread \<Rightarrow> u64 \<Rightarrow> timespec \<Rightarrow> 's \<Rightarrow> int \<times> 's"
  mutex_trylock :: "u64 \<Rightarrow> thread \<Rightarrow> u64 \<Rightarrow> 's \<Rightarrow> int \<times> 's"
  mutex_unlock :: "u64 \<Rightarrow> thread \<Rightarrow> u64 \<Rightarrow> 's \<Rightarrow> int \<times> 's"
  rwlock_zero :: "u64 \<Rightarrow> u64 \<Rightarrow> 's \<Rightarrow> 's"
  rwlock_rdlock :: "u64 \<Rightarrow> thread \<Rightarrow> u64 \<Rightarrow> 's \<Rightarrow> int \<times> 's"
  rwlock_wrlock :: "u64 \<Rightarrow> thread \<Rightarrow> u64 \<Rightarrow> 's \<Rightarrow> int \<times> 's"
  rwlock_tryrdlock :: "u64 \<Rightarrow> thread \<Rightarrow> u64 \<Rightarrow> 's \<Rightarrow> int \<times> 's"
  rwlock_trywrlock :: "u64 \<Rightarrow> thread \<Rightarrow> u64 \<Rightarrow> 's \<Rightarrow> int \<times> 's"
  rwlock_unlock :: "u64 \<Rightarrow> thread \<Rightarrow> u64 \<Rightarrow> 's \<Rightarrow> int \<times> 's"
  cond_zero :: "u64 \<Rightarrow> u64 \<Rightarrow> 's \<Rightarrow> 's"
  cond_broadcast :: "u64 \<Rightarrow> u64 \<Rightarrow> 's \<Rightarrow> int \<times> 's"
  cond_signal :: "u64 \<Rightarrow> u64 \<Rightarrow> 's \<Rightarrow> int \<times> 's"
  cond_timedwait :: "u64 \<Rightarrow> thread \<Rightarrow> u64 \<Rightarrow> u64 \<Rightarrow> timespec \<Rightarrow> 's \<Rightarrow> int \<times> 's"
  cond_wait :: "u64 \<Rightarrow> thread \<Rightarrow> u64 \<Rightarrow> u64 \<Rightarrow> 's \<Rightarrow> int \<times> 's"

definition EBUSY :: int where "EBUSY = 16"
definition ETIMEDOUT :: int where "ETIMEDOUT = 110"

definition call :: "('s \<Rightarrow> 'a \<times> 's) \<Rightarrow> ('s, 'a) cpp" where
  "call f = (\<lambda>s. let (x, s') = f s in (Val x, s'))"

text \<open>The three ways in which the wrappers treat a return code.\<close>

definition or_throw :: "('s \<Rightarrow> int \<times> 's) \<Rightarrow> ('s, unit) cpp" where
  "or_throw f = bindC (call f) (\<lambda>ret. if ret \<noteq> 0 then throwC Lock_error else returnC ())"

definition try_result :: "int \<Rightarrow> ('s \<Rightarrow> int \<times> 's) \<Rightarrow> ('s, bool) cpp" where
  "try_result busy f = bindC (call f) (\<lambda>ret.
     if ret = 0 then returnC True else if ret = busy then returnC False else throwC Lock_error)"

definition ignore_result :: "('s \<Rightarrow> int \<times> 's) \<Rightarrow> ('s, unit) cpp" where
  "ignore_result f = bindC (call f) (\<lambda>_. returnC ())"

section \<open>Time\<close>

text \<open>\<open>duration_cast\<close> to seconds truncates towards zero.\<close>

definition timepoint_to_timespec :: "int \<Rightarrow> timespec" where
  "timepoint_to_timespec tp =
     (let sec = sgn tp * (\<bar>tp\<bar> div 1000000000) in (sec, tp - sec * 1000000000))"

text \<open>The conversion of a time point of another clock to the system clock.\<close>

definition to_my_clock :: "int \<Rightarrow> int \<Rightarrow> int \<Rightarrow> int" where
  "to_my_clock their_now my_now abs_time = (let delta = abs_time - their_now in my_now + delta)"

section \<open>mutex\<close>

definition mutex_ctor :: "'s sync_lib \<Rightarrow> u64 \<Rightarrow> ('s, unit) cpp" where
  "mutex_ctor lib l =
     (let pop = pool_by_ptr lib l in
      if pop = 0 then throwC Lock_error else modC (mutex_zero lib pop l))"

definition mutex_lock_op :: "'s sync_lib \<Rightarrow> thread \<Rightarrow> u64 \<Rightarrow> ('s, unit) cpp" where
  "mutex_lock_op lib t l = or_throw (mutex_lock lib (pool_by_ptr lib l) t l)"

definition mutex_try_lock :: "'s sync_lib \<Rightarrow> thread \<Rightarrow> u64 \<Rightarrow> ('s, bool) cpp" where
  "mutex_try_lock lib t l = try_result EBUSY (mutex_trylock lib (pool_by_ptr lib l) t l)"

definition mutex_unlock_op :: "'s sync_lib \<Rightarrow> thread \<Rightarrow> u64 \<Rightarrow> ('s, unit) cpp" where
  "mutex_unlock_op lib t l = ignore_result (mutex_unlock lib (pool_by_ptr lib l) t l)"

section \<open>shared\_mutex\<close>

definition shared_ctor :: "'s sync_lib \<Rightarrow> u64 \<Rightarrow> ('s, unit) cpp" where
  "shared_ctor lib l =
     (let pop = pool_by_ptr lib l in
      if pop = 0 then throwC Lock_error else modC (rwlock_zero lib pop l))"

definition shared_lock :: "'s sync_lib \<Rightarrow> thread \<Rightarrow> u64 \<Rightarrow> ('s, unit) cpp" where
  "shared_lock lib t l = or_throw (rwlock_wrlock lib (pool_by_ptr lib l) t l)"

definition shared_lock_shared :: "'s sync_lib \<Rightarrow> thread \<Rightarrow> u64 \<Rightarrow> ('s, unit) cpp" where
  "shared_lock_shared lib t l = or_throw (rwlock_rdlock lib (pool_by_ptr lib l) t l)"

definition shared_try_lock :: "'s sync_lib \<Rightarrow> thread \<Rightarrow> u64 \<Rightarrow> ('s, bool) cpp" where
  "shared_try_lock lib t l = try_result EBUSY (rwlock_trywrlock lib (pool_by_ptr lib l) t l)"

definition shared_try_lock_shared :: "'s sync_lib \<Rightarrow> thread \<Rightarrow> u64 \<Rightarrow> ('s, bool) cpp" where
  "shared_try_lock_shared lib t l = try_result EBUSY (rwlock_tryrdlock lib (pool_by_ptr lib l) t l)"

definition shared_unlock :: "'s sync_lib \<Rightarrow> thread \<Rightarrow> u64 \<Rightarrow> ('s, unit) cpp" where
  "shared_unlock lib t l = ignore_result (rwlock_unlock lib (pool_by_ptr lib l) t l)"

definition shared_unlock_shared :: "'s sync_lib \<Rightarrow> thread \<Rightarrow> u64 \<Rightarrow> ('s, unit) cpp" where
  "shared_unlock_shared lib t l = shared_unlock lib t l"

section \<open>timed\_mutex\<close>

definition timed_ctor :: "'s sync_lib \<Rightarrow> u64 \<Rightarrow> ('s, unit) cpp" where
  "timed_ctor lib l =
     (let pop = pool_by_ptr lib l in
      if pop = 0 then throwC Lock_error else modC (mutex_zero lib pop l))"

definition timed_lock :: "'s sync_lib \<Rightarrow> thread \<Rightarrow> u64 \<Rightarrow> ('s, unit) cpp" where
  "timed_lock lib t l = or_throw (mutex_lock lib (pool_by_ptr lib l) t l)"

definition timed_try_lock :: "'s sync_lib \<Rightarrow> thread \<Rightarrow> u64 \<Rightarrow> ('s, bool) cpp" where
  "timed_try_lock lib t l = try_result EBUSY (mutex_trylock lib (pool_by_ptr lib l) t l)"

definition timedlock_impl :: "'s sync_lib \<Rightarrow> thread \<Rightarrow> u64 \<Rightarrow> int \<Rightarrow> int \<Rightarrow> int \<Rightarrow> ('s, bool) cpp" where
  "timedlock_impl lib t l their_now my_now abs_time =
     (let ts = timepoint_to_timespec (to_my_clock their_now my_now abs_time) in
      try_result ETIMEDOUT (mutex_timedlock lib (pool_by_ptr lib l) t l ts))"

definition timed_try_lock_until :: "'s sync_lib \<Rightarrow> thread \<Rightarrow> u64 \<Rightarrow> int \<Rightarrow> int \<Rightarrow> int \<Rightarrow> ('s, bool) cpp" where
  "timed_try_lock_until lib t l their_now my_now timeout_time = timedlock_impl lib t l their_now my_now timeout_time"

definition timed_try_lock_for :: "'s sync_lib \<Rightarrow> thread \<Rightarrow> u64 \<Rightarrow> int \<Rightarrow> int \<Rightarrow> int \<Rightarrow> int \<Rightarrow> ('s, bool) cpp" where
  "timed_try_lock_for lib t l now their_now my_now timeout_duration =
     timedlock_impl lib t l their_now my_now (now + timeout_duration)"

definition timed_unlock :: "'s sync_lib \<Rightarrow> thread \<Rightarrow> u64 \<Rightarrow> ('s, unit) cpp" where
  "timed_unlock lib t l = ignore_result (mutex_unlock lib (pool_by_ptr lib l) t l)"

section \<open>condition\_variable\<close>

datatype cv_status = no_timeout | timeout

definition cond_ctor :: "'s sync_lib \<Rightarrow> u64 \<Rightarrow> ('s, unit) cpp" where
  "cond_ctor lib c =
     (let pop = pool_by_ptr lib c in
      if pop = 0 then throwC Lock_error else modC (cond_zero lib pop c))"

definition notify_one :: "'s sync_lib \<Rightarrow> u64 \<Rightarrow> ('s, unit) cpp" where
  "notify_one lib c = or_throw (cond_signal lib (pool_by_ptr lib c) c)"

definition notify_all :: "'s sync_lib \<Rightarrow> u64 \<Rightarrow> ('s, unit) cpp" where
  "notify_all lib c = or_throw (cond_broadcast lib (pool_by_ptr lib c) c)"

definition wait_impl :: "'s sync_lib \<Rightarrow> thread \<Rightarrow> u64 \<Rightarrow> u64 \<Rightarrow> ('s, unit) cpp" where
  "wait_impl lib t c l = or_throw (cond_wait lib (pool_by_ptr lib c) t c l)"

text \<open>The loops with a predicate may not end: \<open>None\<close> is a loop that runs forever.\<close>

partial_function (option) wait_pred :: "('s, bool) cpp \<Rightarrow> ('s, unit) cpp \<Rightarrow> 's \<Rightarrow> (unit outcome \<times> 's) option" where
  "wait_pred pred wait s = (case pred s of
     (Val b, s') \<Rightarrow>
       if b then Some (Val (), s')
       else (case wait s' of
          (Val _, s'') \<Rightarrow> wait_pred pred wait s''
        | (Throw e, s'') \<Rightarrow> Some (Throw e, s'')
        | (Die f, s'') \<Rightarrow> Some (Die f, s''))
   | (Throw e, s') \<Rightarrow> Some (Throw e, s')
   | (Die f, s') \<Rightarrow> Some (Die f, s'))"

definition wait_impl_pred :: "'s sync_lib \<Rightarrow> thread \<Rightarrow> u64 \<Rightarrow> u64 \<Rightarrow> ('s, bool) cpp \<Rightarrow> 's \<Rightarrow> (unit outcome \<times> 's) option" where
  "wait_impl_pred lib t c l pred = wait_pred pred (wait_impl lib t c l)"

definition wait_until_impl :: "'s sync_lib \<Rightarrow> thread \<Rightarrow> u64 \<Rightarrow> u64 \<Rightarrow> int \<Rightarrow> int \<Rightarrow> int \<Rightarrow> ('s, cv_status) cpp" where
  "wait_until_impl lib t c l their_now my_now abs_timeout =
     (let ts = timepoint_to_timespec (to_my_clock their_now my_now abs_timeout) in
      bindC (call (cond_timedwait lib (pool_by_ptr lib c) t c l ts)) (\<lambda>ret.
      if ret = 0 then returnC no_timeout else if ret = ETIMEDOUT then returnC timeout else throwC Lock_error))"

partial_function (option) wait_until_pred ::
  "('s, bool) cpp \<Rightarrow> ('s, cv_status) cpp \<Rightarrow> 's \<Rightarrow> (bool outcome \<times> 's) option" where
  "wait_until_pred pred wait s = (case pred s of
     (Val b, s') \<Rightarrow>
       if b then Some (Val True, s')
       else (case wait s' of
          (Val st, s'') \<Rightarrow> if st = timeout then Some (pred s'') else wait_until_pred pred wait s''
        | (Throw e, s'') \<Rightarrow> Some (Throw e, s'')
        | (Die f, s'') \<Rightarrow> Some (Die f, s''))
   | (Throw e, s') \<Rightarrow> Some (Throw e, s')
   | (Die f, s') \<Rightarrow> Some (Die f, s'))"

text \<open>The clocks move while the loop runs: \<open>clocks\<close> reads both from the state.\<close>

definition wait_until_impl_pred ::
  "'s sync_lib \<Rightarrow> thread \<Rightarrow> u64 \<Rightarrow> u64 \<Rightarrow> ('s \<Rightarrow> int \<times> int) \<Rightarrow> int \<Rightarrow> ('s, bool) cpp \<Rightarrow> 's \<Rightarrow> (bool outcome \<times> 's) option" where
  "wait_until_impl_pred lib t c l clocks abs_timeout pred =
     wait_until_pred pred (bindC (getC clocks) (\<lambda>(their_now, my_now). wait_until_impl lib t c l their_now my_now abs_timeout))"

definition wait_for :: "'s sync_lib \<Rightarrow> thread \<Rightarrow> u64 \<Rightarrow> u64 \<Rightarrow> int \<Rightarrow> int \<Rightarrow> int \<Rightarrow> int \<Rightarrow> ('s, cv_status) cpp" where
  "wait_for lib t c l now their_now my_now rel_time = wait_until_impl lib t c l their_now my_now (now + rel_time)"

definition wait_for_pred ::
  "'s sync_lib \<Rightarrow> thread \<Rightarrow> u64 \<Rightarrow> u64 \<Rightarrow> int \<Rightarrow> ('s \<Rightarrow> int \<times> int) \<Rightarrow> int \<Rightarrow> ('s, bool) cpp \<Rightarrow> 's \<Rightarrow> (bool outcome \<times> 's) option" where
  "wait_for_pred lib t c l now clocks rel_time pred = wait_until_impl_pred lib t c l clocks (now + rel_time) pred"

text \<open>
  The public members: each takes the mutex itself, or a lock object such as \<open>std::unique_lock\<close> whose \<open>mutex()\<close>
  is the mutex. The deadlines of \<open>wait_for\<close> are relative to \<open>now\<close>, the reading of the system clock in the call.
\<close>

record lock_object =
  lock_mutex :: u64

definition wait_mutex :: "'s sync_lib \<Rightarrow> thread \<Rightarrow> u64 \<Rightarrow> u64 \<Rightarrow> ('s, unit) cpp" where
  "wait_mutex lib t c lk = wait_impl lib t c lk"

definition wait_lock :: "'s sync_lib \<Rightarrow> thread \<Rightarrow> u64 \<Rightarrow> lock_object \<Rightarrow> ('s, unit) cpp" where
  "wait_lock lib t c lk = wait_impl lib t c (lock_mutex lk)"

definition wait_mutex_pred :: "'s sync_lib \<Rightarrow> thread \<Rightarrow> u64 \<Rightarrow> u64 \<Rightarrow> ('s, bool) cpp \<Rightarrow> 's \<Rightarrow> (unit outcome \<times> 's) option" where
  "wait_mutex_pred lib t c lk pred = wait_impl_pred lib t c lk pred"

definition wait_lock_pred :: "'s sync_lib \<Rightarrow> thread \<Rightarrow> u64 \<Rightarrow> lock_object \<Rightarrow> ('s, bool) cpp \<Rightarrow> 's \<Rightarrow> (unit outcome \<times> 's) option" where
  "wait_lock_pred lib t c lk pred = wait_impl_pred lib t c (lock_mutex lk) pred"

definition wait_until_mutex :: "'s sync_lib \<Rightarrow> thread \<Rightarrow> u64 \<Rightarrow> u64 \<Rightarrow> int \<Rightarrow> int \<Rightarrow> int \<Rightarrow> ('s, cv_status) cpp" where
  "wait_until_mutex lib t c lk their_now my_now abs_timeout = wait_until_impl lib t c lk their_now my_now abs_timeout"

definition wait_until_lock :: "'s sync_lib \<Rightarrow> thread \<Rightarrow> u64 \<Rightarrow> lock_object \<Rightarrow> int \<Rightarrow> int \<Rightarrow> int \<Rightarrow> ('s, cv_status) cpp" where
  "wait_until_lock lib t c lk their_now my_now abs_timeout =
     wait_until_impl lib t c (lock_mutex lk) their_now my_now abs_timeout"

definition wait_until_mutex_pred ::
  "'s sync_lib \<Rightarrow> thread \<Rightarrow> u64 \<Rightarrow> u64 \<Rightarrow> ('s \<Rightarrow> int \<times> int) \<Rightarrow> int \<Rightarrow> ('s, bool) cpp \<Rightarrow> 's \<Rightarrow> (bool outcome \<times> 's) option" where
  "wait_until_mutex_pred lib t c lk clocks abs_timeout pred = wait_until_impl_pred lib t c lk clocks abs_timeout pred"

definition wait_until_lock_pred ::
  "'s sync_lib \<Rightarrow> thread \<Rightarrow> u64 \<Rightarrow> lock_object \<Rightarrow> ('s \<Rightarrow> int \<times> int) \<Rightarrow> int \<Rightarrow> ('s, bool) cpp \<Rightarrow> 's \<Rightarrow> (bool outcome \<times> 's) option" where
  "wait_until_lock_pred lib t c lk clocks abs_timeout pred =
     wait_until_impl_pred lib t c (lock_mutex lk) clocks abs_timeout pred"

definition wait_for_lock :: "'s sync_lib \<Rightarrow> thread \<Rightarrow> u64 \<Rightarrow> lock_object \<Rightarrow> int \<Rightarrow> int \<Rightarrow> int \<Rightarrow> int \<Rightarrow> ('s, cv_status) cpp" where
  "wait_for_lock lib t c lk now their_now my_now rel_time =
     wait_until_impl lib t c (lock_mutex lk) their_now my_now (now + rel_time)"

definition wait_for_lock_pred ::
  "'s sync_lib \<Rightarrow> thread \<Rightarrow> u64 \<Rightarrow> lock_object \<Rightarrow> int \<Rightarrow> ('s \<Rightarrow> int \<times> int) \<Rightarrow> int \<Rightarrow> ('s, bool) cpp \<Rightarrow> 's \<Rightarrow> (bool outcome \<times> 's) option" where
  "wait_for_lock_pred lib t c lk now clocks rel_time pred =
     wait_until_impl_pred lib t c (lock_mutex lk) clocks (now + rel_time) pred"

section \<open>Waiting with a predicate\<close>

text \<open>\<open>wait_rounds n\<close>: the state after \<open>n\<close> rounds in which the predicate was false and the wait returned.\<close>

fun wait_rounds :: "('s, bool) cpp \<Rightarrow> ('s, unit) cpp \<Rightarrow> nat \<Rightarrow> 's \<Rightarrow> 's option" where
  "wait_rounds pred wait 0 s = Some s"
| "wait_rounds pred wait (Suc n) s = (case pred s of
     (Val b, s') \<Rightarrow> if b then None else (case wait s' of (Val _, s'') \<Rightarrow> wait_rounds pred wait n s'' | _ \<Rightarrow> None)
   | _ \<Rightarrow> None)"

text \<open>How the loop ends in the round that starts in \<open>s\<close>: the predicate is true, or it or the wait fails.\<close>

definition wait_ends :: "('s, bool) cpp \<Rightarrow> ('s, unit) cpp \<Rightarrow> 's \<Rightarrow> unit outcome \<times> 's \<Rightarrow> bool" where
  "wait_ends pred wait s y \<longleftrightarrow> (case pred s of
     (Val b, s1) \<Rightarrow>
       if b then y = (Val (), s1)
       else (case wait s1 of (Val _, s2) \<Rightarrow> False | (Throw e, s2) \<Rightarrow> y = (Throw e, s2) | (Die f, s2) \<Rightarrow> y = (Die f, s2))
   | (Throw e, s1) \<Rightarrow> y = (Throw e, s1)
   | (Die f, s1) \<Rightarrow> y = (Die f, s1))"

lemma wait_pred_rounds:
  assumes "wait_pred pred wait s = Some y"
  shows "\<exists>n sn. wait_rounds pred wait n s = Some sn \<and> wait_ends pred wait sn y"
  using assms
proof (rule wait_pred.raw_induct [where P = "\<lambda>pred wait s y.
    \<exists>n sn. wait_rounds pred wait n s = Some sn \<and> wait_ends pred wait sn y", rotated])
  fix W :: "('a, bool) cpp \<Rightarrow> ('a, unit) cpp \<Rightarrow> 'a \<Rightarrow> (unit outcome \<times> 'a) option"
    and pred :: "('a, bool) cpp" and wait :: "('a, unit) cpp" and s y
  assume IH: "\<And>pred wait s y. W pred wait s = Some y \<Longrightarrow> \<exists>n sn. wait_rounds pred wait n s = Some sn \<and> wait_ends pred wait sn y"
    and body: "(case pred s of
     (Val b, s') \<Rightarrow>
       if b then Some (Val (), s')
       else (case wait s' of
          (Val _, s'') \<Rightarrow> W pred wait s''
        | (Throw e, s'') \<Rightarrow> Some (Throw e, s'')
        | (Die f, s'') \<Rightarrow> Some (Die f, s''))
   | (Throw e, s') \<Rightarrow> Some (Throw e, s')
   | (Die f, s') \<Rightarrow> Some (Die f, s')) = Some y"
  show "\<exists>n sn. wait_rounds pred wait n s = Some sn \<and> wait_ends pred wait sn y"
  proof (cases "wait_ends pred wait s y")
    case True
    then have "wait_rounds pred wait 0 s = Some s \<and> wait_ends pred wait s y" by simp
    then show ?thesis by blast
  next
    case False
    with body obtain s1 s2 where more: "pred s = (Val False, s1)" "wait s1 = (Val (), s2)" "W pred wait s2 = Some y"
      by (auto simp: wait_ends_def split: prod.splits outcome.splits if_splits)
    from IH [OF more(3)] obtain n sn where "wait_rounds pred wait n s2 = Some sn" "wait_ends pred wait sn y" by blast
    then have "wait_rounds pred wait (Suc n) s = Some sn \<and> wait_ends pred wait sn y" using more by simp
    then show ?thesis by blast
  qed
qed

lemma rounds_wait_pred:
  "wait_rounds pred wait n s = Some sn \<Longrightarrow> wait_ends pred wait sn y \<Longrightarrow> wait_pred pred wait s = Some y"
proof (induction n arbitrary: s)
  case 0
  then show ?case
    by (subst wait_pred.simps) (auto simp: wait_ends_def split: prod.splits outcome.splits if_splits)
next
  case (Suc n)
  then show ?case
    by (subst wait_pred.simps) (auto split: prod.splits outcome.splits if_splits)
qed

text \<open>
  What \<open>thread.h\<close> offers for waiting: the caller owns the mutex, which is released during the wait and acquired again before the call
  returns 0.
\<close>

locale cond_library =
  fixes lib :: "'s sync_lib" and owner :: "'s \<Rightarrow> u64 \<Rightarrow> thread option"
  assumes reacquired: "owner s l = Some t \<Longrightarrow> cond_wait lib pop t c l s = (0, s') \<Longrightarrow> owner s' l = Some t"

text \<open>\<open>cond_rounds n\<close>: the predicate was false and \<open>pmemobj_cond_wait\<close> on the condition \<open>c\<close> and the mutex \<open>l\<close> returned 0, \<open>n\<close> times.\<close>

fun cond_rounds :: "'s sync_lib \<Rightarrow> thread \<Rightarrow> u64 \<Rightarrow> u64 \<Rightarrow> ('s, bool) cpp \<Rightarrow> nat \<Rightarrow> 's \<Rightarrow> 's option" where
  "cond_rounds lib t c l pred 0 s = Some s"
| "cond_rounds lib t c l pred (Suc n) s = (case pred s of
     (Val False, s1) \<Rightarrow> (case cond_wait lib (pool_by_ptr lib c) t c l s1 of
        (e, s2) \<Rightarrow> if e = 0 then cond_rounds lib t c l pred n s2 else None)
   | _ \<Rightarrow> None)"

lemma wait_impl_run:
  "wait_impl lib t c l s = (case cond_wait lib (pool_by_ptr lib c) t c l s of (e, s') \<Rightarrow> (if e = 0 then Val () else Throw Lock_error, s'))"
  by (simp add: wait_impl_def or_throw_def call_def exec_simps split: prod.split)

lemma wait_rounds_cond: "wait_rounds pred (wait_impl lib t c l) n s = cond_rounds lib t c l pred n s"
  by (induction n arbitrary: s) (auto simp: wait_impl_run split: prod.splits outcome.splits bool.splits)

lemma wait_ends_cond:
  "wait_ends pred (wait_impl lib t c l) s (Val (), s') \<longleftrightarrow> pred s = (Val True, s')"
  "wait_ends pred (wait_impl lib t c l) s (Throw x, s') \<longleftrightarrow> pred s = (Throw x, s') \<or>
     (\<exists>s1 e. pred s = (Val False, s1) \<and> cond_wait lib (pool_by_ptr lib c) t c l s1 = (e, s') \<and> e \<noteq> 0 \<and> x = Lock_error)"
  by (auto simp: wait_ends_def wait_impl_run split: prod.splits outcome.splits if_splits)

lemma wait_impl_pred_iff:
  "wait_impl_pred lib t c l pred s = Some y \<longleftrightarrow>
     (\<exists>n sn. cond_rounds lib t c l pred n s = Some sn \<and> wait_ends pred (wait_impl lib t c l) sn y)"
  unfolding wait_impl_pred_def wait_rounds_cond [symmetric]
  by (rule iffI, erule wait_pred_rounds, elim exE conjE, erule (1) rounds_wait_pred)

context cond_library
begin

lemma rounds_own:
  assumes "owner s l = Some t" and "\<And>s r s'. owner s l = Some t \<Longrightarrow> pred s = (r, s') \<Longrightarrow> owner s' l = Some t"
    and "cond_rounds lib t c l pred n s = Some sn"
  shows "owner sn l = Some t"
  using assms(1,3)
proof (induction n arbitrary: s)
  case (Suc n)
  then obtain s1 s2 where "pred s = (Val False, s1)" "cond_wait lib (pool_by_ptr lib c) t c l s1 = (0, s2)"
    "cond_rounds lib t c l pred n s2 = Some sn" by (auto split: prod.splits outcome.splits bool.splits if_splits)
  with Suc assms(2) reacquired show ?case by metis
qed simp

end

lemma wait_until_pred_result:
  assumes "wait_until_pred pred wait s = Some y"
  shows "(\<exists>b. fst y = Val b) \<longrightarrow> (\<exists>s0. pred s0 = y)"
  using assms
proof (rule wait_until_pred.raw_induct [where P = "\<lambda>pred wait s y. (\<exists>b. fst y = Val b) \<longrightarrow> (\<exists>s0. pred s0 = y)", rotated])
  fix W :: "('a, bool) cpp \<Rightarrow> ('a, cv_status) cpp \<Rightarrow> 'a \<Rightarrow> (bool outcome \<times> 'a) option"
    and pred :: "('a, bool) cpp" and wait :: "('a, cv_status) cpp" and s y
  assume IH: "\<And>pred wait s y. W pred wait s = Some y \<Longrightarrow> (\<exists>b. fst y = Val b) \<longrightarrow> (\<exists>s0. pred s0 = y)"
    and body: "(case pred s of
     (Val b, s') \<Rightarrow>
       if b then Some (Val True, s')
       else (case wait s' of
          (Val st, s'') \<Rightarrow> if st = timeout then Some (pred s'') else W pred wait s''
        | (Throw e, s'') \<Rightarrow> Some (Throw e, s'')
        | (Die f, s'') \<Rightarrow> Some (Die f, s''))
   | (Throw e, s') \<Rightarrow> Some (Throw e, s')
   | (Die f, s') \<Rightarrow> Some (Die f, s')) = Some y"
  show "(\<exists>b. fst y = Val b) \<longrightarrow> (\<exists>s0. pred s0 = y)"
    using body IH by (auto split: prod.splits outcome.splits if_splits)
qed

section \<open>Readers and writers\<close>

text \<open>
  The documented behaviour of the read-write locks: who holds a lock, and what a call that returns 0 or an error
  does to that. A try-lock returns \<open>EBUSY\<close> only for a lock that is held. Nothing is said of a thread that locks a mutex which it
  already owns, but for a reader that locks it for reading once more. An unlock releases what the calling thread holds.
\<close>

definition write_result ::
  "('s \<Rightarrow> u64 \<Rightarrow> thread option) \<Rightarrow> ('s \<Rightarrow> u64 \<Rightarrow> thread multiset) \<Rightarrow> thread \<Rightarrow> u64 \<Rightarrow> int \<Rightarrow> 's \<Rightarrow> 's \<Rightarrow> bool" where
  "write_result writer readers t l e s s' \<longleftrightarrow>
     (if e = 0 then writer s l = None \<and> readers s l = {#} \<and> writer s' = (writer s)(l := Some t) \<and> readers s' = readers s
      else writer s' = writer s \<and> readers s' = readers s)"

definition read_result ::
  "('s \<Rightarrow> u64 \<Rightarrow> thread option) \<Rightarrow> ('s \<Rightarrow> u64 \<Rightarrow> thread multiset) \<Rightarrow> thread \<Rightarrow> u64 \<Rightarrow> int \<Rightarrow> 's \<Rightarrow> 's \<Rightarrow> bool" where
  "read_result writer readers t l e s s' \<longleftrightarrow>
     (if e = 0 then writer s l = None \<and> writer s' = writer s \<and> readers s' = (readers s)(l := add_mset t (readers s l))
      else writer s' = writer s \<and> readers s' = readers s)"

locale rwlock_library =
  fixes lib :: "'s sync_lib" and writer :: "'s \<Rightarrow> u64 \<Rightarrow> thread option" and readers :: "'s \<Rightarrow> u64 \<Rightarrow> thread multiset"
  assumes wrlock: "writer s l \<noteq> Some t \<Longrightarrow> t \<notin># readers s l \<Longrightarrow> rwlock_wrlock lib pop t l s = (e, s') \<Longrightarrow>
      write_result writer readers t l e s s'"
    and trywrlock: "writer s l \<noteq> Some t \<Longrightarrow> t \<notin># readers s l \<Longrightarrow> rwlock_trywrlock lib pop t l s = (e, s') \<Longrightarrow>
      write_result writer readers t l e s s' \<and> (e = EBUSY \<longrightarrow> writer s l \<noteq> None \<or> readers s l \<noteq> {#})"
    and rdlock: "writer s l \<noteq> Some t \<Longrightarrow> rwlock_rdlock lib pop t l s = (e, s') \<Longrightarrow> read_result writer readers t l e s s'"
    and tryrdlock: "writer s l \<noteq> Some t \<Longrightarrow> t \<notin># readers s l \<Longrightarrow> rwlock_tryrdlock lib pop t l s = (e, s') \<Longrightarrow>
      read_result writer readers t l e s s' \<and> (e = EBUSY \<longrightarrow> writer s l \<noteq> None)"
    and unlock_writer: "writer s l = Some t \<Longrightarrow> rwlock_unlock lib pop t l s = (e, s') \<Longrightarrow>
      writer s' = (writer s)(l := None) \<and> readers s' = readers s"
    and unlock_reader: "writer s l = None \<Longrightarrow> t \<in># readers s l \<Longrightarrow> rwlock_unlock lib pop t l s = (e, s') \<Longrightarrow>
      writer s' = writer s \<and> readers s' = (readers s)(l := readers s l - {#t#})"

datatype sm_op = Lock | Lock_shared | Try_lock | Try_lock_shared | Unlock | Unlock_shared

fun sm_run :: "'s sync_lib \<Rightarrow> u64 \<Rightarrow> thread \<Rightarrow> sm_op \<Rightarrow> 's \<Rightarrow> bool outcome \<times> 's" where
  "sm_run lib l t Lock = thenC (shared_lock lib t l) (returnC True)"
| "sm_run lib l t Lock_shared = thenC (shared_lock_shared lib t l) (returnC True)"
| "sm_run lib l t Try_lock = shared_try_lock lib t l"
| "sm_run lib l t Try_lock_shared = shared_try_lock_shared lib t l"
| "sm_run lib l t Unlock = thenC (shared_unlock lib t l) (returnC True)"
| "sm_run lib l t Unlock_shared = thenC (shared_unlock_shared lib t l) (returnC True)"

text \<open>
  What the threads themselves can tell: who holds the mutex according to the calls so far and their results. The header defines a call
  only for threads that do not own the mutex yet (a shared lock may be repeated), and an unlock only in the mode in which the
  thread holds it.
\<close>

type_synonym holding = "thread option \<times> thread multiset"

fun holding_after :: "thread \<Rightarrow> sm_op \<Rightarrow> bool outcome \<Rightarrow> holding \<Rightarrow> holding" where
  "holding_after t op (Val True) (w, rs) = (case op of
     Lock \<Rightarrow> (Some t, rs) | Try_lock \<Rightarrow> (Some t, rs)
   | Lock_shared \<Rightarrow> (w, add_mset t rs) | Try_lock_shared \<Rightarrow> (w, add_mset t rs)
   | Unlock \<Rightarrow> (None, rs) | Unlock_shared \<Rightarrow> (w, rs - {#t#}))"
| "holding_after t op r h = h"

fun permitted :: "thread \<Rightarrow> sm_op \<Rightarrow> holding \<Rightarrow> bool" where
  "permitted t Unlock (w, rs) \<longleftrightarrow> w = Some t"
| "permitted t Unlock_shared (w, rs) \<longleftrightarrow> t \<in># rs"
| "permitted t Lock_shared (w, rs) \<longleftrightarrow> w \<noteq> Some t"
| "permitted t op (w, rs) \<longleftrightarrow> w \<noteq> Some t \<and> t \<notin># rs"

text \<open>The results an operation may have: success only when no thread holds the mutex in a conflicting mode, \<open>false\<close> only when one does.\<close>

fun may_return :: "sm_op \<Rightarrow> bool outcome \<Rightarrow> holding \<Rightarrow> bool" where
  "may_return op (Val True) (w, rs) = (case op of
     Lock \<Rightarrow> w = None \<and> rs = {#} | Try_lock \<Rightarrow> w = None \<and> rs = {#}
   | Lock_shared \<Rightarrow> w = None | Try_lock_shared \<Rightarrow> w = None | Unlock \<Rightarrow> True | Unlock_shared \<Rightarrow> True)"
| "may_return op (Val False) (w, rs) = (case op of
     Try_lock \<Rightarrow> w \<noteq> None \<or> rs \<noteq> {#} | Try_lock_shared \<Rightarrow> w \<noteq> None | _ \<Rightarrow> False)"
| "may_return op (Throw e) h = (e = Lock_error \<and> op \<in> {Lock, Lock_shared, Try_lock, Try_lock_shared})"
| "may_return op (Die f) h = False"

inductive sm_reach :: "'s sync_lib \<Rightarrow> u64 \<Rightarrow> 's \<Rightarrow> 's \<Rightarrow> holding \<Rightarrow> bool" for lib l s0 where
  sm_start: "sm_reach lib l s0 s0 (None, {#})"
| sm_step: "sm_reach lib l s0 s h \<Longrightarrow> permitted t op h \<Longrightarrow> sm_run lib l t op s = (r, s') \<Longrightarrow>
    sm_reach lib l s0 s' (holding_after t op r h)"

context rwlock_library
begin

text \<open>One call keeps the library and the threads in agreement.\<close>

lemma step_holding:
  assumes run: "sm_run lib l t op s = (r, s')" and ok: "permitted t op (writer s l, readers s l)"
    and excl: "writer s l = None \<or> readers s l = {#}"
  shows "holding_after t op r (writer s l, readers s l) = (writer s' l, readers s' l) \<and>
    (writer s' l = None \<or> readers s' l = {#}) \<and> may_return op r (writer s l, readers s l)"
proof -
  let ?p = "pool_by_ptr lib l"
  note defs = thenC_def bindC_def returnC_def throwC_def or_throw_def try_result_def ignore_result_def call_def Let_def
    shared_lock_def shared_lock_shared_def shared_try_lock_def shared_try_lock_shared_def shared_unlock_def shared_unlock_shared_def
    write_result_def read_result_def
  show ?thesis
  proof (cases op)
    case Lock
    obtain e s1 where f: "rwlock_wrlock lib ?p t l s = (e, s1)" by (cases "rwlock_wrlock lib ?p t l s")
    with Lock run ok excl wrlock [OF _ _ f] show ?thesis by (auto simp: defs split: if_splits)
  next
    case Lock_shared
    obtain e s1 where f: "rwlock_rdlock lib ?p t l s = (e, s1)" by (cases "rwlock_rdlock lib ?p t l s")
    with Lock_shared run ok excl rdlock [OF _ f] show ?thesis by (auto simp: defs split: if_splits)
  next
    case Try_lock
    obtain e s1 where f: "rwlock_trywrlock lib ?p t l s = (e, s1)" by (cases "rwlock_trywrlock lib ?p t l s")
    with Try_lock run ok excl trywrlock [OF _ _ f] show ?thesis by (auto simp: defs split: if_splits)
  next
    case Try_lock_shared
    obtain e s1 where f: "rwlock_tryrdlock lib ?p t l s = (e, s1)" by (cases "rwlock_tryrdlock lib ?p t l s")
    with Try_lock_shared run ok excl tryrdlock [OF _ _ f] show ?thesis by (auto simp: defs split: if_splits)
  next
    case Unlock
    obtain e s1 where f: "rwlock_unlock lib ?p t l s = (e, s1)" by (cases "rwlock_unlock lib ?p t l s")
    with Unlock run ok excl unlock_writer [OF _ f] show ?thesis by (auto simp: defs)
  next
    case Unlock_shared
    obtain e s1 where f: "rwlock_unlock lib ?p t l s = (e, s1)" by (cases "rwlock_unlock lib ?p t l s")
    with Unlock_shared run ok excl unlock_reader [OF _ _ f] show ?thesis by (auto simp: defs)
  qed
qed

lemma reach_holding:
  assumes "sm_reach lib l s0 s h" and "writer s0 l = None" and "readers s0 l = {#}"
  shows "h = (writer s l, readers s l) \<and> (writer s l = None \<or> readers s l = {#})"
  using assms
proof (induction rule: sm_reach.induct)
  case (sm_step s h t op r s')
  with step_holding [of l t op s r s'] show ?case by simp
qed simp

end

section \<open>Properties\<close>

text \<open>C34: Any interleaving of the operations of a \<open>shared_mutex\<close> by any threads, from a free mutex on and within what the header defines
  (no thread locks a mutex it owns, but for repeated shared locks, and each unlocks only what it holds), is a history of a reader-writer lock.
  Who holds the mutex can be told from the calls and their results alone: a call that reports success acquired it, an unlock
  released it, a call that returned \<open>false\<close> or threw changed nothing, and the library agrees. It is never held for writing and for
  reading at once. \<open>lock\<close> and \<open>try_lock\<close> succeed only when nobody holds it, the shared ones only when there is no writer; a
  try-lock returns \<open>false\<close> only when the mutex is held in a conflicting mode; locking fails only with \<open>lock_error\<close>, unlocking never.\<close>

theorem shared_mutex_excludes:
  assumes "rwlock_library lib writer readers" and "sm_reach lib l s0 s h" and "writer s0 l = None" and "readers s0 l = {#}"
    and "permitted t op h" and "sm_run lib l t op s = (r, s')"
  shows "h = (writer s l, readers s l) \<and> holding_after t op r h = (writer s' l, readers s' l) \<and>
    (writer s' l = None \<or> readers s' l = {#}) \<and> may_return op r h"
  using rwlock_library.reach_holding [OF assms(1-4)] rwlock_library.step_holding [OF assms(1,6)] assms(5) by blast

text \<open>
  An instance of the library: the holders of each lock are the state; a lock that cannot be had is refused, and a wait on a condition
  counts the waiting thread at its address.
\<close>

type_synonym holders = "(u64 \<Rightarrow> thread option) \<times> (u64 \<Rightarrow> thread multiset)"

definition try_write :: "thread \<Rightarrow> u64 \<Rightarrow> holders \<Rightarrow> int \<times> holders" where
  "try_write t l = (\<lambda>(w, r). if w l = None \<and> r l = {#} then (0, w(l := Some t), r) else (EBUSY, w, r))"

definition try_read :: "thread \<Rightarrow> u64 \<Rightarrow> holders \<Rightarrow> int \<times> holders" where
  "try_read t l = (\<lambda>(w, r). if w l = None then (0, w, r(l := add_mset t (r l))) else (EBUSY, w, r))"

definition release :: "thread \<Rightarrow> u64 \<Rightarrow> holders \<Rightarrow> int \<times> holders" where
  "release t l = (\<lambda>(w, r). if w l = Some t then (0, w(l := None), r) else (0, w, r(l := r l - {#t#})))"

definition table_lib :: "holders sync_lib" where
  "table_lib = \<lparr>pool_by_ptr = (\<lambda>a. 1), mutex_zero = (\<lambda>p l s. s), mutex_lock = (\<lambda>p. try_write),
     mutex_timedlock = (\<lambda>p t l ts. try_write t l), mutex_trylock = (\<lambda>p. try_write), mutex_unlock = (\<lambda>p. release),
     rwlock_zero = (\<lambda>p l s. s), rwlock_rdlock = (\<lambda>p. try_read), rwlock_wrlock = (\<lambda>p. try_write), rwlock_tryrdlock = (\<lambda>p. try_read),
     rwlock_trywrlock = (\<lambda>p. try_write), rwlock_unlock = (\<lambda>p. release), cond_zero = (\<lambda>p c s. s), cond_broadcast = (\<lambda>p c s. (0, s)),
     cond_signal = (\<lambda>p c s. (0, s)), cond_timedwait = (\<lambda>p t c l ts s. (ETIMEDOUT, s)), cond_wait = (\<lambda>p t c l (w, r). (0, w, r(c := add_mset t (r c))))\<rparr>"

interpretation lock_table: rwlock_library table_lib fst snd
  by unfold_locales
     (auto simp: table_lib_def try_write_def try_read_def release_def write_result_def read_result_def EBUSY_def
        split: prod.splits if_splits)

theorem shared_mutex_excludes_witness:
  "\<exists>s'. sm_run table_lib 8 2 Try_lock ((\<lambda>_. None), (\<lambda>_. {#})(8 := {#1#})) = (Val False, s') \<and>
    may_return Try_lock (Val False) (None, {#1#}) \<and> (fst s' 8, snd s' 8) = (None, {#1#})"
proof -
  let ?free = "((\<lambda>_. None), (\<lambda>_. {#})) :: holders" and ?held = "((\<lambda>_. None), (\<lambda>_. {#})(8 := {#1#})) :: holders"
  have first: "sm_run table_lib 8 1 Lock_shared ?free = (Val True, ?held)"
    by (simp add: shared_lock_shared_def or_throw_def call_def exec_simps table_lib_def try_read_def)
  have reach: "sm_reach table_lib 8 ?free ?held (None, {#1#})"
    using sm_step [OF sm_start _ first] by simp
  have run: "sm_run table_lib 8 2 Try_lock ?held = (Val False, ?held)"
    by (simp add: shared_try_lock_def try_result_def call_def exec_simps table_lib_def try_write_def EBUSY_def)
  from shared_mutex_excludes [OF lock_table.rwlock_library_axioms reach _ _ _ run] run show ?thesis by simp
qed

interpretation cond_table: cond_library table_lib fst
  by unfold_locales (auto simp: table_lib_def)

text \<open>C35: \<open>condition_variable::wait\<close> with a predicate, called by a thread that owns the mutex, with a mutex or with a lock object on it. It
  returns normally if and only if, after some number of rounds in which the predicate was false and \<open>pmemobj_cond_wait\<close> on this
  condition and this mutex returned 0, the predicate is true, and it returns in the state the predicate left. It throws if and
  only if after such rounds the predicate throws, or the predicate is false and \<open>pmemobj_cond_wait\<close> returns an error, and then it throws
  \<open>lock_error\<close>. The predicate is evaluated, and \<open>wait\<close> returns, only while the thread owns the mutex (with a predicate that does not give it away).\<close>

theorem condition_wait_returns_iff:
  assumes "cond_library lib owner" and "owner s l = Some t"
    and "\<forall>s r s'. owner s l = Some t \<longrightarrow> pred s = (r, s') \<longrightarrow> owner s' l = Some t"
  shows "(wait_mutex_pred lib t c l pred s = Some (Val (), s') \<longleftrightarrow>
      (\<exists>n sn. cond_rounds lib t c l pred n s = Some sn \<and> pred sn = (Val True, s'))) \<and>
    (wait_mutex_pred lib t c l pred s = Some (Throw x, s') \<longleftrightarrow>
      (\<exists>n sn. cond_rounds lib t c l pred n s = Some sn \<and> (pred sn = (Throw x, s') \<or>
        (\<exists>s1 e. pred sn = (Val False, s1) \<and> cond_wait lib (pool_by_ptr lib c) t c l s1 = (e, s') \<and> e \<noteq> 0 \<and> x = Lock_error)))) \<and>
    (\<forall>n sn. cond_rounds lib t c l pred n s = Some sn \<longrightarrow> owner sn l = Some t) \<and>
    (wait_mutex_pred lib t c l pred s = Some (Val (), s') \<longrightarrow> owner s' l = Some t) \<and>
    wait_lock_pred lib t c \<lparr>lock_mutex = l\<rparr> pred s = wait_mutex_pred lib t c l pred s"
proof -
  have own: "owner sn l = Some t" if "cond_rounds lib t c l pred n s = Some sn" for n sn
    using cond_library.rounds_own [OF assms(1,2) _ that] assms(3) by blast
  have iff: "wait_mutex_pred lib t c l pred s = Some y \<longleftrightarrow>
      (\<exists>n sn. cond_rounds lib t c l pred n s = Some sn \<and> wait_ends pred (wait_impl lib t c l) sn y)" for y
    by (simp add: wait_mutex_pred_def wait_impl_pred_iff)
  have last: "wait_mutex_pred lib t c l pred s = Some (Val (), s') \<longrightarrow> owner s' l = Some t"
    unfolding iff wait_ends_cond using own assms(3) by blast
  show ?thesis
  proof (intro conjI)
    show "\<forall>n sn. cond_rounds lib t c l pred n s = Some sn \<longrightarrow> owner sn l = Some t" using own by blast
    show "wait_lock_pred lib t c \<lparr>lock_mutex = l\<rparr> pred s = wait_mutex_pred lib t c l pred s"
      by (simp add: wait_lock_pred_def wait_mutex_pred_def)
  qed (use last in \<open>simp_all add: iff wait_ends_cond\<close>)
qed

text \<open>One round: the predicate asks whether somebody has waited on the condition at 16.\<close>

theorem condition_wait_returns_iff_witness:
  "wait_mutex_pred table_lib 1 16 8 (\<lambda>(w, r). (Val (r 16 \<noteq> {#}), w, r)) ((\<lambda>_. None)(8 := Some 1), (\<lambda>_. {#})) =
    Some (Val (), (\<lambda>_. None)(8 := Some 1), (\<lambda>_. {#})(16 := {#1#}))"
proof -
  let ?pred = "\<lambda>(w, r). (Val (r 16 \<noteq> {#}), w, r) :: bool outcome \<times> holders"
  let ?s = "((\<lambda>_. None)(8 := Some 1), (\<lambda>_. {#})) :: holders" and ?s' = "((\<lambda>_. None)(8 := Some 1), (\<lambda>_. {#})(16 := {#1#})) :: holders"
  have round: "cond_rounds table_lib 1 16 8 ?pred (Suc 0) ?s = Some ?s'" by (simp add: table_lib_def)
  have true: "?pred ?s' = (Val True, ?s')" by simp
  have keeps: "\<forall>s r s'. fst s 8 = Some 1 \<longrightarrow> ?pred s = (r, s') \<longrightarrow> fst s' 8 = Some (1 :: thread)" by auto
  have held: "fst ?s 8 = Some 1" by simp
  from condition_wait_returns_iff [OF cond_table.cond_library_axioms held keeps, of 16 ?s'] round true show ?thesis by blast
qed

text \<open>\<open>wait_until\<close> with a predicate returns a truth value only if that was the result of the last evaluation of the
  predicate; and when a wait times out it returns at once what the predicate then says.\<close>

theorem wait_until_returns_predicate:
  "(wait_until_impl_pred lib t c l clocks abs_timeout pred s = Some (Val b, s') \<longrightarrow> (\<exists>s0. pred s0 = (Val b, s'))) \<and>
   (pred s = (Val False, s1) \<longrightarrow> clocks s1 = (their_now, my_now) \<longrightarrow>
    wait_until_impl lib t c l their_now my_now abs_timeout s1 = (Val timeout, s2) \<longrightarrow>
    wait_until_impl_pred lib t c l clocks abs_timeout pred s = Some (pred s2))"
proof (intro conjI impI)
  assume "wait_until_impl_pred lib t c l clocks abs_timeout pred s = Some (Val b, s')"
  from wait_until_pred_result [OF this [unfolded wait_until_impl_pred_def]] show "\<exists>s0. pred s0 = (Val b, s')" by simp
next
  assume "pred s = (Val False, s1)" "clocks s1 = (their_now, my_now)"
    "wait_until_impl lib t c l their_now my_now abs_timeout s1 = (Val timeout, s2)"
  then show "wait_until_impl_pred lib t c l clocks abs_timeout pred s = Some (pred s2)"
    unfolding wait_until_impl_pred_def by (subst wait_until_pred.simps) (simp add: getC_def exec_simps)
qed

theorem wait_until_returns_predicate_witness:
  "wait_until_impl_pred table_lib 1 8 16 (\<lambda>s. (0, 0)) 5 (returnC False) ((\<lambda>_. None), (\<lambda>_. {#})) =
    Some (Val False, (\<lambda>_. None), (\<lambda>_. {#}))"
  using wait_until_returns_predicate [of table_lib 1 8 16 "\<lambda>s. (0, 0)" 5 "returnC False" "((\<lambda>_. None), (\<lambda>_. {#}))"
      False "((\<lambda>_. None), (\<lambda>_. {#}))" "((\<lambda>_. None), (\<lambda>_. {#}))" 0 0 "((\<lambda>_. None), (\<lambda>_. {#}))"]
  by (simp add: returnC_def wait_until_impl_def call_def bindC_def table_lib_def ETIMEDOUT_def)

text \<open>The conversion of a time point is a valid \<open>timespec\<close> exactly for the time points that are not before the epoch or
  are whole seconds.\<close>

theorem timespec_of_timepoint:
  "case timepoint_to_timespec tp of (sec, nsec) \<Rightarrow>
     sec * 1000000000 + nsec = tp \<and> \<bar>nsec\<bar> < 1000000000 \<and> (0 \<le> nsec \<longleftrightarrow> 0 \<le> tp \<or> 1000000000 dvd tp)"
proof (cases "0 \<le> tp")
  case True
  then have sec: "sgn tp * (\<bar>tp\<bar> div 1000000000) = tp div 1000000000" by (cases "tp = 0") simp_all
  have "tp - tp div 1000000000 * 1000000000 = tp mod 1000000000" by (rule minus_div_mult_eq_mod)
  then show ?thesis using True by (simp only: timepoint_to_timespec_def Let_def sec prod.case) auto
next
  case False
  then have sec: "sgn tp * (\<bar>tp\<bar> div 1000000000) = - ((- tp) div 1000000000)" by simp
  have "(- tp) mod 1000000000 = - tp - (- tp) div 1000000000 * 1000000000" by (simp add: minus_div_mult_eq_mod)
  then have nsec: "tp - - ((- tp) div 1000000000) * 1000000000 = - ((- tp) mod 1000000000)" by simp
  have "(- tp) mod 1000000000 = 0 \<longleftrightarrow> 1000000000 dvd tp" by (simp flip: dvd_eq_mod_eq_0)
  then show ?thesis using False pos_mod_bound [of 1000000000 "- tp"] pos_mod_sign [of 1000000000 "- tp"]
      minus_div_mult_eq_mod [of "- tp" 1000000000]
    by (simp only: timepoint_to_timespec_def Let_def sec nsec prod.case) auto
qed

end
