(* ===== verification/Object_Life.thy ===== *)
theory Object_Life
  imports Pext
begin

text \<open>
  The rest of the object life cycle in libpmemobj++: \<open>transaction::automatic\<close> of \<open>transaction.hpp\<close>, the
  constructors and destructors of \<open>detail/life.hpp\<close>, the element loops of \<open>make_persistent_array.hpp\<close>, the standard allocator of \<open>allocator.hpp\<close>, and the
  allocation outside transactions of \<open>make_persistent_atomic.hpp\<close>, \<open>make_persistent_array_atomic.hpp\<close> and
  \<open>detail/make_atomic_impl.hpp\<close> with the \<open>pmemobj_alloc\<close> and \<open>pmemobj_free\<close> that \<open>libpmemobj/atomic_base.h\<close>
  documents.
\<close>

section \<open>transaction::automatic\<close>



section \<open>Construction and destruction of arrays\<close>

text \<open>\<open>detail::create\<close> and \<open>detail::destroy\<close> of an array apply the element's to the \<open>n\<close> elements, the latter in
  reverse order.\<close>

fun create_elems :: "(nat \<Rightarrow> ('s, unit) cpp) \<Rightarrow> nat \<Rightarrow> nat \<Rightarrow> ('s, unit) cpp" where
  "create_elems ctor i 0 = returnC ()"
| "create_elems ctor i (Suc n) = thenC (ctor i) (create_elems ctor (Suc i) n)"

definition create_array :: "(nat \<Rightarrow> ('s, unit) cpp) \<Rightarrow> nat \<Rightarrow> ('s, unit) cpp" where
  "create_array ctor n = create_elems ctor 0 n"

fun destroy_array :: "(nat \<Rightarrow> ('s, unit) cpp) \<Rightarrow> nat \<Rightarrow> ('s, unit) cpp" where
  "destroy_array dtor 0 = returnC ()"
| "destroy_array dtor (Suc n) = thenC (dtor n) (destroy_array dtor n)"

section \<open>Transactional allocation of arrays\<close>

text \<open>
  \<open>make_persistent<T[]>(N)\<close> and \<open>make_persistent<T[N]>()\<close> for an element type whose constructor may throw. \<open>ctor a i\<close>
  constructs element \<open>i\<close> of the array at \<open>a\<close> and \<open>dtor a i\<close> destroys it. \<open>construct_until\<close> is the body of the \<open>try\<close>:
  it tells the exception and the index it was thrown at.
\<close>

fun construct_until :: "(nat \<Rightarrow> ('s, unit) cpp) \<Rightarrow> nat \<Rightarrow> nat \<Rightarrow> ('s, exn \<times> nat + unit) cpp" where
  "construct_until ctor i 0 = returnC (Inr ())"
| "construct_until ctor i (Suc n) =
     bindC (tryC (ctor i)) (\<lambda>r. case r of Inl e \<Rightarrow> returnC (Inl (e, i)) | Inr _ \<Rightarrow> construct_until ctor (Suc i) n)"

definition make_persistent_elems ::
  "'o libpmemobj \<Rightarrow> u64 \<Rightarrow> 'o \<Rightarrow> (nat \<Rightarrow> nat \<Rightarrow> ('v, 'o, unit) pcpp) \<Rightarrow> (nat \<Rightarrow> nat \<Rightarrow> ('v, 'o, unit) pcpp) \<Rightarrow> u64 \<Rightarrow> ('v, 'o, nat) pcpp" where
  "make_persistent_elems L sz raw ctor dtor n =
     bindC pmemobj_tx_stage (\<lambda>st.
       if st \<noteq> TX_STAGE_WORK then throwC Transaction_scope_error
       else bindC (pmemobj_tx_alloc L (unat (sz * n)) raw) (\<lambda>a.
         if a = 0 then throwC Transaction_alloc_error
         else bindC (construct_until (ctor a) 0 (unat n)) (\<lambda>r. case r of
           Inl (e, i) \<Rightarrow> thenC (destroy_array (dtor a) i) (thenC (pmemobj_tx_free L a) (throwC e))
         | Inr _ \<Rightarrow> returnC a)))"

definition delete_persistent_elems ::
  "'o libpmemobj \<Rightarrow> (nat \<Rightarrow> nat \<Rightarrow> ('v, 'o, unit) pcpp) \<Rightarrow> nat \<Rightarrow> u64 \<Rightarrow> ('v, 'o, unit) pcpp" where
  "delete_persistent_elems L dtor a n =
     bindC pmemobj_tx_stage (\<lambda>st.
       if st \<noteq> TX_STAGE_WORK then throwC Transaction_scope_error
       else if a = 0 then returnC ()
       else thenC (destroy_array (dtor a) (unat n)) (bindC (pmemobj_tx_free L a) (\<lambda>rc.
         if rc \<noteq> 0 then throwC Transaction_free_error else returnC ())))"

section \<open>The standard allocator\<close>

definition PMEMOBJ_MAX_ALLOC_SIZE :: u64 where
  "PMEMOBJ_MAX_ALLOC_SIZE = 0x3FFDFFFC0"

definition policy_allocate :: "'o libpmemobj \<Rightarrow> u64 \<Rightarrow> 'o \<Rightarrow> u64 \<Rightarrow> ('v, 'o, nat) pcpp" where
  "policy_allocate L sz raw cnt =
     bindC pmemobj_tx_stage (\<lambda>st.
       if st \<noteq> TX_STAGE_WORK then throwC Transaction_scope_error
       else pmemobj_tx_alloc L (unat (sz * cnt)) raw)"

definition policy_deallocate :: "'o libpmemobj \<Rightarrow> nat \<Rightarrow> ('v, 'o, unit) pcpp" where
  "policy_deallocate L a =
     bindC pmemobj_tx_stage (\<lambda>st.
       if st \<noteq> TX_STAGE_WORK then throwC Transaction_scope_error
       else bindC (pmemobj_tx_free L a) (\<lambda>rc.
         if rc \<noteq> 0 then throwC Transaction_free_error else returnC ()))"

definition policy_max_size :: "u64 \<Rightarrow> u64" where
  "policy_max_size sz = PMEMOBJ_MAX_ALLOC_SIZE div sz"

text \<open>The specialisation for \<open>void\<close>, whose size is taken as 1.\<close>

definition void_allocate :: "'o libpmemobj \<Rightarrow> 'o \<Rightarrow> u64 \<Rightarrow> ('v, 'o, nat) pcpp" where
  "void_allocate L raw cnt =
     bindC pmemobj_tx_stage (\<lambda>st.
       if st \<noteq> TX_STAGE_WORK then throwC Transaction_scope_error
       else pmemobj_tx_alloc L (unat (1 * cnt)) raw)"

definition void_deallocate :: "'o libpmemobj \<Rightarrow> nat \<Rightarrow> ('v, 'o, unit) pcpp" where
  "void_deallocate L a =
     bindC pmemobj_tx_stage (\<lambda>st.
       if st \<noteq> TX_STAGE_WORK then throwC Transaction_scope_error
       else bindC (pmemobj_tx_free L a) (\<lambda>rc.
         if rc \<noteq> 0 then throwC Transaction_free_error else returnC ()))"

definition void_max_size :: u64 where
  "void_max_size = PMEMOBJ_MAX_ALLOC_SIZE"

text \<open>
  \<open>construct\<close>: the object (member \<open>g\<close>, \<open>s\<close> is all of it) is added to the transaction and constructed in place.
  \<open>destroy\<close>: the source adds \<open>sizeof(p)\<close> bytes, the size of the pointer and not of the object, and ignores the
  return code; the objects are byte buffers here.
\<close>

definition construct :: "'o libpmemobj \<Rightarrow> nat \<Rightarrow> ('o \<Rightarrow> 'f option) \<Rightarrow> ('f \<Rightarrow> 'o \<Rightarrow> 'o) \<Rightarrow> 'f \<Rightarrow> ('v, 'o, unit) pcpp" where
  "construct L a g s x = thenC (conditional_add_to_tx L a g s) (pwrite_raw a g s x)"

definition sizeof_pointer :: nat where
  "sizeof_pointer = 16"

definition head_get :: "byte list \<Rightarrow> byte list option" where
  "head_get bs = Some (take sizeof_pointer bs)"

definition head_set :: "byte list \<Rightarrow> byte list \<Rightarrow> byte list" where
  "head_set x bs = x @ drop sizeof_pointer bs"

definition traits_destroy :: "byte list libpmemobj \<Rightarrow> (nat \<Rightarrow> ('v, byte list, unit) pcpp) \<Rightarrow> nat \<Rightarrow> ('v, byte list, unit) pcpp" where
  "traits_destroy L dtor a =
     bindC pmemobj_tx_stage (\<lambda>st.
     thenC (if st = TX_STAGE_WORK
            then thenC (pmemobj_tx_add_range_direct L a head_get head_set) (returnC ()) else returnC ())
       (dtor a))"

text \<open>
  Comparison of allocators: an allocator has no state, so two with the standard policy are equal whatever their element
  types are, and one is different from anything else.
\<close>

datatype alloc_policy = Standard_alloc_policy string | Other_policy string

definition policy_eq :: "alloc_policy \<Rightarrow> alloc_policy \<Rightarrow> bool" where
  "policy_eq lhs rhs = (case lhs of
     Standard_alloc_policy T \<Rightarrow> (case rhs of Standard_alloc_policy T2 \<Rightarrow> True | Other_policy _ \<Rightarrow> False)
   | Other_policy _ \<Rightarrow> False)"

record allocator =
  alloc_policy_of :: alloc_policy
  alloc_value_type :: string

definition allocator_eq :: "allocator \<Rightarrow> allocator \<Rightarrow> bool" where
  "allocator_eq lhs rhs = policy_eq (alloc_policy_of lhs) (alloc_policy_of rhs)"

definition allocator_neq :: "allocator \<Rightarrow> allocator \<Rightarrow> bool" where
  "allocator_neq lhs rhs = (\<not> allocator_eq lhs rhs)"

definition policy_rebind :: "string \<Rightarrow> alloc_policy \<Rightarrow> alloc_policy" where
  "policy_rebind U P = (case P of Standard_alloc_policy T \<Rightarrow> Standard_alloc_policy U | Other_policy n \<Rightarrow> Other_policy n)"

definition allocator_rebind :: "string \<Rightarrow> allocator \<Rightarrow> allocator" where
  "allocator_rebind U A = \<lparr>alloc_policy_of = policy_rebind U (alloc_policy_of A), alloc_value_type = U\<rparr>"

text \<open>A container that allocates its nodes with the rebound allocator may free them with the original one.\<close>

lemma rebound_allocator_equal:
  "alloc_policy_of A = Standard_alloc_policy T \<Longrightarrow>
     allocator_eq (allocator_rebind U A) A \<and> \<not> allocator_neq A (allocator_rebind U A)"
  by (simp add: allocator_eq_def allocator_neq_def policy_eq_def allocator_rebind_def policy_rebind_def)

section \<open>Allocation outside transactions\<close>

text \<open>
  \<open>pmemobj_alloc\<close>: reserve the object, run the constructor on it, and publish it in the pointer at \<open>(b, g, s)\<close> in one
  atomic step; a constructor that returns non-zero cancels the allocation, and the
  memory of one that is interrupted by a crash is reclaimed.
\<close>

definition pmemobj_alloc ::
  "'o libpmemobj \<Rightarrow> nat \<Rightarrow> ('o \<Rightarrow> nat option) \<Rightarrow> (nat \<Rightarrow> 'o \<Rightarrow> 'o) \<Rightarrow> nat \<Rightarrow> 'o \<Rightarrow> (nat \<Rightarrow> ('v, 'o, int) pcpp) \<Rightarrow> ('v, 'o, int) pcpp" where
  "pmemobj_alloc L b g s sz raw constr = (\<lambda>(v, p).
     let a = alloc_off L p sz in
     if a = 0 then (Val (- 1), v, p)
     else case constr a (v, p\<lparr>heap := (heap p)(a \<mapsto> raw)\<rparr>) of
       (Val rc, v', p') \<Rightarrow>
         if rc \<noteq> 0 then (Val (- 1), v', p'\<lparr>heap := (heap p')(a := None)\<rparr>)
         else thenC (pwrite_raw b g s a) (returnC 0) (v', p')
     | (Throw e, v', p') \<Rightarrow> (Throw e, v', p')
     | (Die f, v', p') \<Rightarrow> (Die f, v', p'\<lparr>heap := (heap p')(a := None)\<rparr>))"

definition pmemobj_free :: "nat \<Rightarrow> ('o \<Rightarrow> nat option) \<Rightarrow> (nat \<Rightarrow> 'o \<Rightarrow> 'o) \<Rightarrow> ('v, 'o, unit) pcpp" where
  "pmemobj_free b g s =
     bindC (pread b g) (\<lambda>a.
     thenC (\<lambda>(v, p). (Val (), v, p\<lparr>heap := (heap p)(a := None)\<rparr>)) (pwrite_raw b g s 0))"

definition obj_constructor :: "(nat \<Rightarrow> ('v, 'o, unit) pcpp) \<Rightarrow> nat \<Rightarrow> ('v, 'o, int) pcpp" where
  "obj_constructor ctor a =
     bindC (tryC (ctor a)) (\<lambda>r. case r of Inl _ \<Rightarrow> returnC (- 1) | Inr _ \<Rightarrow> returnC 0)"

definition array_constructor :: "(nat \<Rightarrow> nat \<Rightarrow> ('v, 'o, unit) pcpp) \<Rightarrow> nat \<Rightarrow> nat \<Rightarrow> ('v, 'o, int) pcpp" where
  "array_constructor ctor n a =
     bindC (tryC (create_elems (ctor a) 0 n)) (\<lambda>r. case r of Inl _ \<Rightarrow> returnC (- 1) | Inr _ \<Rightarrow> returnC 0)"

definition make_persistent_atomic ::
  "'o libpmemobj \<Rightarrow> nat \<Rightarrow> ('o \<Rightarrow> nat option) \<Rightarrow> (nat \<Rightarrow> 'o \<Rightarrow> 'o) \<Rightarrow> nat \<Rightarrow> 'o \<Rightarrow> (nat \<Rightarrow> ('v, 'o, unit) pcpp) \<Rightarrow> ('v, 'o, unit) pcpp" where
  "make_persistent_atomic L b g s sz raw ctor =
     bindC (pmemobj_alloc L b g s sz raw (obj_constructor ctor)) (\<lambda>ret.
     if ret \<noteq> 0 then throwC Bad_alloc else returnC ())"

definition make_persistent_array_atomic ::
  "'o libpmemobj \<Rightarrow> nat \<Rightarrow> ('o \<Rightarrow> nat option) \<Rightarrow> (nat \<Rightarrow> 'o \<Rightarrow> 'o) \<Rightarrow> u64 \<Rightarrow> 'o \<Rightarrow> (nat \<Rightarrow> nat \<Rightarrow> ('v, 'o, unit) pcpp) \<Rightarrow> u64 \<Rightarrow> ('v, 'o, unit) pcpp" where
  "make_persistent_array_atomic L b g s sz raw ctor n =
     bindC (pmemobj_alloc L b g s (unat (sz * n)) raw (array_constructor ctor (unat n))) (\<lambda>ret.
     if ret \<noteq> 0 then throwC Bad_alloc else returnC ())"

definition delete_persistent_atomic :: "nat \<Rightarrow> ('o \<Rightarrow> nat option) \<Rightarrow> (nat \<Rightarrow> 'o \<Rightarrow> 'o) \<Rightarrow> ('v, 'o, unit) pcpp" where
  "delete_persistent_atomic b g s =
     bindC (pread b g) (\<lambda>a. if a = 0 then returnC () else pmemobj_free b g s)"

definition delete_persistent_array_atomic :: "nat \<Rightarrow> ('o \<Rightarrow> nat option) \<Rightarrow> (nat \<Rightarrow> 'o \<Rightarrow> 'o) \<Rightarrow> ('v, 'o, unit) pcpp" where
  "delete_persistent_array_atomic b g s =
     bindC (pread b g) (\<lambda>a. if a = 0 then returnC () else pmemobj_free b g s)"

section \<open>Automatic transactions are all-or-nothing\<close>




section \<open>Undoing a byte-wise destruction\<close>

lemma destroy_logs_head:
  assumes "stage p = TX_STAGE_WORK" and "heap p a = Some bs" and "add_range_rc L p a = 0"
  shows "traits_destroy L dtor a (v, p) = dtor a (v, p\<lparr>undo_log := Snapshot a (head_set (take sizeof_pointer bs)) # undo_log p\<rparr>)"
  using assms
  by (simp add: traits_destroy_def pmemobj_tx_stage_def pmemobj_tx_add_range_direct_def head_get_def exec_simps Let_def)

section \<open>Atomic allocation\<close>

lemma obj_constructor_run:
  assumes "ctor a (v, p) = (r, v', p')"
  shows "obj_constructor ctor a (v, p) =
    (case r of Val _ \<Rightarrow> (Val 0, v', p') | Throw e \<Rightarrow> (Val (- 1), v', p') | Die f \<Rightarrow> (Die f, v', p'))"
  using assms by (cases r) (simp_all add: obj_constructor_def tryC_def exec_simps)

section \<open>Construction and destruction follow the element order\<close>

text \<open>\<open>\<sigma> i\<close> is the state before element \<open>i\<close> is constructed.\<close>

lemma construct_until_all:
  assumes "\<And>j. i \<le> j \<Longrightarrow> j < i + n \<Longrightarrow> ctor j (\<sigma> j) = (Val (), \<sigma> (Suc j))"
  shows "construct_until ctor i n (\<sigma> i) = (Val (Inr ()), \<sigma> (i + n))"
  using assms
proof (induction n arbitrary: i)
  case (Suc n)
  have "ctor i (\<sigma> i) = (Val (), \<sigma> (Suc i))" by (rule Suc.prems) simp_all
  moreover have "construct_until ctor (Suc i) n (\<sigma> (Suc i)) = (Val (Inr ()), \<sigma> (Suc i + n))"
    by (rule Suc.IH) (simp add: Suc.prems)
  ultimately show ?case by (simp add: tryC_def exec_simps)
qed (simp add: exec_simps)

lemma construct_until_throw:
  assumes "\<And>j. i \<le> j \<Longrightarrow> j < i + k \<Longrightarrow> ctor j (\<sigma> j) = (Val (), \<sigma> (Suc j))"
    and "ctor (i + k) (\<sigma> (i + k)) = (Throw e, s')" and "k < n"
  shows "construct_until ctor i n (\<sigma> i) = (Val (Inl (e, i + k)), s')"
  using assms
proof (induction k arbitrary: i n)
  case 0
  then obtain m where "n = Suc m" by (cases n) simp_all
  with 0 show ?case by (simp add: tryC_def exec_simps)
next
  case (Suc k)
  then obtain m where n: "n = Suc m" by (cases n) simp_all
  have "ctor i (\<sigma> i) = (Val (), \<sigma> (Suc i))" by (rule Suc.prems) simp_all
  moreover have "construct_until ctor (Suc i) m (\<sigma> (Suc i)) = (Val (Inl (e, Suc i + k)), s')"
    by (rule Suc.IH) (use Suc.prems n in simp_all)
  ultimately show ?case by (simp add: n tryC_def exec_simps)
qed

lemma destroy_array_run:
  assumes "\<And>j. j < k \<Longrightarrow> dtor j (\<tau> (Suc j)) = (Val (), \<tau> j)"
  shows "destroy_array dtor k (\<tau> k) = (Val (), \<tau> 0)"
  using assms by (induction k) (simp_all add: exec_simps)

section \<open>Properties\<close>

text \<open>For an element type whose construction does not throw and leaves the fresh memory as it is, the array allocation is
  the single step \<open>make_persistent_array\<close> that the rest of the development uses.\<close>

theorem array_of_plain_elements:
  "make_persistent_elems L sz raw (\<lambda>a i. returnC ()) dtor n = make_persistent_array L (unat (sz * n)) raw"
proof -
  have c: "construct_until (\<lambda>i. returnC ()) 0 k s = (Val (Inr ()), s)" for k and s :: "'a \<times> 'b pool"
    using construct_until_all [where i = 0 and n = k and ctor = "\<lambda>i. returnC ()" and \<sigma> = "\<lambda>_. s"] by (simp add: returnC_apply)
  show ?thesis
    by (auto simp: make_persistent_elems_def make_persistent_array_def bindC_def throwC_def returnC_def fun_eq_iff c [unfolded returnC_def]
        split: prod.splits outcome.splits if_splits)
qed

text \<open>When the constructor of element \<open>k\<close> throws, \<open>make_persistent<T[]>\<close> destroys exactly the \<open>k\<close> elements constructed before it,
  the last one first, frees the array and lets the exception pass; \<open>\<sigma>\<close> are the states between the constructors and
  \<open>\<tau>\<close> those between the destructors.\<close>

theorem array_construction_unwinds:
  assumes "stage p = TX_STAGE_WORK" and "pmemobj_tx_alloc L (unat (sz * n)) raw (v, p) = (Val a, \<sigma> 0)" and "a \<noteq> 0"
    and "k < unat n" and "\<And>i. i < k \<Longrightarrow> ctor a i (\<sigma> i) = (Val (), \<sigma> (Suc i))" and "ctor a k (\<sigma> k) = (Throw e, \<tau> k)"
    and "\<And>i. i < k \<Longrightarrow> dtor a i (\<tau> (Suc i)) = (Val (), \<tau> i)"
  shows "make_persistent_elems L sz raw ctor dtor n (v, p) = thenC (pmemobj_tx_free L a) (throwC e) (\<tau> 0)"
proof -
  have "construct_until (ctor a) 0 (unat n) (\<sigma> 0) = (Val (Inl (e, 0 + k)), \<tau> k)"
    by (rule construct_until_throw) (use assms in simp_all)
  moreover have "destroy_array (dtor a) k (\<tau> k) = (Val (), \<tau> 0)" by (rule destroy_array_run) (rule assms(7))
  ultimately show ?thesis using assms(1-3)
    by (simp add: make_persistent_elems_def pmemobj_tx_stage_def exec_simps)
qed

definition noisy :: "nat \<Rightarrow> nat \<Rightarrow> (nat list, nat, unit) pcpp" where
  "noisy a i = (if i = 2 then throwC Out_of_range else modC (apfst (\<lambda>l. i # l)))"

definition noisy_dtor :: "nat \<Rightarrow> nat \<Rightarrow> (nat list, nat, unit) pcpp" where
  "noisy_dtor a i = modC (apfst (\<lambda>l. (10 + i) # l))"

theorem array_construction_unwinds_witness:
  "\<exists>q. make_persistent_elems healthy 8 9 noisy noisy_dtor 4 ([], open_pool (cell_pool 3)) =
    (Throw Out_of_range, [10, 11, 1, 0], q)"
proof -
  let ?p = "open_pool (cell_pool 3)"
  obtain a q where al: "pmemobj_tx_alloc healthy (unat ((8::u64) * 4)) 9 ([]::nat list, ?p) = (Val a, [], q)" "a \<noteq> 0"
    and w: "stage q = TX_STAGE_WORK"
    by (simp add: pmemobj_tx_alloc_def healthy_def open_pool_def cell_pool_def next_offset_def used_offsets_def Let_def)
  define \<sigma> where "\<sigma> i = ([[], [0 :: nat], [1, 0]] ! i, q)" for i
  define \<tau> where "\<tau> i = ([[10 :: nat, 11, 1, 0], [11, 1, 0], [1, 0]] ! i, q)" for i
  have up: "noisy a i (\<sigma> i) = (Val (), \<sigma> (Suc i))" if "i < 2" for i
    using less_2_cases [OF that] by (auto simp: noisy_def modC_def \<sigma>_def)
  have down: "noisy_dtor a i (\<tau> (Suc i)) = (Val (), \<tau> i)" if "i < 2" for i
    using less_2_cases [OF that] by (auto simp: noisy_dtor_def modC_def \<tau>_def)
  have "make_persistent_elems healthy 8 9 noisy noisy_dtor 4 ([], ?p) =
      thenC (pmemobj_tx_free healthy a) (throwC Out_of_range) (\<tau> 0)"
    by (rule array_construction_unwinds [where \<sigma> = \<sigma> and \<tau> = \<tau> and k = 2])
      (use al up down in \<open>simp_all add: noisy_def throwC_def \<sigma>_def \<tau>_def open_pool_def\<close>)
  then show ?thesis using w by (auto simp: pmemobj_tx_free_def healthy_def exec_simps Let_def \<tau>_def)
qed



text \<open>The standard allocator asks for exactly the bytes of \<open>cnt\<close> objects as long as \<open>cnt\<close> is within \<open>max_size()\<close>; beyond
  that the product wraps around, so that for example \<open>2 ^ 61 + 1\<close> objects of 8 bytes are served by an
  allocation of 8 bytes; and outside a transaction it refuses.\<close>

theorem allocate_exact_up_to_max_size:
  "(stage p = TX_STAGE_WORK \<and> 0 < sz \<and> cnt \<le> policy_max_size sz \<longrightarrow>
     policy_allocate L sz raw cnt (v, p) = pmemobj_tx_alloc L (unat sz * unat cnt) raw (v, p)) \<and>
   (stage p = TX_STAGE_WORK \<longrightarrow>
     policy_allocate L 8 raw (2 ^ 61 + 1) (v, p) = pmemobj_tx_alloc L 8 raw (v, p)) \<and>
   (stage p \<noteq> TX_STAGE_WORK \<longrightarrow> policy_allocate L sz raw cnt (v, p) = (Throw Transaction_scope_error, v, p))"
proof (intro conjI impI)
  assume a: "stage p = TX_STAGE_WORK \<and> 0 < sz \<and> cnt \<le> policy_max_size sz"
  then have "unat cnt \<le> 0x3FFDFFFC0 div unat sz"
    by (simp add: policy_max_size_def PMEMOBJ_MAX_ALLOC_SIZE_def word_le_nat_alt unat_div)
  then have "unat sz * unat cnt \<le> unat sz * (0x3FFDFFFC0 div unat sz)" by (rule mult_le_mono2)
  also have "\<dots> \<le> 0x3FFDFFFC0" by (rule times_div_less_eq_dividend)
  finally have "unat sz * unat cnt < 2 ^ 64" by simp
  then have "unat (sz * cnt) = unat sz * unat cnt" by (simp add: unat_word_ariths)
  with a show "policy_allocate L sz raw cnt (v, p) = pmemobj_tx_alloc L (unat sz * unat cnt) raw (v, p)"
    by (simp add: policy_allocate_def pmemobj_tx_stage_def exec_simps)
next
  assume "stage p = TX_STAGE_WORK"
  then show "policy_allocate L 8 raw (2 ^ 61 + 1) (v, p) = pmemobj_tx_alloc L 8 raw (v, p)"
    by (simp add: policy_allocate_def pmemobj_tx_stage_def exec_simps)
qed (simp add: policy_allocate_def pmemobj_tx_stage_def exec_simps)

theorem allocate_exact_up_to_max_size_witness:
  "policy_allocate healthy 8 9 3 ((), open_pool (cell_pool 3)) = pmemobj_tx_alloc healthy 24 9 ((), open_pool (cell_pool 3))"
  using allocate_exact_up_to_max_size [of "open_pool (cell_pool 3)" 8 3 healthy 9 "()"]
  by (simp add: policy_max_size_def PMEMOBJ_MAX_ALLOC_SIZE_def)

text \<open>\<open>object_traits::destroy\<close> snapshots \<open>sizeof(p)\<close> bytes, the size of the pointer, instead of the object: when the
  destructor overwrites an object and the transaction is aborted, only the first 16 bytes come back and the
  rest keeps what the destructor left.\<close>

theorem destroy_snapshot_too_small:
  assumes "stage p = TX_STAGE_WORK" and "depth p = 1" and "undo_log p = []" and "heap p a = Some bs" and "add_range_rc L p a = 0"
    and "length new = length bs"
  defines "dtor \<equiv> (\<lambda>a. pwrite_raw a Some (\<lambda>x _. x) new)"
  shows "\<exists>p'. traits_destroy L dtor a (v, p) = (Val (), v, p') \<and>
    heap (abort_pool ECANCELED p') a = Some (take 16 bs @ drop 16 new)"
  using assms(1-5)
  by (simp add: destroy_logs_head dtor_def pwrite_raw_def abort_pool_def rollback_def head_set_def sizeof_pointer_def)

definition big_object :: "byte list pool" where
  "big_object = \<lparr>heap = [1 \<mapsto> replicate 20 7], stage = TX_STAGE_WORK, depth = 1, undo_log = [], freed = [], errnum = 0\<rparr>"

theorem destroy_snapshot_too_small_witness:
  "\<exists>p'. traits_destroy healthy (\<lambda>a. pwrite_raw a Some (\<lambda>x _. x) (replicate 20 0)) 1 ((), big_object) = (Val (), (), p') \<and>
    heap (abort_pool ECANCELED p') 1 = Some (replicate 16 7 @ replicate 4 0)"
  using destroy_snapshot_too_small [of big_object 1 "replicate 20 7" healthy "replicate 20 0" "()"]
  by (simp add: big_object_def healthy_def)

text \<open>C36: \<open>make_persistent_atomic\<close> publishes an object only when it is completely constructed: with a constructor that writes
  only the new object, it either returns and the destination pointer refers to a new object that the
  constructor finished, or it throws \<open>bad_alloc\<close>, or the process dies, and in both of these cases no
  object but possibly the volatile reservation was touched: the heap is as before.\<close>

theorem atomic_allocation_all_or_nothing:
  assumes "make_persistent_atomic L b g s sz raw ctor (v, p) = (r, v', p')" and "heap p b = Some ob" and "g ob = Some old"
    and "heap p (alloc_off L p sz) = None"
    and "\<And>a w q r w' q'. ctor a (w, q) = (r, w', q') \<Longrightarrow> \<forall>c. c \<noteq> a \<longrightarrow> heap q' c = heap q c"
  defines "a \<equiv> alloc_off L p sz"
  shows "case r of
      Val _ \<Rightarrow> (\<exists>q. ctor a (v, p\<lparr>heap := (heap p)(a \<mapsto> raw)\<rparr>) = (Val (), v', q) \<and> a \<noteq> 0 \<and>
        heap p' b = Some (s a ob) \<and> heap p' a = heap q a \<and> (\<forall>c. c \<noteq> a \<longrightarrow> c \<noteq> b \<longrightarrow> heap p' c = heap p c))
    | Throw e \<Rightarrow> e = Bad_alloc \<and> heap p' = heap p
    | Die f \<Rightarrow> heap p' = heap p"
proof (cases "a = 0")
  case True
  with assms(1) show ?thesis
    by (auto simp: make_persistent_atomic_def pmemobj_alloc_def exec_simps Let_def a_def)
next
  case False
  have ba: "b \<noteq> a" using assms(2,4) by (auto simp: a_def)
  let ?p = "p\<lparr>heap := (heap p)(a \<mapsto> raw)\<rparr>"
  obtain r1 v1 q where c: "ctor a (v, ?p) = (r1, v1, q)" by (cases "ctor a (v, ?p)") auto
  note oc = obj_constructor_run [where ctor = ctor and a = a and v = v and p = ?p, OF c]
  have frame: "heap q c = heap p c" if "c \<noteq> a" for c using assms(5) [OF c] that by simp
  have restored: "(heap q)(a := None) = heap p" using frame assms(4) by (auto simp: a_def)
  have qb: "heap q b = Some ob" using frame ba assms(2) by simp
  show ?thesis
  proof (cases r1)
    case (Val u)
    with assms(1,3) c False qb ba frame show ?thesis
      by (auto simp: make_persistent_atomic_def pmemobj_alloc_def oc exec_simps Let_def pwrite_raw_def
          simp flip: a_def)
  next
    case (Throw e)
    with assms(1) c False restored show ?thesis
      by (auto simp: make_persistent_atomic_def pmemobj_alloc_def oc exec_simps Let_def simp flip: a_def)
  next
    case (Die f)
    with assms(1) c False restored show ?thesis
      by (auto simp: make_persistent_atomic_def pmemobj_alloc_def oc exec_simps Let_def simp flip: a_def)
  qed
qed

theorem atomic_allocation_all_or_nothing_witness:
  "\<exists>r p'. make_persistent_atomic healthy 1 Some (\<lambda>x _. x) 8 9 (\<lambda>a. throwC Out_of_range) ((), cell_pool 3) = (r, (), p') \<and>
    heap p' = heap (cell_pool 3)"
proof -
  obtain r v' p' where run: "make_persistent_atomic healthy 1 Some (\<lambda>x _. x) 8 9 (\<lambda>a. throwC Out_of_range) ((), cell_pool 3) = (r, v', p')"
    by (cases "make_persistent_atomic healthy 1 Some (\<lambda>x _. x) 8 9 (\<lambda>a. throwC Out_of_range) ((), cell_pool 3)") auto
  have dead: "heap (cell_pool 3) (alloc_off healthy (cell_pool 3) 8) = None"
    by (simp add: healthy_def cell_pool_def next_offset_def used_offsets_def)
  from atomic_allocation_all_or_nothing [OF run _ _ dead, of 3 3] run show ?thesis
    by (cases r) (auto simp: throwC_def cell_pool_def)
qed

end
