(* ===== verification/Type_Traits.thy ===== *)
theory Type_Traits
  imports Prelude
begin

text \<open>
  The compile-time layer of libpmemobj++: the type traits of \<open>detail/array_traits.hpp\<close>, \<open>detail/specialization.hpp\<close>,
  \<open>detail/check_persistent_ptr_array.hpp\<close> and \<open>detail/life.hpp\<close>, the index sequences of
  \<open>detail/integer_sequence.hpp\<close>, and what they select: the overloads of \<open>make_persistent\<close>, \<open>delete_persistent\<close>,
  \<open>create\<close> and \<open>destroy\<close>, and the operators of \<open>persistent_ptr\<close>. A C++ type is a value of \<open>cxx_type\<close>, a class template
  with a member \<open>type\<close> is a function to \<open>cxx_type option\<close>; \<open>None\<close> means that there is no such member (a substitution
  failure in a declaration, an error elsewhere). Sizes and properties of classes are an argument, a \<open>classes\<close> record.
  The construction and destruction of arrays of arrays are events at addresses, so that their order can be compared.
\<close>

section \<open>Types\<close>

datatype cxx_type =
    Named string
  | Void_type bool bool
  | Bounded_array cxx_type nat
  | Unbounded_array cxx_type
  | Lref cxx_type
  | Pointer cxx_type
  | Persistent_ptr cxx_type
  | Does_not_exist

text \<open>\<open>Void_type c v\<close> is \<open>void\<close>, \<open>const void\<close>, \<open>volatile void\<close> or \<open>const volatile void\<close>.\<close>

record classes =
  class_size :: "string \<Rightarrow> nat"
  class_pod :: "string \<Rightarrow> bool"

primrec size_of :: "cxx_type \<Rightarrow> classes \<Rightarrow> nat" where
  "size_of (Named c) E = class_size E c"
| "size_of (Void_type c v) E = 0"
| "size_of (Bounded_array T n) E = n * size_of T E"
| "size_of (Unbounded_array T) E = 0"
| "size_of (Lref T) E = 8"
| "size_of (Pointer T) E = 8"
| "size_of (Persistent_ptr T) E = 16"
| "size_of Does_not_exist E = 0"

text \<open>The types an array may have as elements, and an object may have: complete object types.\<close>

primrec object_type :: "cxx_type \<Rightarrow> bool" where
  "object_type (Named c) = True"
| "object_type (Void_type c v) = False"
| "object_type (Bounded_array T n) = (object_type T \<and> 0 < n)"
| "object_type (Unbounded_array T) = False"
| "object_type (Lref T) = False"
| "object_type (Pointer T) = True"
| "object_type (Persistent_ptr T) = True"
| "object_type Does_not_exist = False"

definition is_array :: "cxx_type \<Rightarrow> bool" where
  "is_array T = (case T of Bounded_array _ _ \<Rightarrow> True | Unbounded_array _ \<Rightarrow> True | _ \<Rightarrow> False)"

lemma is_array_simps [simp]:
  "\<not> is_array (Named c)" "\<not> is_array (Void_type q v)" "is_array (Bounded_array T n)" "is_array (Unbounded_array T)"
  "\<not> is_array (Lref T)" "\<not> is_array (Pointer T)" "\<not> is_array (Persistent_ptr T)" "\<not> is_array Does_not_exist"
  by (simp_all add: is_array_def)

text \<open>A reference to \<open>void\<close> does not exist.\<close>

definition ref_to :: "cxx_type \<Rightarrow> cxx_type option" where
  "ref_to T = (case T of Void_type _ _ \<Rightarrow> None | _ \<Rightarrow> Some (Lref T))"

section \<open>The traits\<close>

definition pp_array_elems :: "cxx_type \<Rightarrow> nat" where
  "pp_array_elems T = (case T of Bounded_array _ N \<Rightarrow> N | _ \<Rightarrow> 1)"

definition pp_array_type :: "cxx_type \<Rightarrow> cxx_type option" where
  "pp_array_type T = (case T of Unbounded_array I \<Rightarrow> Some I | Bounded_array I _ \<Rightarrow> Some I | _ \<Rightarrow> None)"

definition sp_element :: "cxx_type \<Rightarrow> cxx_type option" where
  "sp_element T = (case T of Unbounded_array I \<Rightarrow> Some I | Bounded_array I _ \<Rightarrow> Some I | _ \<Rightarrow> Some T)"

definition sp_dereference :: "cxx_type \<Rightarrow> cxx_type option" where
  "sp_dereference T = (case T of
     Void_type False False \<Rightarrow> Some (Void_type False False)
   | Void_type True False \<Rightarrow> Some (Void_type False False)
   | Void_type False True \<Rightarrow> Some (Void_type False False)
   | Void_type True True \<Rightarrow> Some (Void_type False False)
   | Unbounded_array _ \<Rightarrow> Some (Void_type False False)
   | Bounded_array _ _ \<Rightarrow> Some (Void_type False False)
   | _ \<Rightarrow> ref_to T)"

definition sp_member_access :: "cxx_type \<Rightarrow> cxx_type option" where
  "sp_member_access T = (case T of
     Unbounded_array _ \<Rightarrow> Some (Void_type False False)
   | Bounded_array _ _ \<Rightarrow> Some (Void_type False False)
   | _ \<Rightarrow> Some (Pointer T))"

definition sp_array_access :: "cxx_type \<Rightarrow> cxx_type option" where
  "sp_array_access T = (case T of
     Void_type False False \<Rightarrow> Some (Lref Does_not_exist)
   | Unbounded_array I \<Rightarrow> ref_to I
   | Bounded_array I _ \<Rightarrow> ref_to I
   | _ \<Rightarrow> ref_to T)"

definition sp_extent :: "cxx_type \<Rightarrow> nat" where
  "sp_extent T = (case T of Bounded_array _ N \<Rightarrow> N | _ \<Rightarrow> 0)"

definition pp_if_not_array :: "cxx_type \<Rightarrow> cxx_type option" where
  "pp_if_not_array T = (case T of Unbounded_array _ \<Rightarrow> None | Bounded_array _ _ \<Rightarrow> None | _ \<Rightarrow> Some (Persistent_ptr T))"

definition pp_if_array :: "cxx_type \<Rightarrow> cxx_type option" where
  "pp_if_array T = (case T of Unbounded_array _ \<Rightarrow> Some (Persistent_ptr T) | _ \<Rightarrow> None)"

definition pp_if_size_array :: "cxx_type \<Rightarrow> cxx_type option" where
  "pp_if_size_array T = (case T of Bounded_array _ _ \<Rightarrow> Some (Persistent_ptr T) | _ \<Rightarrow> None)"

definition if_not_array :: "cxx_type \<Rightarrow> cxx_type option" where
  "if_not_array T = (case T of Unbounded_array _ \<Rightarrow> None | Bounded_array _ _ \<Rightarrow> None | _ \<Rightarrow> Some T)"

definition if_size_array :: "cxx_type \<Rightarrow> cxx_type option" where
  "if_size_array T = (case T of Bounded_array I N \<Rightarrow> Some (Bounded_array I N) | _ \<Rightarrow> None)"

lemmas trait_defs = pp_array_elems_def pp_array_type_def sp_element_def sp_dereference_def sp_member_access_def
  sp_array_access_def sp_extent_def pp_if_not_array_def pp_if_array_def pp_if_size_array_def if_not_array_def
  if_size_array_def ref_to_def

text \<open>
  The classes \<open>persistent_ptr<T>\<close> that can be instantiated: \<open>persistent_ptr<void>\<close> and \<open>persistent_ptr<const void>\<close> are
  full specialisations without the operators below; the primary template declares \<open>operator*\<close>, \<open>operator->\<close> and
  \<open>operator[]\<close> with the types the traits compute.
\<close>

definition persistent_ptr_class :: "cxx_type \<Rightarrow> bool" where
  "persistent_ptr_class T =
     (T = Void_type False False \<or> T = Void_type True False \<or>
      (sp_element T \<noteq> None \<and> sp_dereference T \<noteq> None \<and> sp_member_access T \<noteq> None \<and> sp_array_access T \<noteq> None))"

section \<open>Overloads\<close>

datatype overload = One_object | Array_of_n | Sized_array

text \<open>
  The overloads of \<open>make_persistent<T>\<close> that can be called with \<open>k\<close> arguments, with the type each returns, and those of
  \<open>delete_persistent<T>\<close> that can be called with \<open>k\<close> arguments, with the type of the parameter \<open>ptr\<close>. That parameter
  is taken by value: an argument of another type is converted to it at the call by the constructors of
  \<open>persistent_ptr_base\<close> (from a \<open>PMEMoid\<close>, a volatile pointer or a convertible \<open>persistent_ptr\<close>); these
  conversions play no part in the choice of the overload and are not modelled here.
\<close>

definition make_persistent_overloads :: "cxx_type \<Rightarrow> nat \<Rightarrow> (overload \<times> cxx_type) list" where
  "make_persistent_overloads T k =
     (case pp_if_not_array T of None \<Rightarrow> [] | Some P \<Rightarrow> [(One_object, P)]) @
     (case pp_if_array T of None \<Rightarrow> [] | Some P \<Rightarrow> if k = 1 then [(Array_of_n, P)] else []) @
     (case pp_if_size_array T of None \<Rightarrow> [] | Some P \<Rightarrow> if k = 0 then [(Sized_array, P)] else [])"

definition delete_persistent_overloads :: "cxx_type \<Rightarrow> nat \<Rightarrow> (overload \<times> cxx_type) list" where
  "delete_persistent_overloads T k =
     (case pp_if_not_array T of None \<Rightarrow> [] | Some P \<Rightarrow> if k = 1 then [(One_object, P)] else []) @
     (case pp_if_array T of None \<Rightarrow> [] | Some P \<Rightarrow> if k = 2 then [(Array_of_n, P)] else []) @
     (case pp_if_size_array T of None \<Rightarrow> [] | Some P \<Rightarrow> if k = 1 then [(Sized_array, P)] else [])"

text \<open>The number of bytes each overload asks \<open>pmemobj_tx_alloc\<close> for, and the type whose number it passes.\<close>

definition allocation :: "classes \<Rightarrow> overload \<Rightarrow> cxx_type \<Rightarrow> nat \<Rightarrow> (nat \<times> cxx_type) option" where
  "allocation E ov T N = (case ov of
     One_object \<Rightarrow> Some (size_of T E, T)
   | Array_of_n \<Rightarrow> map_option (\<lambda>I. (size_of I E * N, I)) (pp_array_type T)
   | Sized_array \<Rightarrow> map_option (\<lambda>I. (size_of I E * pp_array_elems T, I)) (pp_array_type T))"

text \<open>
  The number of arguments the run-time call has besides the handle, and what \<open>delete_persistent\<close> takes for the same type.
\<close>

definition make_arity :: "cxx_type \<Rightarrow> nat" where
  "make_arity T = (case T of Unbounded_array _ \<Rightarrow> 1 | _ \<Rightarrow> 0)"

text \<open>The overload meant for each type.\<close>

definition overload_of :: "cxx_type \<Rightarrow> overload" where
  "overload_of T = (case T of Unbounded_array _ \<Rightarrow> Array_of_n | Bounded_array _ _ \<Rightarrow> Sized_array | _ \<Rightarrow> One_object)"

text \<open>C20: 
  The traits resolve every call: for no number of arguments are two overloads of \<open>make_persistent<T>\<close> viable, with the
  right number exactly the one for single objects, for \<open>T[]\<close> or for \<open>T[N]\<close> is, and it returns a
  \<open>persistent_ptr<T>\<close>; for a handle and as many further arguments, and for no other number, \<open>delete_persistent<T>\<close>
  has one viable overload, the matching one, and its parameter has the type that \<open>make_persistent<T>\<close> returns; and an
  object type gets an allocation of exactly \<open>sizeof(T)\<close> bytes. (Arguments that convert implicitly to the parameter's
  type are converted at the call.)
\<close>

theorem make_persistent_overload_unique:
  "length (make_persistent_overloads T k) \<le> 1 \<and>
   make_persistent_overloads T (make_arity T) = [(overload_of T, Persistent_ptr T)] \<and>
   delete_persistent_overloads T k = (if k = Suc (make_arity T) then [(overload_of T, Persistent_ptr T)] else []) \<and>
   (object_type T \<longrightarrow> map_option fst (allocation E (overload_of T) T N) = Some (size_of T E))"
  by (cases T) (auto simp: make_persistent_overloads_def delete_persistent_overloads_def make_arity_def allocation_def
      overload_of_def trait_defs)

theorem make_persistent_overload_unique_witness:
  "map_option fst (allocation \<lparr>class_size = (\<lambda>_. 4), class_pod = (\<lambda>_. True)\<rparr> Sized_array
     (Bounded_array (Bounded_array (Named ''int'') 2) 3) 0) = Some 24"
  using make_persistent_overload_unique [of "Bounded_array (Bounded_array (Named ''int'') 2) 3" 0
      "\<lparr>class_size = (\<lambda>_. 4), class_pod = (\<lambda>_. True)\<rparr>" 0]
  by (simp add: overload_of_def)

text \<open>
  The operators of \<open>persistent_ptr<T>\<close> for an object type or an array of object types: indexing yields a reference to an
  element; dereferencing yields a reference and \<open>->\<close> a pointer unless the type is an array, and then nothing usable.
\<close>

theorem persistent_ptr_operators_typed:
  assumes "object_type T \<or> (\<exists>I. T = Unbounded_array I \<and> object_type I)"
  shows "\<exists>I. sp_element T = Some I \<and> object_type I \<and> sp_array_access T = Some (Lref I) \<and> persistent_ptr_class T \<and>
         (if is_array T then sp_dereference T = Some (Void_type False False) \<and> sp_member_access T = Some (Void_type False False)
          else I = T \<and> sp_dereference T = Some (Lref T) \<and> sp_member_access T = Some (Pointer T))"
  using assms by (cases T) (auto simp: trait_defs persistent_ptr_class_def split: cxx_type.splits)

theorem persistent_ptr_operators_typed_witness:
  "\<exists>I. sp_array_access (Bounded_array (Bounded_array (Named ''int'') 2) 3) = Some (Lref I)"
  using persistent_ptr_operators_typed [of "Bounded_array (Bounded_array (Named ''int'') 2) 3"] by fastforce

text \<open>
  \<open>sp_dereference\<close> is specialised for \<open>volatile void\<close> and \<open>const volatile void\<close>, but \<open>sp_array_access\<close> is not and
  there is no such specialisation of \<open>persistent_ptr\<close>, so these pointers cannot be instantiated.
\<close>

lemma volatile_void_pointer_ill_formed:
  "sp_dereference (Void_type c True) = Some (Void_type False False) \<and> \<not> persistent_ptr_class (Void_type c True)"
  by (cases c) (simp_all add: trait_defs persistent_ptr_class_def)

section \<open>Index sequences\<close>

text \<open>
  \<open>make_integer_seq_impl<size_t, I, integer_sequence<Indices...>, Types...>\<close> takes one type from the pack at each step;
  \<open>std::get<Indices>(tuple)...\<close> in \<open>create_object\<close> then expands the tuple into the arguments of the constructor.
\<close>

fun make_integer_seq_impl :: "nat \<Rightarrow> nat list \<Rightarrow> cxx_type list \<Rightarrow> nat list" where
  "make_integer_seq_impl I Indices [] = Indices"
| "make_integer_seq_impl I Indices (T # Types) = make_integer_seq_impl (I + 1) (Indices @ [I]) Types"

definition make_index_sequence :: "cxx_type list \<Rightarrow> nat list" where
  "make_index_sequence Types = make_integer_seq_impl 0 [] Types"

definition create_object_args :: "nat list \<Rightarrow> 'a list \<Rightarrow> 'a list" where
  "create_object_args Indices tuple = map (\<lambda>i. tuple ! i) Indices"

lemma make_integer_seq_impl_upt: "make_integer_seq_impl i xs ts = xs @ [i..<i + length ts]"
proof (induction ts arbitrary: i xs)
  case (Cons t ts)
  have "[i..<i + length (t # ts)] = i # [Suc i..<Suc i + length ts]"
    using upt_conv_Cons [of i "i + length (t # ts)"] by simp
  then show ?case by (simp add: Cons.IH del: upt_Suc)
qed simp

text \<open>The constructor an allocation calls receives the arguments of the call, all of them and in their order.\<close>

theorem create_object_passes_arguments:
  assumes "length Types = length tuple"
  shows "create_object_args (make_index_sequence Types) tuple = tuple"
  using assms by (simp add: create_object_args_def make_index_sequence_def make_integer_seq_impl_upt map_nth)

theorem create_object_passes_arguments_witness:
  "create_object_args (make_index_sequence [Named ''int'', Pointer (Named ''char''), Named ''bool'']) [7, 8, 9::nat] = [7, 8, 9]"
  using create_object_passes_arguments [of "[Named ''int'', Pointer (Named ''char''), Named ''bool'']" "[7, 8, 9::nat]"] by simp

section \<open>Construction and destruction of nested arrays\<close>

datatype life_event = Ctor cxx_type nat | Dtor cxx_type nat

type_synonym life = "(life_event list \<times> bool) option"

text \<open>
  The calls of a loop in order: the events so far and whether the loop went through; a call that throws ends it. \<open>None\<close>
  stands for a call no overload accepts.
\<close>

fun seq_life :: "life list \<Rightarrow> life" where
  "seq_life [] = Some ([], True)"
| "seq_life (None # rs) = None"
| "seq_life (Some (es, True) # rs) = map_option (\<lambda>(fs, b). (es @ fs, b)) (seq_life rs)"
| "seq_life (Some (es, False) # rs) = Some (es, False)"

text \<open>\<open>ok a\<close>: the constructor called for the address \<open>a\<close> returns; otherwise it throws.\<close>

definition create_leaf :: "cxx_type \<Rightarrow> (nat \<Rightarrow> bool) \<Rightarrow> nat \<Rightarrow> life" where
  "create_leaf T ok a = (case if_not_array T of None \<Rightarrow> None | Some _ \<Rightarrow>
     Some (if ok a then ([Ctor T a], True) else ([], False)))"

primrec create_type :: "cxx_type \<Rightarrow> classes \<Rightarrow> (nat \<Rightarrow> bool) \<Rightarrow> nat \<Rightarrow> life" where
  "create_type (Named c) E ok a = create_leaf (Named c) ok a"
| "create_type (Void_type c v) E ok a = None"
| "create_type (Bounded_array I N) E ok a = seq_life (map (\<lambda>i. create_type I E ok (a + i * size_of I E)) [0..<N])"
| "create_type (Unbounded_array I) E ok a = None"
| "create_type (Lref T) E ok a = None"
| "create_type (Pointer T) E ok a = create_leaf (Pointer T) ok a"
| "create_type (Persistent_ptr T) E ok a = create_leaf (Persistent_ptr T) ok a"
| "create_type Does_not_exist E ok a = None"

text \<open>
  \<open>std::is_pod\<close>: a class as its record says, scalars are, and \<open>persistent_ptr\<close> with its own constructors is not. The
  overload of \<open>destroy\<close> for POD types has an empty body.
\<close>

definition is_pod :: "classes \<Rightarrow> cxx_type \<Rightarrow> bool" where
  "is_pod E T = (case T of Named c \<Rightarrow> class_pod E c | Persistent_ptr _ \<Rightarrow> False | _ \<Rightarrow> True)"

definition destroy_leaf :: "cxx_type \<Rightarrow> classes \<Rightarrow> nat \<Rightarrow> life" where
  "destroy_leaf T E a = (case if_not_array T of None \<Rightarrow> None | Some _ \<Rightarrow>
     Some (if is_pod E T then [] else [Dtor T a], True))"

primrec destroy_type :: "cxx_type \<Rightarrow> classes \<Rightarrow> nat \<Rightarrow> life" where
  "destroy_type (Named c) E a = destroy_leaf (Named c) E a"
| "destroy_type (Void_type c v) E a = None"
| "destroy_type (Bounded_array I N) E a = seq_life (map (\<lambda>i. destroy_type I E (a + (N - 1 - i) * size_of I E)) [0..<N])"
| "destroy_type (Unbounded_array I) E a = None"
| "destroy_type (Lref T) E a = None"
| "destroy_type (Pointer T) E a = destroy_leaf (Pointer T) E a"
| "destroy_type (Persistent_ptr T) E a = destroy_leaf (Persistent_ptr T) E a"
| "destroy_type Does_not_exist E a = None"

text \<open>
  The body of \<open>make_persistent<T[]>\<close> and \<open>make_persistent<T[N]>\<close> after the allocation at \<open>a\<close>: the loop of \<open>create<I>\<close>,
  and the handler that destroys the elements before the one that threw. \<open>made_elems\<close> is the value of \<open>i\<close> in the handler.
\<close>

definition elem_addr :: "cxx_type \<Rightarrow> classes \<Rightarrow> nat \<Rightarrow> nat \<Rightarrow> nat" where
  "elem_addr I E a i = a + i * size_of I E"

fun made_elems :: "cxx_type \<Rightarrow> classes \<Rightarrow> (nat \<Rightarrow> bool) \<Rightarrow> nat \<Rightarrow> nat list \<Rightarrow> nat" where
  "made_elems I E ok a [] = 0"
| "made_elems I E ok a (i # is) =
     (case create_type I E ok (elem_addr I E a i) of Some (_, True) \<Rightarrow> Suc (made_elems I E ok a is) | _ \<Rightarrow> 0)"

definition make_array_life :: "cxx_type \<Rightarrow> classes \<Rightarrow> (nat \<Rightarrow> bool) \<Rightarrow> nat \<Rightarrow> nat \<Rightarrow> life" where
  "make_array_life I E ok N a =
     (case seq_life (map (\<lambda>i. create_type I E ok (elem_addr I E a i)) [0..<N]) of
        None \<Rightarrow> None
      | Some (es, True) \<Rightarrow> Some (es, True)
      | Some (es, False) \<Rightarrow>
          (let i = made_elems I E ok a [0..<N] in
           map_option (\<lambda>(ds, _). (es @ ds, False))
             (seq_life (map (\<lambda>j. destroy_type I E (elem_addr I E a (i - j))) [1..<Suc i]))))"

definition delete_array_life :: "cxx_type \<Rightarrow> classes \<Rightarrow> nat \<Rightarrow> nat \<Rightarrow> life" where
  "delete_array_life I E N a = seq_life (map (\<lambda>i. destroy_type I E (elem_addr I E a (N - 1 - i))) [0..<N])"

text \<open>
  The flat form: an object type is a run of \<open>extents T\<close> leaves of type \<open>strip T\<close>, one after the other.
\<close>

primrec strip :: "cxx_type \<Rightarrow> cxx_type" where
  "strip (Named c) = Named c"
| "strip (Void_type c v) = Void_type c v"
| "strip (Bounded_array I N) = strip I"
| "strip (Unbounded_array I) = Unbounded_array I"
| "strip (Lref T) = Lref T"
| "strip (Pointer T) = Pointer T"
| "strip (Persistent_ptr T) = Persistent_ptr T"
| "strip Does_not_exist = Does_not_exist"

primrec extents :: "cxx_type \<Rightarrow> nat" where
  "extents (Named c) = 1"
| "extents (Void_type c v) = 1"
| "extents (Bounded_array I N) = N * extents I"
| "extents (Unbounded_array I) = 1"
| "extents (Lref T) = 1"
| "extents (Pointer T) = 1"
| "extents (Persistent_ptr T) = 1"
| "extents Does_not_exist = 1"

definition leaf_addrs :: "cxx_type \<Rightarrow> classes \<Rightarrow> nat \<Rightarrow> nat list" where
  "leaf_addrs T E a = map (\<lambda>k. a + k * size_of (strip T) E) [0..<extents T]"

definition flat_life :: "cxx_type \<Rightarrow> (nat \<Rightarrow> bool) \<Rightarrow> nat list \<Rightarrow> life" where
  "flat_life T ok as = Some (map (Ctor T) (takeWhile ok as), list_all ok as)"

lemma size_of_strip: "size_of T E = extents T * size_of (strip T) E"
  by (induction T) simp_all

lemma strip_leaf: "\<not> is_array T \<Longrightarrow> strip T = T" "\<not> is_array T \<Longrightarrow> extents T = 1"
  by (cases T; simp)+

lemma concat_upt_blocks: "concat (map (\<lambda>i. map (\<lambda>k. f (i * c + k)) [0..<c]) [0..<n]) = map f [0..<n * c]"
proof (induction n)
  case (Suc n)
  have "[0..<Suc n * c] = [0..<n * c] @ map (\<lambda>k. n * c + k) [0..<c]"
    using upt_add_eq_append [of 0 "n * c" c] map_add_upt [of "n * c" c] by (simp add: add.commute)
  with Suc show ?case by simp
qed simp

lemma leaf_addrs_array:
  "leaf_addrs (Bounded_array I N) E a = concat (map (\<lambda>i. leaf_addrs I E (a + i * size_of I E)) [0..<N])"
proof -
  have "a + i * size_of I E + k * size_of (strip I) E = a + (i * extents I + k) * size_of (strip I) E" for i k
    by (simp add: size_of_strip [of I] algebra_simps)
  then have blocks: "concat (map (\<lambda>i. leaf_addrs I E (a + i * size_of I E)) [0..<N])
      = concat (map (\<lambda>i. map (\<lambda>k. (\<lambda>j. a + j * size_of (strip I) E) (i * extents I + k)) [0..<extents I]) [0..<N])"
    by (simp only: leaf_addrs_def)
  show ?thesis unfolding blocks
    using concat_upt_blocks [of "\<lambda>j. a + j * size_of (strip I) E" "extents I" N] by (simp add: leaf_addrs_def)
qed

lemma flat_life_append:
  "flat_life T ok (xs @ ys) =
     (if list_all ok xs then map_option (\<lambda>(fs, b). (map (Ctor T) xs @ fs, b)) (flat_life T ok ys) else flat_life T ok xs)"
proof (cases "list_all ok xs")
  case True
  then have "takeWhile ok (xs @ ys) = xs @ takeWhile ok ys" by (simp add: list_all_iff)
  with True show ?thesis by (simp add: flat_life_def)
next
  case False
  then obtain x where "x \<in> set xs" "\<not> ok x" by (auto simp: list_all_iff)
  then have "takeWhile ok (xs @ ys) = takeWhile ok xs" by (rule takeWhile_append1)
  with False show ?thesis by (simp add: flat_life_def)
qed

lemma seq_life_flat: "seq_life (map (\<lambda>i. flat_life T ok (g i)) is) = flat_life T ok (concat (map g is))"
proof (induction "is")
  case (Cons i "is")
  show ?case
  proof (cases "list_all ok (g i)")
    case True
    then have "takeWhile ok (g i) = g i" by (simp add: list_all_iff takeWhile_eq_all_conv)
    then have "flat_life T ok (g i) = Some (map (Ctor T) (g i), True)" by (simp only: flat_life_def True)
    with True Cons show ?thesis by (simp add: flat_life_append)
  next
    case False
    with Cons show ?thesis by (simp add: flat_life_append) (simp add: flat_life_def)
  qed
qed (simp add: flat_life_def)

lemma create_type_flat:
  "object_type T \<Longrightarrow> create_type T E ok a = flat_life (strip T) ok (leaf_addrs T E a)"
proof (induction T arbitrary: a)
  case (Bounded_array I N)
  then show ?case by (simp add: seq_life_flat leaf_addrs_array)
qed (simp_all add: create_leaf_def if_not_array_def flat_life_def leaf_addrs_def)

lemma seq_life_all: "seq_life (map (\<lambda>i. Some (h i, True)) is) = Some (concat (map h is), True)"
  by (induction "is") simp_all

lemma map_downwards: "map (\<lambda>i. f (N - 1 - i)) [0..<N] = rev (map f [0..<N])"
  by (rule nth_equalityI) (simp_all add: rev_nth)

lemma map_downwards_from_one: "map (\<lambda>j. f (m - j)) [1..<Suc m] = rev (map f [0..<m])"
  by (rule nth_equalityI) (simp_all add: rev_nth del: upt_Suc)

definition dtors :: "classes \<Rightarrow> cxx_type \<Rightarrow> nat list \<Rightarrow> life_event list" where
  "dtors E T as = (if is_pod E T then [] else map (Dtor T) as)"

lemma concat_dtors: "concat (rev (map (\<lambda>i. dtors E T (rev (g i))) is)) = dtors E T (rev (concat (map g is)))"
  by (induction "is") (simp_all add: dtors_def)

lemma destroy_type_flat:
  "object_type T \<Longrightarrow> destroy_type T E a = Some (dtors E (strip T) (rev (leaf_addrs T E a)), True)"
proof (induction T arbitrary: a)
  case (Bounded_array I N)
  then have "destroy_type (Bounded_array I N) E a =
      seq_life (map (\<lambda>i. Some (dtors E (strip I) (rev (leaf_addrs I E (a + (N - 1 - i) * size_of I E))), True)) [0..<N])"
    by simp
  then show ?case
    unfolding seq_life_all map_downwards [where f = "\<lambda>i. dtors E (strip I) (rev (leaf_addrs I E (a + i * size_of I E)))"]
    by (simp add: leaf_addrs_array concat_dtors)
qed (simp_all add: destroy_leaf_def if_not_array_def dtors_def leaf_addrs_def)

lemma leaf_addrs_elems:
  "concat (map (\<lambda>i. leaf_addrs I E (elem_addr I E a i)) [0..<N]) = leaf_addrs (Bounded_array I N) E a"
  by (simp add: elem_addr_def leaf_addrs_array)

lemma length_leaf_addrs [simp]: "length (leaf_addrs T E a) = extents T"
  by (simp add: leaf_addrs_def)

lemma made_elems_flat:
  assumes "object_type I"
  shows "made_elems I E ok a is = length (takeWhile (\<lambda>i. list_all ok (leaf_addrs I E (elem_addr I E a i))) is)"
proof (induction "is")
  case (Cons i "is")
  then show ?case
    by (cases "list_all ok (leaf_addrs I E (elem_addr I E a i))") (simp_all add: create_type_flat [OF assms] flat_life_def)
qed simp

text \<open>C22: 
  \<open>make_persistent<T[N]>\<close> and its \<open>delete_persistent\<close>, for elements that may themselves be arrays: all scalars are
  constructed, each once, in the order of their addresses, and destroyed in exactly the opposite order.
\<close>

theorem nested_arrays_built_and_destroyed_in_order:
  assumes "object_type I"
  shows "make_array_life I E (\<lambda>_. True) N a = Some (map (Ctor (strip I)) (leaf_addrs (Bounded_array I N) E a), True) \<and>
         delete_array_life I E N a = Some (dtors E (strip I) (rev (leaf_addrs (Bounded_array I N) E a)), True)"
proof
  have full: "flat_life T (\<lambda>_. True) xs = Some (map (Ctor T) xs, True)" for T xs
    by (simp add: flat_life_def list_all_iff takeWhile_eq_all_conv [THEN iffD2])
  have "seq_life (map (\<lambda>i. create_type I E (\<lambda>_. True) (elem_addr I E a i)) [0..<N]) =
      flat_life (strip I) (\<lambda>_. True) (leaf_addrs (Bounded_array I N) E a)"
    by (simp only: create_type_flat [OF assms] seq_life_flat leaf_addrs_elems)
  then show "make_array_life I E (\<lambda>_. True) N a = Some (map (Ctor (strip I)) (leaf_addrs (Bounded_array I N) E a), True)"
    by (simp add: make_array_life_def full)
  have "delete_array_life I E N a =
      seq_life (map (\<lambda>i. Some (dtors E (strip I) (rev (leaf_addrs I E (elem_addr I E a (N - 1 - i)))), True)) [0..<N])"
    by (simp add: delete_array_life_def destroy_type_flat [OF assms])
  then show "delete_array_life I E N a = Some (dtors E (strip I) (rev (leaf_addrs (Bounded_array I N) E a)), True)"
    unfolding seq_life_all map_downwards [where f = "\<lambda>i. dtors E (strip I) (rev (leaf_addrs I E (elem_addr I E a i)))"]
      concat_dtors leaf_addrs_elems .
qed

theorem nested_arrays_built_and_destroyed_in_order_witness:
  "delete_array_life (Bounded_array (Named ''node'') 2) \<lparr>class_size = (\<lambda>_. 8), class_pod = (\<lambda>_. False)\<rparr> 2 100 =
     Some ([Dtor (Named ''node'') 124, Dtor (Named ''node'') 116, Dtor (Named ''node'') 108, Dtor (Named ''node'') 100], True)"
  using nested_arrays_built_and_destroyed_in_order [of "Bounded_array (Named ''node'') 2"
      "\<lparr>class_size = (\<lambda>_. 8), class_pod = (\<lambda>_. False)\<rparr>" 2 100]
  by (simp add: dtors_def is_pod_def leaf_addrs_def upt_rec)

text \<open>C21: 
  When the constructor of scalar \<open>k\<close> throws, the handler destroys whole elements only: it destroys, in reverse order,
  the scalars of the \<open>k div c\<close> elements before the failing one (\<open>c\<close> scalars each). If the elements are arrays, the
  \<open>k mod c\<close> scalars already built in the failing element are not destroyed, since \<open>create\<close> for arrays has no handler.
\<close>

theorem array_unwinding_destroys_whole_elements:
  assumes "object_type I" "as = leaf_addrs (Bounded_array I N) E a" "k < length as"
    and "\<forall>j<k. ok (as ! j)" "\<not> ok (as ! k)"
  shows "make_array_life I E ok N a =
    Some (map (Ctor (strip I)) (take k as) @ dtors E (strip I) (rev (take (k div extents I * extents I) as)), False)"
proof -
  define c where "c = extents I"
  define s where "s = size_of (strip I) E"
  have as: "as = map (\<lambda>j. a + j * s) [0..<N * c]" using assms(2) by (simp add: leaf_addrs_def c_def s_def)
  have k: "k < N * c" using assms(3) by (simp add: as)
  then have c: "0 < c" by (cases c) simp_all
  have m: "k div c < N" using k by (simp add: div_less_iff_less_mult c)
  have leaf: "leaf_addrs I E (elem_addr I E a i) = map (\<lambda>j. a + (i * c + j) * s) [0..<c]" for i
    by (simp add: leaf_addrs_def elem_addr_def size_of_strip [of I] c_def s_def algebra_simps)
  have tw: "takeWhile ok as = take k as" by (rule takeWhile_eq_take_P_nth) (use assms(4,5) in auto)
  have all: "\<not> list_all ok as" using assms(3,5) by (auto simp: list_all_length)
  have okj: "ok (a + j * s)" if "j < k" for j using assms(4) that k by (simp add: as)
  have nok: "\<not> ok (a + k * s)" using assms(5) k by (simp add: as)
  have "takeWhile (\<lambda>i. list_all ok (leaf_addrs I E (elem_addr I E a i))) [0..<N] = take (k div c) [0..<N]"
  proof (rule takeWhile_eq_take_P_nth)
    fix i assume "i < k div c"
    then have "Suc i * c \<le> k div c * c" by (intro mult_le_mono1) simp
    then have "i * c + j < k" if "j < c" for j
      using that div_times_less_eq_dividend [of k c] by (simp only: mult_Suc)
    then show "list_all ok (leaf_addrs I E (elem_addr I E a ([0..<N] ! i)))" if "i < length [0..<N]"
      using that okj by (simp add: leaf list_all_iff)
  next
    have "\<not> ok (a + (k div c * c + k mod c) * s)" using nok by simp
    then show "\<not> list_all ok (leaf_addrs I E (elem_addr I E a ([0..<N] ! (k div c))))"
      using m mod_less_divisor [OF c, of k] by (auto simp: leaf list_all_iff intro!: bexI [where x = "k mod c"])
  qed
  then have made: "made_elems I E ok a [0..<N] = k div c" using m by (simp add: made_elems_flat [OF assms(1)])
  have blocks: "concat (map (\<lambda>i. leaf_addrs I E (elem_addr I E a i)) [0..<k div c]) = take (k div c * c) as"
    unfolding leaf_addrs_elems using m by (simp add: as take_map leaf_addrs_def c_def s_def mult_le_mono1)
  have "seq_life (map (\<lambda>j. destroy_type I E (elem_addr I E a (k div c - j))) [1..<Suc (k div c)]) =
      Some (dtors E (strip I) (rev (take (k div c * c) as)), True)"
    unfolding destroy_type_flat [OF assms(1)] seq_life_all
      map_downwards_from_one [where f = "\<lambda>i. dtors E (strip I) (rev (leaf_addrs I E (elem_addr I E a i)))"]
      concat_dtors blocks ..
  moreover have "seq_life (map (\<lambda>i. create_type I E ok (elem_addr I E a i)) [0..<N]) =
      Some (map (Ctor (strip I)) (take k as), False)"
    by (simp add: create_type_flat [OF assms(1)] seq_life_flat leaf_addrs_elems assms(2) [symmetric])
      (simp add: flat_life_def tw all)
  ultimately show ?thesis by (simp add: make_array_life_def made Let_def c_def del: upt_Suc)
qed

theorem array_unwinding_destroys_whole_elements_witness:
  "make_array_life (Bounded_array (Named ''node'') 2) \<lparr>class_size = (\<lambda>_. 8), class_pod = (\<lambda>_. False)\<rparr> (\<lambda>a. a \<noteq> 24) 2 0 =
     Some ([Ctor (Named ''node'') 0, Ctor (Named ''node'') 8, Ctor (Named ''node'') 16,
            Dtor (Named ''node'') 8, Dtor (Named ''node'') 0], False)"
  using array_unwinding_destroys_whole_elements [of "Bounded_array (Named ''node'') 2" "[0, 8, 16, 24]" 2
      "\<lparr>class_size = (\<lambda>_. 8), class_pod = (\<lambda>_. False)\<rparr>" 0 3 "\<lambda>a. a \<noteq> 24"]
  by (simp add: dtors_def is_pod_def leaf_addrs_def upt_rec less_Suc_eq numeral_3_eq_3)

end
