(* ===== verification/Tx_Macros.thy ===== *)
theory Tx_Macros
  imports Pmem_Cpp
begin

text \<open>
  The C interface to transactions, \<open>src/pmdk-include/libpmemobj/tx.h\<close>: the blocks
  \<open>TX_BEGIN ... TX_ONABORT ... TX_ONCOMMIT ... TX_FINALLY ... TX_END\<close>, which are a loop over the stages of the
  transaction around a \<open>switch\<close>, and the macros and inline functions used inside them. In C the non-local exit is the
  \<open>longjmp\<close> that follows a transition to \<open>TX_STAGE_ONABORT\<close>; the sources of this interface throw no C++ exception,
  so \<open>Throw\<close> stands for it here. The volatile part of the state is a pair whose first component is \<open>errno\<close>.
  The loop runs on fuel; four rounds are proved to be enough.
\<close>

section \<open>The calls\<close>

text \<open>
  \<open>pmemobj_tx_process\<close> performs the action of the current stage and moves to the next one; it must be called in a
  transaction.
\<close>

definition process_pool :: "'o pool \<Rightarrow> 'o pool" where
  "process_pool p = (case stage p of
     TX_STAGE_NONE \<Rightarrow> p
   | TX_STAGE_WORK \<Rightarrow> commit_pool p
   | TX_STAGE_ONCOMMIT \<Rightarrow> p\<lparr>stage := TX_STAGE_FINALLY\<rparr>
   | TX_STAGE_ONABORT \<Rightarrow> p\<lparr>stage := TX_STAGE_FINALLY\<rparr>
   | TX_STAGE_FINALLY \<Rightarrow> p\<lparr>stage := TX_STAGE_NONE\<rparr>)"

definition pmemobj_tx_process :: "('v, 'o, unit) pcpp" where
  "pmemobj_tx_process = (\<lambda>(v, p).
     if stage p = TX_STAGE_NONE then (Die Contract_broken, v, p) else (Val (), v, process_pool p))"

definition Longjmp :: exn where
  "Longjmp = Manual_tx_abort"

text \<open>
  A library call inside a transaction: with a \<open>jmp_buf\<close> (\<open>env\<close>) a transition to \<open>TX_STAGE_ONABORT\<close> does not return;
  without one, as in the transactions of libpmemobj++, which pass a null \<open>jmp_buf\<close>, it does.
\<close>

definition jumping :: "bool \<Rightarrow> ('v, 'o, 'a) pcpp \<Rightarrow> ('v, 'o, 'a) pcpp" where
  "jumping env m = bindC m (\<lambda>x. bindC pmemobj_tx_stage (\<lambda>st.
     if env \<and> st = TX_STAGE_ONABORT then throwC Longjmp else returnC x))"

definition set_errno :: "int \<Rightarrow> (int \<times> 'u, 'o, unit) pcpp" where
  "set_errno e = (\<lambda>((_, u), p). (Val (), (e, u), p))"

section \<open>Blocks\<close>

text \<open>The sections of a block; a section that is not written is handled by \<open>default\<close>.\<close>

record ('u, 'o) tx_sections =
  work :: "(int \<times> 'u, 'o, unit) pcpp"
  on_abort :: "(int \<times> 'u, 'o, unit) pcpp option"
  on_commit :: "(int \<times> 'u, 'o, unit) pcpp option"
  on_finally :: "(int \<times> 'u, 'o, unit) pcpp option"

definition section_of :: "('u, 'o) tx_sections \<Rightarrow> tx_stage \<Rightarrow> (int \<times> 'u, 'o, unit) pcpp option" where
  "section_of B st = (case st of
     TX_STAGE_NONE \<Rightarrow> None
   | TX_STAGE_WORK \<Rightarrow> Some (work B)
   | TX_STAGE_ONCOMMIT \<Rightarrow> on_commit B
   | TX_STAGE_ONABORT \<Rightarrow> on_abort B
   | TX_STAGE_FINALLY \<Rightarrow> on_finally B)"

text \<open>\<open>crash\<close>: compiled with \<open>POBJ_TX_CRASH_ON_NO_ONABORT\<close>; \<open>abort()\<close> ends the process.\<close>

definition TX_ONABORT_CHECK :: "bool \<Rightarrow> tx_stage \<Rightarrow> ('v, 'o, unit) pcpp" where
  "TX_ONABORT_CHECK crash st = (if crash \<and> st = TX_STAGE_ONABORT then dieC Exit_process else returnC ())"

definition tx_switch :: "bool \<Rightarrow> ('u, 'o) tx_sections \<Rightarrow> tx_stage \<Rightarrow> (int \<times> 'u, 'o, unit) pcpp" where
  "tx_switch crash B st = (case section_of B st of
     Some body \<Rightarrow> thenC body pmemobj_tx_process
   | None \<Rightarrow> thenC (TX_ONABORT_CHECK crash st) pmemobj_tx_process)"

text \<open>
  The loop. A \<open>longjmp\<close> returns to \<open>setjmp\<close> in front of it, which sets \<open>errno\<close>, and the loop is entered again.
  The result says whether the loop was left before the fuel ran out.
\<close>

primrec tx_loop :: "bool \<Rightarrow> ('u, 'o) tx_sections \<Rightarrow> nat \<Rightarrow> (int \<times> 'u, 'o, bool) pcpp" where
  "tx_loop crash B 0 = returnC False"
| "tx_loop crash B (Suc n) = bindC pmemobj_tx_stage (\<lambda>st.
     if st = TX_STAGE_NONE then returnC True
     else bindC (tryC (tx_switch crash B st)) (\<lambda>r. case r of
            Inl _ \<Rightarrow> thenC (bindC pmemobj_tx_errno set_errno) (tx_loop crash B n)
          | Inr _ \<Rightarrow> tx_loop crash B n))"

text \<open>
  The whole block. When a nested transaction failed, \<open>pmemobj_tx_end\<close> aborts the enclosing one and jumps to it.
\<close>

definition tx_block :: "bool \<Rightarrow> 'o libpmemobj \<Rightarrow> ('u, 'o) tx_sections \<Rightarrow> nat \<Rightarrow> (int \<times> 'u, 'o, bool) pcpp" where
  "tx_block crash L B n =
     bindC (pmemobj_tx_begin L) (\<lambda>rc.
     thenC (if rc \<noteq> 0 then set_errno rc else returnC ())
       (bindC (tx_loop crash B n) (\<lambda>fin.
          if \<not> fin then returnC False
          else bindC (jumping True pmemobj_tx_end) (\<lambda>rc2.
            thenC (if rc2 \<noteq> 0 then set_errno rc2 else returnC ()) (returnC True)))))"

section \<open>Statements inside a block\<close>

definition TX_ADD_FIELD :: "bool \<Rightarrow> 'o libpmemobj \<Rightarrow> nat \<Rightarrow> ('o \<Rightarrow> 'f option) \<Rightarrow> ('f \<Rightarrow> 'o \<Rightarrow> 'o) \<Rightarrow> ('v, 'o, int) pcpp" where
  "TX_ADD_FIELD env L a g s = jumping env (pmemobj_tx_add_range_direct L a g s)"

text \<open>\<open>TX_SET\<close> discards the result of \<open>TX_ADD_FIELD\<close> (comma operator); so do \<open>TX_MEMCPY\<close> and \<open>TX_MEMSET\<close>.\<close>

definition TX_SET :: "bool \<Rightarrow> 'o libpmemobj \<Rightarrow> nat \<Rightarrow> ('o \<Rightarrow> 'f option) \<Rightarrow> ('f \<Rightarrow> 'o \<Rightarrow> 'o) \<Rightarrow> 'f \<Rightarrow> ('v, 'o, unit) pcpp" where
  "TX_SET env L a g s x = bindC (TX_ADD_FIELD env L a g s) (\<lambda>_. pwrite_raw a g s x)"

definition TX_MEMCPY ::
  "bool \<Rightarrow> 'o libpmemobj \<Rightarrow> nat \<Rightarrow> ('o \<Rightarrow> byte list option) \<Rightarrow> (byte list \<Rightarrow> 'o \<Rightarrow> 'o) \<Rightarrow> byte list \<Rightarrow> nat \<Rightarrow> ('v, 'o, unit) pcpp" where
  "TX_MEMCPY env L a g s src num =
     bindC (jumping env (pmemobj_tx_add_range_direct L a g s)) (\<lambda>_. pwrite_raw a g s (take num src))"

definition TX_MEMSET ::
  "bool \<Rightarrow> 'o libpmemobj \<Rightarrow> nat \<Rightarrow> ('o \<Rightarrow> byte list option) \<Rightarrow> (byte list \<Rightarrow> 'o \<Rightarrow> 'o) \<Rightarrow> byte \<Rightarrow> nat \<Rightarrow> ('v, 'o, unit) pcpp" where
  "TX_MEMSET env L a g s c num =
     bindC (jumping env (pmemobj_tx_add_range_direct L a g s)) (\<lambda>_. pwrite_raw a g s (replicate num c))"

text \<open>\<open>TX_NEW\<close> and \<open>TX_ZNEW\<close>: the second gets memory full of zeroes, \<open>zeroed\<close>; \<open>raw\<close> is any other content.\<close>

definition TX_NEW :: "bool \<Rightarrow> 'o libpmemobj \<Rightarrow> nat \<Rightarrow> 'o \<Rightarrow> ('v, 'o, nat) pcpp" where
  "TX_NEW env L sz raw = jumping env (pmemobj_tx_alloc L sz raw)"

definition TX_ZNEW :: "bool \<Rightarrow> 'o libpmemobj \<Rightarrow> nat \<Rightarrow> 'o \<Rightarrow> ('v, 'o, nat) pcpp" where
  "TX_ZNEW env L sz zeroed = jumping env (pmemobj_tx_alloc L sz zeroed)"

definition TX_FREE :: "bool \<Rightarrow> 'o libpmemobj \<Rightarrow> nat \<Rightarrow> ('v, 'o, int) pcpp" where
  "TX_FREE env L a = jumping env (pmemobj_tx_free L a)"

text \<open>
  The variants. Flags that tell the library not to flush the range at the commit have no effect at the level of the model, which has
  no caches; \<open>POBJ_XALLOC_ZERO\<close> is bit 0. The duplicate of a string holds its characters and the terminating zero (\<open>wchar_t\<close> has 4 bytes);
  \<open>mk\<close> makes the object. How an object is resized is up to the library, the argument \<open>realloc\<close>.
\<close>

definition pmemobj_tx_xadd_range ::
  "'o libpmemobj \<Rightarrow> nat \<Rightarrow> ('o \<Rightarrow> 'f option) \<Rightarrow> ('f \<Rightarrow> 'o \<Rightarrow> 'o) \<Rightarrow> u64 \<Rightarrow> ('v, 'o, int) pcpp" where
  "pmemobj_tx_xadd_range L ob g s flags = pmemobj_tx_add_range L ob g s"

definition pmemobj_tx_xadd_range_direct ::
  "'o libpmemobj \<Rightarrow> nat \<Rightarrow> ('o \<Rightarrow> 'f option) \<Rightarrow> ('f \<Rightarrow> 'o \<Rightarrow> 'o) \<Rightarrow> u64 \<Rightarrow> ('v, 'o, int) pcpp" where
  "pmemobj_tx_xadd_range_direct L a g s flags = pmemobj_tx_add_range_direct L a g s"

definition pmemobj_tx_zalloc :: "'o libpmemobj \<Rightarrow> nat \<Rightarrow> 'o \<Rightarrow> ('v, 'o, nat) pcpp" where
  "pmemobj_tx_zalloc L sz zeroed = pmemobj_tx_alloc L sz zeroed"

definition pmemobj_tx_xalloc :: "'o libpmemobj \<Rightarrow> nat \<Rightarrow> 'o \<Rightarrow> 'o \<Rightarrow> u64 \<Rightarrow> ('v, 'o, nat) pcpp" where
  "pmemobj_tx_xalloc L sz raw zeroed flags = pmemobj_tx_alloc L sz (if bit flags 0 then zeroed else raw)"

definition pmemobj_tx_strdup :: "'o libpmemobj \<Rightarrow> (byte list \<Rightarrow> 'o) \<Rightarrow> byte list \<Rightarrow> ('v, 'o, nat) pcpp" where
  "pmemobj_tx_strdup L mk str = pmemobj_tx_alloc L (length str + 1) (mk (str @ [0]))"

definition pmemobj_tx_wcsdup :: "'o libpmemobj \<Rightarrow> (u32 list \<Rightarrow> 'o) \<Rightarrow> u32 list \<Rightarrow> ('v, 'o, nat) pcpp" where
  "pmemobj_tx_wcsdup L mk str = pmemobj_tx_alloc L (4 * (length str + 1)) (mk (str @ [0]))"

definition TX_ADD :: "bool \<Rightarrow> 'o libpmemobj \<Rightarrow> nat \<Rightarrow> ('o \<Rightarrow> 'f option) \<Rightarrow> ('f \<Rightarrow> 'o \<Rightarrow> 'o) \<Rightarrow> ('v, 'o, int) pcpp" where
  "TX_ADD env L ob g s = jumping env (pmemobj_tx_add_range L ob g s)"

definition TX_ADD_DIRECT :: "bool \<Rightarrow> 'o libpmemobj \<Rightarrow> nat \<Rightarrow> ('o \<Rightarrow> 'f option) \<Rightarrow> ('f \<Rightarrow> 'o \<Rightarrow> 'o) \<Rightarrow> ('v, 'o, int) pcpp" where
  "TX_ADD_DIRECT env L a g s = jumping env (pmemobj_tx_add_range_direct L a g s)"

definition TX_ADD_FIELD_DIRECT ::
  "bool \<Rightarrow> 'o libpmemobj \<Rightarrow> nat \<Rightarrow> ('o \<Rightarrow> 'f option) \<Rightarrow> ('f \<Rightarrow> 'o \<Rightarrow> 'o) \<Rightarrow> ('v, 'o, int) pcpp" where
  "TX_ADD_FIELD_DIRECT env L a g s = jumping env (pmemobj_tx_add_range_direct L a g s)"

definition TX_XADD :: "bool \<Rightarrow> 'o libpmemobj \<Rightarrow> nat \<Rightarrow> ('o \<Rightarrow> 'f option) \<Rightarrow> ('f \<Rightarrow> 'o \<Rightarrow> 'o) \<Rightarrow> u64 \<Rightarrow> ('v, 'o, int) pcpp" where
  "TX_XADD env L ob g s flags = jumping env (pmemobj_tx_xadd_range L ob g s flags)"

definition TX_XADD_DIRECT ::
  "bool \<Rightarrow> 'o libpmemobj \<Rightarrow> nat \<Rightarrow> ('o \<Rightarrow> 'f option) \<Rightarrow> ('f \<Rightarrow> 'o \<Rightarrow> 'o) \<Rightarrow> u64 \<Rightarrow> ('v, 'o, int) pcpp" where
  "TX_XADD_DIRECT env L a g s flags = jumping env (pmemobj_tx_xadd_range_direct L a g s flags)"

definition TX_XADD_FIELD ::
  "bool \<Rightarrow> 'o libpmemobj \<Rightarrow> nat \<Rightarrow> ('o \<Rightarrow> 'f option) \<Rightarrow> ('f \<Rightarrow> 'o \<Rightarrow> 'o) \<Rightarrow> u64 \<Rightarrow> ('v, 'o, int) pcpp" where
  "TX_XADD_FIELD env L a g s flags = TX_XADD_DIRECT env L a g s flags"

definition TX_XADD_FIELD_DIRECT ::
  "bool \<Rightarrow> 'o libpmemobj \<Rightarrow> nat \<Rightarrow> ('o \<Rightarrow> 'f option) \<Rightarrow> ('f \<Rightarrow> 'o \<Rightarrow> 'o) \<Rightarrow> u64 \<Rightarrow> ('v, 'o, int) pcpp" where
  "TX_XADD_FIELD_DIRECT env L a g s flags = jumping env (pmemobj_tx_xadd_range_direct L a g s flags)"

definition TX_SET_DIRECT ::
  "bool \<Rightarrow> 'o libpmemobj \<Rightarrow> nat \<Rightarrow> ('o \<Rightarrow> 'f option) \<Rightarrow> ('f \<Rightarrow> 'o \<Rightarrow> 'o) \<Rightarrow> 'f \<Rightarrow> ('v, 'o, unit) pcpp" where
  "TX_SET_DIRECT env L a g s x = bindC (TX_ADD_FIELD_DIRECT env L a g s) (\<lambda>_. pwrite_raw a g s x)"

definition TX_ALLOC :: "bool \<Rightarrow> 'o libpmemobj \<Rightarrow> nat \<Rightarrow> 'o \<Rightarrow> ('v, 'o, nat) pcpp" where
  "TX_ALLOC env L sz raw = jumping env (pmemobj_tx_alloc L sz raw)"

definition TX_ZALLOC :: "bool \<Rightarrow> 'o libpmemobj \<Rightarrow> nat \<Rightarrow> 'o \<Rightarrow> ('v, 'o, nat) pcpp" where
  "TX_ZALLOC env L sz zeroed = jumping env (pmemobj_tx_zalloc L sz zeroed)"

definition TX_XALLOC :: "bool \<Rightarrow> 'o libpmemobj \<Rightarrow> nat \<Rightarrow> 'o \<Rightarrow> 'o \<Rightarrow> u64 \<Rightarrow> ('v, 'o, nat) pcpp" where
  "TX_XALLOC env L sz raw zeroed flags = jumping env (pmemobj_tx_xalloc L sz raw zeroed flags)"

definition TX_REALLOC :: "bool \<Rightarrow> (nat \<Rightarrow> nat \<Rightarrow> ('v, 'o, nat) pcpp) \<Rightarrow> nat \<Rightarrow> nat \<Rightarrow> ('v, 'o, nat) pcpp" where
  "TX_REALLOC env realloc a sz = jumping env (realloc a sz)"

definition TX_ZREALLOC :: "bool \<Rightarrow> (nat \<Rightarrow> nat \<Rightarrow> ('v, 'o, nat) pcpp) \<Rightarrow> nat \<Rightarrow> nat \<Rightarrow> ('v, 'o, nat) pcpp" where
  "TX_ZREALLOC env zrealloc a sz = jumping env (zrealloc a sz)"

definition TX_STRDUP :: "bool \<Rightarrow> 'o libpmemobj \<Rightarrow> (byte list \<Rightarrow> 'o) \<Rightarrow> byte list \<Rightarrow> ('v, 'o, nat) pcpp" where
  "TX_STRDUP env L mk str = jumping env (pmemobj_tx_strdup L mk str)"

definition TX_WCSDUP :: "bool \<Rightarrow> 'o libpmemobj \<Rightarrow> (u32 list \<Rightarrow> 'o) \<Rightarrow> u32 list \<Rightarrow> ('v, 'o, nat) pcpp" where
  "TX_WCSDUP env L mk str = jumping env (pmemobj_tx_wcsdup L mk str)"

text \<open>At the level of the model the variants are the calls above.\<close>

lemma tx_variants:
  "TX_ADD = TX_ADD_FIELD" "TX_ADD_DIRECT = TX_ADD_FIELD" "TX_ADD_FIELD_DIRECT = TX_ADD_FIELD" "TX_SET_DIRECT = TX_SET"
  "TX_XADD env L a g s flags = TX_ADD_FIELD env L a g s" "TX_XADD_DIRECT env L a g s flags = TX_ADD_FIELD env L a g s"
  "TX_XADD_FIELD env L a g s flags = TX_ADD_FIELD env L a g s" "TX_XADD_FIELD_DIRECT env L a g s flags = TX_ADD_FIELD env L a g s"
  "TX_ALLOC = TX_NEW" "TX_ZALLOC = TX_NEW" "TX_XALLOC env L sz raw zeroed flags = TX_NEW env L sz (if bit flags 0 then zeroed else raw)"
  "TX_STRDUP env L mk str = TX_NEW env L (length str + 1) (mk (str @ [0]))"
  "TX_WCSDUP env L mkw wstr = TX_NEW env L (4 * (length wstr + 1)) (mkw (wstr @ [0]))"
  by (simp_all add: fun_eq_iff TX_ADD_def TX_ADD_DIRECT_def TX_ADD_FIELD_DIRECT_def TX_ADD_FIELD_def TX_SET_DIRECT_def TX_SET_def
      TX_XADD_def TX_XADD_DIRECT_def TX_XADD_FIELD_def TX_XADD_FIELD_DIRECT_def TX_ALLOC_def TX_ZALLOC_def TX_XALLOC_def TX_NEW_def
      TX_STRDUP_def TX_WCSDUP_def pmemobj_tx_add_range_def pmemobj_tx_xadd_range_def pmemobj_tx_xadd_range_direct_def
      pmemobj_tx_zalloc_def pmemobj_tx_xalloc_def pmemobj_tx_strdup_def pmemobj_tx_wcsdup_def)

section \<open>Bodies that jump only after an abort\<close>

text \<open>
  \<open>jumps_aborted m\<close>: when \<open>m\<close> jumps, the transaction is in \<open>TX_STAGE_ONABORT\<close>; then the loop goes on with that stage.
\<close>

definition jumps_aborted :: "('v, 'o, 'a) pcpp \<Rightarrow> bool" where
  "jumps_aborted m \<longleftrightarrow> (\<forall>v p e v' p'. m (v, p) = (Throw e, v', p') \<longrightarrow> stage p' = TX_STAGE_ONABORT)"

named_theorems jump_intros "statements that jump only from an aborted transaction"

lemma jumps_abortedD: "jumps_aborted m \<Longrightarrow> m (v, p) = (Throw e, v', p') \<Longrightarrow> stage p' = TX_STAGE_ONABORT"
  by (auto simp: jumps_aborted_def)

lemma jumps_bindC [jump_intros]: "jumps_aborted m \<Longrightarrow> (\<And>x. jumps_aborted (k x)) \<Longrightarrow> jumps_aborted (bindC m k)"
  unfolding jumps_aborted_def bindC_def by (auto split: prod.splits outcome.splits)

lemma jumps_thenC [jump_intros]: "jumps_aborted m \<Longrightarrow> jumps_aborted n \<Longrightarrow> jumps_aborted (thenC m n)"
  by (simp add: thenC_def jumps_bindC)

lemma jumps_returnC [jump_intros]: "jumps_aborted (returnC x)"
  by (simp add: jumps_aborted_def returnC_def)

lemma jumps_if [jump_intros]: "jumps_aborted m \<Longrightarrow> jumps_aborted n \<Longrightarrow> jumps_aborted (if b then m else n)"
  by simp

lemma jumps_pread [jump_intros]: "jumps_aborted (pread a g)"
  by (auto simp: jumps_aborted_def pread_def the_or_die_def split: option.splits)

lemma jumps_pwrite_raw [jump_intros]: "jumps_aborted (pwrite_raw a g s x)"
  by (auto simp: jumps_aborted_def pwrite_raw_def split: option.splits)

lemma jumping_cases:
  assumes "m (v, p) = (r, v', p')"
  shows "jumping env m (v, p) = (case r of
     Val x \<Rightarrow> (if env \<and> stage p' = TX_STAGE_ONABORT then (Throw Longjmp, v', p') else (Val x, v', p'))
   | Throw e \<Rightarrow> (Throw e, v', p') | Die f \<Rightarrow> (Die f, v', p'))"
  using assms by (cases r) (simp_all add: jumping_def bindC_def pmemobj_tx_stage_def throwC_def returnC_def)

lemma jumps_jumping:
  assumes "\<And>v p e v' p'. m (v, p) = (Throw e, v', p') \<Longrightarrow> False"
  shows "jumps_aborted (jumping env m)"
  unfolding jumps_aborted_def
proof (intro allI impI)
  fix v p e v' p' assume run: "jumping env m (v, p) = (Throw e, v', p')"
  obtain r v1 p1 where 1: "m (v, p) = (r, v1, p1)" by (cases "m (v, p)") auto
  with run jumping_cases [where m = m, OF 1, of env] assms show "stage p' = TX_STAGE_ONABORT"
  proof (cases r)
    case (Throw e1)
    with assms 1 show ?thesis by blast
  qed (auto split: if_splits)
qed

lemma jumps_calls [jump_intros]:
  "jumps_aborted (TX_ADD_FIELD env L a g s)" "jumps_aborted (TX_SET env L a g s x)"
  "jumps_aborted (TX_MEMCPY env L a h t src num)" "jumps_aborted (TX_MEMSET env L a h t c num)"
  "jumps_aborted (TX_NEW env L sz raw)" "jumps_aborted (TX_ZNEW env L sz raw)" "jumps_aborted (TX_FREE env L a)"
  unfolding TX_ADD_FIELD_def TX_SET_def TX_MEMCPY_def TX_MEMSET_def TX_NEW_def TX_ZNEW_def TX_FREE_def
  by (intro jump_intros jumps_jumping;
      auto simp: pmemobj_tx_add_range_direct_def pmemobj_tx_alloc_def pmemobj_tx_free_def Let_def
        split: if_splits option.splits)+

lemma jumps_variants [jump_intros]:
  "jumps_aborted (TX_ADD env L a g s)" "jumps_aborted (TX_ADD_DIRECT env L a g s)" "jumps_aborted (TX_ADD_FIELD_DIRECT env L a g s)"
  "jumps_aborted (TX_XADD env L a g s flags)" "jumps_aborted (TX_XADD_DIRECT env L a g s flags)"
  "jumps_aborted (TX_XADD_FIELD env L a g s flags)" "jumps_aborted (TX_XADD_FIELD_DIRECT env L a g s flags)"
  "jumps_aborted (TX_SET_DIRECT env L a g s x)" "jumps_aborted (TX_ALLOC env L sz raw)" "jumps_aborted (TX_ZALLOC env L sz raw)"
  "jumps_aborted (TX_XALLOC env L sz raw zeroed flags)" "jumps_aborted (TX_STRDUP env L mk str)" "jumps_aborted (TX_WCSDUP env L mkw wstr)"
  unfolding tx_variants by (rule jumps_calls)+

section \<open>Statements keep the log\<close>

lemma tx_safe_jumping:
  assumes "\<And>v p base d r v' p'. tx_inv A base d p \<Longrightarrow> stage p = TX_STAGE_WORK \<Longrightarrow> m (v, p) = (r, v', p') \<Longrightarrow>
      rollback (undo_log p') (heap p') = base \<and> (\<forall>x. r = Val x \<longrightarrow> tx_inv A base d p') \<and> (\<forall>e. r \<noteq> Throw e)"
  shows "tx_safe A (jumping True m)"
proof (rule tx_safeI)
  fix v p base d r v' p'
  assume inv: "tx_inv A base d p" "stage p = TX_STAGE_WORK" and run: "jumping True m (v, p) = (r, v', p')"
  obtain r1 v1 p1 where 1: "m (v, p) = (r1, v1, p1)" by (cases "m (v, p)") auto
  from assms [OF inv 1] run jumping_cases [where m = m, OF 1, of True] show "tx_post A base d r p'"
    by (cases r1) (auto simp: tx_inv_def split: if_splits)
qed

lemma tx_safe_add_range:
  assumes "field g s" "tx_inv A base d p" "stage p = TX_STAGE_WORK"
    and "pmemobj_tx_add_range_direct L a g s (v, p) = (r, v', p')"
  shows "rollback (undo_log p') (heap p') = base \<and> (\<forall>x. r = Val x \<longrightarrow> tx_inv A base d p') \<and> (\<forall>e. r \<noteq> Throw e)"
proof (cases "Option.bind (heap p a) g")
  case None
  with assms show ?thesis by (auto simp: pmemobj_tx_add_range_direct_def tx_inv_rollback)
next
  case (Some old)
  then obtain ob where ob: "heap p a = Some ob" "g ob = Some old" by (cases "heap p a") auto
  have "s old ob = ob" using assms(1) ob unfolding field_def by blast
  then have "(heap p)(a := map_option (s old) (heap p a)) = heap p" using ob by auto
  then have "tx_inv A base d (p\<lparr>undo_log := Snapshot a (s old) # undo_log p\<rparr>)" using assms(2,3) by (simp add: tx_inv_def)
  moreover have "tx_inv A base d (abort_pool e p)" if "e \<noteq> 0" for e by (rule tx_inv_abort) (use assms that in auto)
  ultimately have "rollback (undo_log p') (heap p') = base \<and> tx_inv A base d p'"
    using assms(3,4) ob tx_inv_rollback [of A base d]
    by (auto simp: pmemobj_tx_add_range_direct_def Let_def split: if_splits)
  then show ?thesis using assms(3,4) ob by (auto simp: pmemobj_tx_add_range_direct_def Let_def split: if_splits)
qed

text \<open>With a \<open>jmp_buf\<close> a failed snapshot does not return, so \<open>TX_SET\<close> is the snapshotting assignment with a jump.\<close>

lemma TX_SET_p_assign:
  assumes "stage p = TX_STAGE_WORK"
  shows "TX_SET True L a g s x (v, p) = (case p_assign L a g s x (v, p) of (Throw _, s') \<Rightarrow> (Throw Longjmp, s') | o' \<Rightarrow> o')"
proof (cases "Option.bind (heap p a) g")
  case None
  with assms show ?thesis
    by (simp add: TX_SET_def TX_ADD_FIELD_def jumping_def bindC_def pmemobj_tx_add_range_direct_def p_assign_dangling)
next
  case (Some old)
  then obtain ob where ob: "heap p a = Some ob" "g ob = Some old" by (cases "heap p a") auto
  with assms show ?thesis
    by (simp add: TX_SET_def TX_ADD_FIELD_def jumping_def bindC_def pmemobj_tx_add_range_direct_def p_assign_in_tx Let_def
        pmemobj_tx_stage_def throwC_def returnC_def pwrite_raw_def)
qed

lemma tx_safe_TX_SET [tx_safe_intros]:
  assumes "field g s"
  shows "tx_safe A (TX_SET True L a g s x)"
proof (rule tx_safeI)
  fix v :: 'v and p base d r v' p'
  assume inv: "tx_inv A base d p" "stage p = TX_STAGE_WORK" and run: "TX_SET True L a g s x (v, p) = (r, v', p')"
  obtain r1 v1 p1 where 1: "p_assign L a g s x (v, p) = (r1, v1, p1)" by (cases "p_assign L a g s x (v, p)") auto
  from tx_safeD [OF tx_safe_p_assign [OF assms] inv 1] run TX_SET_p_assign [OF inv(2), of L a g s x v] 1
  show "tx_post A base d r p'" by (cases r1) auto
qed

lemma tx_safe_TX_MEMCPY [tx_safe_intros]: "field g s \<Longrightarrow> tx_safe A (TX_MEMCPY True L a g s src num)"
  using tx_safe_TX_SET [of g s A L a "take num src"] by (simp add: TX_MEMCPY_def TX_SET_def TX_ADD_FIELD_def)

lemma tx_safe_TX_MEMSET [tx_safe_intros]: "field g s \<Longrightarrow> tx_safe A (TX_MEMSET True L a g s c num)"
  using tx_safe_TX_SET [of g s A L a "replicate num c"] by (simp add: TX_MEMSET_def TX_SET_def TX_ADD_FIELD_def)

lemma tx_safe_TX_ADD_FIELD [tx_safe_intros]: "field g s \<Longrightarrow> tx_safe A (TX_ADD_FIELD True L a g s)"
  unfolding TX_ADD_FIELD_def by (rule tx_safe_jumping) (rule tx_safe_add_range)

lemma tx_safe_add_variants [tx_safe_intros]:
  assumes "field g s"
  shows "tx_safe A (TX_ADD True L a g s)" and "tx_safe A (TX_ADD_DIRECT True L a g s)" and "tx_safe A (TX_ADD_FIELD_DIRECT True L a g s)"
    and "tx_safe A (TX_XADD True L a g s flags)" and "tx_safe A (TX_XADD_DIRECT True L a g s flags)"
    and "tx_safe A (TX_XADD_FIELD True L a g s flags)" and "tx_safe A (TX_XADD_FIELD_DIRECT True L a g s flags)"
    and "tx_safe A (TX_SET_DIRECT True L a g s x)"
  unfolding tx_variants by (rule tx_safe_TX_ADD_FIELD [OF assms] tx_safe_TX_SET [OF assms])+

context pmemobj
begin

lemma tx_safe_TX_FREE [tx_safe_intros]: "tx_safe A (TX_FREE True L a)"
  unfolding TX_FREE_def by (rule tx_safe_jumping) (rule tx_safe_free)

lemma tx_safe_TX_NEW [tx_safe_intros]: "tx_safe A (TX_NEW True L sz raw)"
  unfolding TX_NEW_def by (rule tx_safe_jumping) (use tx_safe_alloc in \<open>force simp: tx_inv_rollback\<close>)

lemma tx_safe_TX_ZNEW [tx_safe_intros]: "tx_safe A (TX_ZNEW True L sz zeroed)"
  unfolding TX_ZNEW_def by (rule tx_safe_jumping) (use tx_safe_alloc in \<open>force simp: tx_inv_rollback\<close>)

lemma tx_safe_alloc_variants [tx_safe_intros]:
  "tx_safe A (TX_ALLOC True L sz raw)" "tx_safe A (TX_ZALLOC True L sz zeroed)" "tx_safe A (TX_XALLOC True L sz raw zeroed flags)"
  "tx_safe A (TX_STRDUP True L mk str)" "tx_safe A (TX_WCSDUP True L mkw wstr)"
  unfolding tx_variants by (rule tx_safe_TX_NEW)+

end

section \<open>The run of a block\<close>

text \<open>A section that computes on volatile data only, such as one that reports the outcome.\<close>

definition handlerC :: "(int \<times> 'u \<Rightarrow> int \<times> 'u) \<Rightarrow> (int \<times> 'u, 'o, unit) pcpp" where
  "handlerC f = (\<lambda>(v, p). (Val (), f v, p))"

definition handle :: "('v \<Rightarrow> 'v) option \<Rightarrow> 'v \<Rightarrow> 'v" where
  "handle f v = (case f of None \<Rightarrow> v | Some g \<Rightarrow> g v)"

text \<open>What the block does with the outcome of its work section: the handlers, then the end of the transaction.\<close>

definition end_block :: "int \<times> 'u \<Rightarrow> 'o pool \<Rightarrow> bool outcome \<times> (int \<times> 'u) \<times> 'o pool" where
  "end_block v p = (if stage (end_pool p) = TX_STAGE_ONABORT then (Throw Longjmp, v, end_pool p)
     else (Val True, (if errnum p = 0 then v else (errnum p, snd v)), end_pool p))"

definition close_block ::
  "(int \<times> 'u \<Rightarrow> int \<times> 'u) option \<Rightarrow> (int \<times> 'u \<Rightarrow> int \<times> 'u) option \<Rightarrow> (int \<times> 'u \<Rightarrow> int \<times> 'u) option \<Rightarrow>
   unit outcome \<Rightarrow> int \<times> 'u \<Rightarrow> 'o pool \<Rightarrow> bool outcome \<times> (int \<times> 'u) \<times> 'o pool" where
  "close_block fa fc ff r v p = (case r of
     Val _ \<Rightarrow> end_block (handle ff (handle fc v)) ((commit_pool p)\<lparr>stage := TX_STAGE_NONE\<rparr>)
   | Throw _ \<Rightarrow> end_block (handle ff (handle fa (errnum p, snd v))) (p\<lparr>stage := TX_STAGE_NONE\<rparr>)
   | Die f \<Rightarrow> (Die f, v, p))"

lemma end_block_run:
  "bindC (jumping True pmemobj_tx_end) (\<lambda>rc2. thenC (if rc2 \<noteq> 0 then set_errno rc2 else returnC ()) (returnC True))
     (w, q\<lparr>stage := TX_STAGE_NONE\<rparr>) = end_block w (q\<lparr>stage := TX_STAGE_NONE\<rparr>)"
  by (cases w) (simp add: end_block_def bindC_def thenC_def jumping_def pmemobj_tx_end_def pmemobj_tx_stage_def
      throwC_def returnC_def set_errno_def)

lemma end_block_outermost:
  "depth p = 1 \<Longrightarrow> end_block v p =
     (Val True, (if errnum p = 0 then v else (errnum p, snd v)), p\<lparr>stage := TX_STAGE_NONE, depth := 0, errnum := 0\<rparr>)"
  by (simp add: end_block_def end_pool_def)

text \<open>At the end of a nested block the enclosing transaction goes on, or is aborted with it.\<close>

lemma end_block_nested:
  assumes "depth p = Suc d" "0 < d" "end_block v p = (r, v', p')"
  shows "if errnum p = 0 then r = Val True \<and> p' = p\<lparr>depth := d, stage := TX_STAGE_WORK\<rparr>
         else r = Throw Longjmp \<and> p' = abort_pool (errnum p) (p\<lparr>depth := d, stage := TX_STAGE_WORK\<rparr>)"
  using assms by (auto simp: end_block_def end_pool_def split: if_splits)

definition handled ::
  "('u, 'o) tx_sections \<Rightarrow> (int \<times> 'u \<Rightarrow> int \<times> 'u) option \<Rightarrow> (int \<times> 'u \<Rightarrow> int \<times> 'u) option \<Rightarrow> (int \<times> 'u \<Rightarrow> int \<times> 'u) option \<Rightarrow> bool" where
  "handled B fa fc ff \<longleftrightarrow>
     on_abort B = map_option handlerC fa \<and> on_commit B = map_option handlerC fc \<and> on_finally B = map_option handlerC ff"

lemma handledD:
  assumes "handled B fa fc ff"
  shows "on_abort B = map_option handlerC fa" "on_commit B = map_option handlerC fc" "on_finally B = map_option handlerC ff"
  using assms by (simp_all add: handled_def)

lemma switch_rest:
  assumes h: "handled B fa fc ff" and st: "st \<noteq> TX_STAGE_WORK" "st \<noteq> TX_STAGE_NONE" "st = stage p"
  shows "tx_switch False B st (v, p) =
    (Val (), handle (case st of TX_STAGE_ONCOMMIT \<Rightarrow> fc | TX_STAGE_ONABORT \<Rightarrow> fa | _ \<Rightarrow> ff) v, process_pool p)"
  using st handledD [OF h]
  by (cases st; cases fa; cases fc; cases ff)
     (simp_all add: tx_switch_def section_of_def handlerC_def handle_def thenC_def bindC_def
       pmemobj_tx_process_def TX_ONABORT_CHECK_def returnC_def process_pool_def)

lemma loop_rest:
  assumes h: "handled B fa fc ff" and st: "st \<noteq> TX_STAGE_WORK" "st \<noteq> TX_STAGE_NONE" "st = stage p"
  shows "tx_loop False B (Suc n) (v, p) =
    tx_loop False B n (handle (case st of TX_STAGE_ONCOMMIT \<Rightarrow> fc | TX_STAGE_ONABORT \<Rightarrow> fa | _ \<Rightarrow> ff) v, process_pool p)"
  using switch_rest [OF h st, of v] st by (simp add: bindC_def pmemobj_tx_stage_def tryC_def)

lemma loop_committed:
  assumes h: "handled B fa fc ff" and as: "stage p = TX_STAGE_ONCOMMIT"
  shows "tx_loop False B (Suc (Suc (Suc n))) (v, p) = (Val True, handle ff (handle fc v), p\<lparr>stage := TX_STAGE_NONE\<rparr>)"
  using as loop_rest [OF h _ _ refl, of p "Suc (Suc n)" v]
    loop_rest [OF h _ _ refl, of "p\<lparr>stage := TX_STAGE_FINALLY\<rparr>" "Suc n" "handle fc v"]
  by (simp add: process_pool_def bindC_def pmemobj_tx_stage_def returnC_def)

lemma loop_aborted:
  assumes h: "handled B fa fc ff" and as: "stage p = TX_STAGE_ONABORT"
  shows "tx_loop False B (Suc (Suc (Suc n))) (v, p) = (Val True, handle ff (handle fa v), p\<lparr>stage := TX_STAGE_NONE\<rparr>)"
  using as loop_rest [OF h _ _ refl, of p "Suc (Suc n)" v]
    loop_rest [OF h _ _ refl, of "p\<lparr>stage := TX_STAGE_FINALLY\<rparr>" "Suc n" "handle fa v"]
  by (simp add: process_pool_def bindC_def pmemobj_tx_stage_def returnC_def)

lemma loop_work_commit:
  assumes "stage p = TX_STAGE_WORK" "work B (v, p) = (Val (), v1, p1)" "stage p1 = TX_STAGE_WORK"
  shows "tx_loop False B (Suc n) (v, p) = tx_loop False B n (v1, commit_pool p1)"
  using assms
  by (simp add: bindC_def thenC_def pmemobj_tx_stage_def tryC_def tx_switch_def section_of_def pmemobj_tx_process_def
      process_pool_def)

lemma loop_work_jump:
  assumes "stage p = TX_STAGE_WORK" "work B (v, p) = (Throw e, v1, p1)"
  shows "tx_loop False B (Suc n) (v, p) = tx_loop False B n ((errnum p1, snd v1), p1)"
  using assms
  by (cases v1) (simp add: bindC_def thenC_def pmemobj_tx_stage_def tryC_def tx_switch_def section_of_def
      pmemobj_tx_errno_def set_errno_def)

lemma loop_work_die:
  assumes "stage p = TX_STAGE_WORK" "work B (v, p) = (Die f, v1, p1)"
  shows "tx_loop False B (Suc n) (v, p) = (Die f, v1, p1)"
  using assms by (simp add: bindC_def thenC_def pmemobj_tx_stage_def tryC_def tx_switch_def section_of_def)

lemma tx_block_run:
  assumes h: "handled B fa fc ff" and as: "begin_rc L p = 0" "work B (v, open_pool p) = (r, v1, p1)" "4 \<le> n"
    and as': "\<forall>x. r = Val x \<longrightarrow> stage p1 = TX_STAGE_WORK" "\<forall>e. r = Throw e \<longrightarrow> stage p1 = TX_STAGE_ONABORT"
  shows "tx_block False L B n (v, p) = close_block fa fc ff r v1 p1"
proof -
  obtain k where n: "n = Suc (Suc (Suc (Suc k)))"
    using as(3) by (metis Suc_le_D Suc_le_mono numeral_eq_Suc pred_numeral_simps(2,3) BitM.simps(1,2))
  have start: "pmemobj_tx_begin L (v, p) = (Val 0, v, open_pool p)"
    using as(1) by (simp add: pmemobj_tx_begin_def open_pool_def)
  have w: "stage (open_pool p) = TX_STAGE_WORK" by simp
  show ?thesis
  proof (cases r)
    case (Val x)
    then have "tx_loop False B n (v, open_pool p) =
        (Val True, handle ff (handle fc v1), (commit_pool p1)\<lparr>stage := TX_STAGE_NONE\<rparr>)"
      using loop_work_commit [OF w, of B v v1 p1] loop_committed [OF h, of "commit_pool p1"] as as' n by simp
    with Val end_block_run show ?thesis by (simp add: tx_block_def exec_simps start close_block_def)
  next
    case (Throw e)
    then have "tx_loop False B n (v, open_pool p) =
        (Val True, handle ff (handle fa (errnum p1, snd v1)), p1\<lparr>stage := TX_STAGE_NONE\<rparr>)"
      using loop_work_jump [OF w, of B v e v1 p1] loop_aborted [OF h, of p1] as as' n by simp
    with Throw end_block_run show ?thesis by (simp add: tx_block_def exec_simps start close_block_def)
  next
    case (Die f)
    then have "tx_loop False B n (v, open_pool p) = (Die f, v1, p1)"
      using loop_work_die [OF w, of B v f v1 p1] as as' n by simp
    with Die show ?thesis by (simp add: tx_block_def exec_simps start close_block_def)
  qed
qed

lemma tx_block_begin_fails:
  assumes h: "handled B fa fc ff" and as: "begin_rc L p \<noteq> 0" "4 \<le> n"
  shows "tx_block False L B n (v, p) =
    end_block (handle ff (handle fa (begin_rc L p, snd v)))
      (p\<lparr>depth := Suc (depth p), errnum := begin_rc L p, stage := TX_STAGE_NONE\<rparr>)"
proof -
  define q where "q = p\<lparr>stage := TX_STAGE_ONABORT, depth := Suc (depth p), errnum := begin_rc L p\<rparr>"
  obtain k where n: "n = Suc (Suc (Suc k))"
    using as(2) by (metis Suc_le_D Suc_le_mono numeral_eq_Suc pred_numeral_simps(2,3) BitM.simps(1,2))
  have "pmemobj_tx_begin L (v, p) = (Val (begin_rc L p), v, q)"
    using as(1) by (simp add: pmemobj_tx_begin_def q_def Let_def)
  moreover have "set_errno (begin_rc L p) (v, q) = (Val (), (begin_rc L p, snd v), q)"
    by (cases v) (simp add: set_errno_def)
  moreover have "tx_loop False B n ((begin_rc L p, snd v), q) =
      (Val True, handle ff (handle fa (begin_rc L p, snd v)), q\<lparr>stage := TX_STAGE_NONE\<rparr>)"
    unfolding n by (rule loop_aborted [OF h]) (simp add: q_def)
  ultimately show ?thesis
    using as(1) end_block_run [of "handle ff (handle fa (begin_rc L p, snd v))" q]
    by (simp add: tx_block_def exec_simps) (simp add: q_def)
qed

text \<open>The block as a statement of an enclosing transaction.\<close>

lemma tx_safe_tx_block:
  assumes h: "handled B fa fc ff" and safe: "tx_safe A (work B)" and jumps: "jumps_aborted (work B)" and n: "4 \<le> n"
  shows "tx_safe A (tx_block False L B n)"
proof (rule tx_safeI)
  fix v p base d r v' p'
  assume inv: "tx_inv A base d p" "stage p = TX_STAGE_WORK" and run: "tx_block False L B n (v, p) = (r, v', p')"
  have d: "depth p = d" "0 < d" "errnum p = 0" using inv by (auto simp: tx_inv_def)
  have aborted: "tx_inv A base d (abort_pool e q)" if "tx_inv A base d q" "stage q = TX_STAGE_WORK" "e \<noteq> 0" for e q
    using tx_inv_abort that by blast
  show "tx_post A base d r p'"
  proof (cases "begin_rc L p = 0")
    case True
    obtain r1 v1 p1 where 1: "work B (v, open_pool p) = (r1, v1, p1)" by (cases "work B (v, open_pool p)") auto
    have post: "tx_post A base (Suc d) r1 p1"
      by (rule tx_safeD [OF safe tx_inv_open_nested [OF inv] _ 1]) simp
    have jump: "stage p1 = TX_STAGE_ONABORT" if "r1 = Throw e" for e
      by (rule jumps_abortedD [OF jumps]) (use 1 that in blast)
    have closed: "close_block fa fc ff r1 v1 p1 = (r, v', p')"
      using tx_block_run [where L = L, OF h True 1 n] post jump run by (cases r1) auto
    show ?thesis
    proof (cases r1)
      case (Val x)
      with post have p1: "depth p1 = Suc d" "errnum p1 = 0" "tx_inv A base (Suc d) p1" "stage p1 = TX_STAGE_WORK"
        by (auto simp: tx_inv_def)
      with d(2) have "commit_pool p1 = p1\<lparr>stage := TX_STAGE_ONCOMMIT\<rparr>" by (simp add: commit_pool_def)
      with closed Val p1 d have "r = Val True \<and> p' = p1\<lparr>depth := d, stage := TX_STAGE_WORK\<rparr>"
        using end_block_nested [of "(commit_pool p1)\<lparr>stage := TX_STAGE_NONE\<rparr>" d "handle ff (handle fc v1)" r v' p']
        by (simp add: close_block_def)
      with p1 d show ?thesis by (auto simp: tx_inv_def)
    next
      case (Throw e)
      with post jump have p1: "depth p1 = Suc d" "errnum p1 \<noteq> 0" "rollback (undo_log p1) (heap p1) = base"
        by (auto simp: tx_inv_def)
      with closed Throw d have "r = Throw Longjmp \<and> p' = abort_pool (errnum p1) (p1\<lparr>depth := d, stage := TX_STAGE_WORK\<rparr>)"
        using end_block_nested [of "p1\<lparr>stage := TX_STAGE_NONE\<rparr>" d "handle ff (handle fa (errnum p1, snd v1))" r v' p']
        by (simp add: close_block_def)
      with p1 d show ?thesis by (auto simp: tx_inv_def abort_pool_def)
    next
      case (Die f)
      with post closed show ?thesis by (auto simp: close_block_def)
    qed
  next
    case False
    have "r = Throw Longjmp \<and> p' = abort_pool (begin_rc L p) (p\<lparr>errnum := begin_rc L p, depth := d, stage := TX_STAGE_WORK\<rparr>)"
      using run d False end_block_nested [of "p\<lparr>depth := Suc (depth p), errnum := begin_rc L p, stage := TX_STAGE_NONE\<rparr>" d
          "handle ff (handle fa (begin_rc L p, snd v))" r v' p']
      by (simp add: tx_block_begin_fails [OF h False n])
    with inv d False show ?thesis by (auto simp: tx_inv_def abort_pool_def)
  qed
qed

text \<open>The outermost block.\<close>

lemma tx_block_outermost:
  assumes h: "handled B fa fc ff" and safe: "tx_safe {} (work B)" and jumps: "jumps_aborted (work B)" and n: "4 \<le> n" and "idle p"
    and run: "tx_block False L B n (v, p) = (r, v', p')"
  shows "case r of
      Val fin \<Rightarrow> fin \<and> idle p' \<and>
        ((\<exists>v1 q. begin_rc L p = 0 \<and> work B (v, open_pool p) = (Val (), v1, q) \<and> heap p' = heap (commit_pool q) \<and>
            v' = handle ff (handle fc v1)) \<or>
         (\<exists>e u. e \<noteq> 0 \<and> heap p' = heap p \<and> v' = (e, snd (handle ff (handle fa (e, u))))))
    | Throw _ \<Rightarrow> False
    | Die f \<Rightarrow> heap (recover p') = heap p"
proof (cases "begin_rc L p = 0")
  case True
  obtain r1 v1 p1 where 1: "work B (v, open_pool p) = (r1, v1, p1)" by (cases "work B (v, open_pool p)") auto
  have post: "tx_post {} (heap p) 1 r1 p1"
    by (rule tx_safeD [OF safe tx_inv_open_idle [OF \<open>idle p\<close>] _ 1]) simp
  have jump: "stage p1 = TX_STAGE_ONABORT" if "r1 = Throw e" for e
    by (rule jumps_abortedD [OF jumps]) (use 1 that in blast)
  have closed: "close_block fa fc ff r1 v1 p1 = (r, v', p')"
    using tx_block_run [where L = L, OF h True 1 n] post jump run by (cases r1) auto
  show ?thesis
  proof (cases r1)
    case (Val x)
    with post have p1: "depth (commit_pool p1) = 1" "errnum (commit_pool p1) = 0" "undo_log (commit_pool p1) = []"
      "freed (commit_pool p1) = []" by (auto simp: tx_inv_def commit_pool_def)
    with closed Val 1 True show ?thesis
      by (auto simp: close_block_def end_block_outermost idle_def)
  next
    case (Throw e)
    with post jump have "depth p1 = 1" "errnum p1 \<noteq> 0" "undo_log p1 = []" "freed p1 = []" "heap p1 = heap p"
      by (auto simp: tx_inv_def)
    with closed Throw show ?thesis
      by (auto simp: close_block_def end_block_outermost idle_def)
  next
    case (Die f)
    with post closed show ?thesis by (auto simp: close_block_def recover_def)
  qed
next
  case False
  with run \<open>idle p\<close> show ?thesis
    by (auto simp: tx_block_begin_fails [OF h False n] end_block_outermost idle_def)
qed

section \<open>Properties\<close>

text \<open>C19: 
  A \<open>TX_BEGIN ... TX_END\<close> block of the following kind: its work section snapshots every object that it changes and jumps out only
  after an abort; its other sections always return and touch volatile data only; it is compiled without \<open>POBJ_TX_CRASH_ON_NO_ONABORT\<close>.
  Entered outside any transaction, and unless the process dies in its work section, the block comes to its end, in at most four rounds of its
  loop, and leaves the thread outside any transaction: either its work section was completed, its writes are committed
  and \<open>TX_ONCOMMIT\<close>, then \<open>TX_FINALLY\<close> ran; or (also when the transaction could not be started) no object has
  changed, \<open>TX_ONABORT\<close>, then \<open>TX_FINALLY\<close> ran and \<open>errno\<close> holds the error. When the process dies inside
  it, recovery restores the heap.
\<close>

theorem tx_block_all_or_nothing:
  assumes "tx_safe {} (work B)" "jumps_aborted (work B)" "handled B fa fc ff" "idle p" "4 \<le> n"
    and "tx_block False L B n (v, p) = (r, v', p')"
  shows "case r of
      Val fin \<Rightarrow> fin \<and> idle p' \<and>
        ((\<exists>v1 q. begin_rc L p = 0 \<and> work B (v, open_pool p) = (Val (), v1, q) \<and> heap p' = heap (commit_pool q) \<and>
            v' = handle ff (handle fc v1)) \<or>
         (\<exists>e u. e \<noteq> 0 \<and> heap p' = heap p \<and> v' = (e, snd (handle ff (handle fa (e, u))))))
    | Throw _ \<Rightarrow> False
    | Die f \<Rightarrow> heap (recover p') = heap p"
  using assms(3,1,2,5,4,6) by (rule tx_block_outermost)

text \<open>Two nested blocks; the inner one fails to take a snapshot of its object.\<close>

definition mark :: "nat \<Rightarrow> int \<times> nat list \<Rightarrow> int \<times> nat list" where
  "mark k = (\<lambda>(e, ks). (e, ks @ [k]))"

definition noted_block :: "nat \<Rightarrow> (int \<times> nat list, 'o, unit) pcpp \<Rightarrow> (nat list, 'o) tx_sections" where
  "noted_block k w = \<lparr>work = w, on_abort = Some (handlerC (mark (10 * k + 1))),
     on_commit = Some (handlerC (mark (10 * k + 2))), on_finally = Some (handlerC (mark (10 * k + 3)))\<rparr>"

lemma handled_noted_block:
  "handled (noted_block k w) (Some (mark (10 * k + 1))) (Some (mark (10 * k + 2))) (Some (mark (10 * k + 3)))"
  by (simp add: handled_def noted_block_def)

definition failing_snapshots :: "nat \<Rightarrow> nat libpmemobj" where
  "failing_snapshots a = healthy\<lparr>add_range_rc := (\<lambda>_ b. if b = a then ENOMEM else 0)\<rparr>"

definition two_cells :: "nat pool" where
  "two_cells = \<lparr>heap = [1 \<mapsto> 3, 2 \<mapsto> 4], stage = TX_STAGE_NONE, depth = 0, undo_log = [], freed = [], errnum = 0\<rparr>"

definition nested_blocks :: "nat libpmemobj \<Rightarrow> (nat list, nat) tx_sections" where
  "nested_blocks L = noted_block 1 (thenC (TX_SET True L 1 Some (\<lambda>x _. x) 5)
     (thenC (tx_block False L (noted_block 2 (TX_SET True L 2 Some (\<lambda>x _. x) 6)) 4) (returnC ())))"

lemma jumps_tx_loop: "jumps_aborted (tx_loop crash B n)"
proof (induction n)
  case (Suc n)
  have "jumps_aborted (tryC m)" for m :: "(int \<times> 'a, 'b, unit) pcpp"
    by (auto simp: jumps_aborted_def tryC_def split: prod.splits outcome.splits)
  moreover have "jumps_aborted pmemobj_tx_stage" "jumps_aborted pmemobj_tx_errno" "jumps_aborted (set_errno e)" for e
    by (auto simp: jumps_aborted_def pmemobj_tx_stage_def pmemobj_tx_errno_def set_errno_def)
  ultimately show ?case using Suc
    by (auto intro!: jump_intros split: sum.split)
qed (simp add: jump_intros)

lemma jumps_tx_block [jump_intros]: "jumps_aborted (tx_block crash L B n)"
proof -
  have "jumps_aborted (jumping True pmemobj_tx_end)"
    by (rule jumps_jumping) (auto simp: pmemobj_tx_end_def split: if_splits)
  moreover have "jumps_aborted (pmemobj_tx_begin L)" "jumps_aborted (set_errno e)" for e
    by (auto simp: jumps_aborted_def pmemobj_tx_begin_def set_errno_def Let_def split: if_splits)
  ultimately show ?thesis
    unfolding tx_block_def by (auto intro!: jump_intros jumps_tx_loop)
qed

theorem tx_block_all_or_nothing_witness:
  "\<exists>r v' p'. tx_block False (failing_snapshots 2) (nested_blocks (failing_snapshots 2)) 4 ((0, []), two_cells) = (r, v', p') \<and>
     heap p' = [1 \<mapsto> 3, 2 \<mapsto> 4] \<and> v' = (ENOMEM, [21, 23, 11, 13])"
proof -
  let ?L = "failing_snapshots 2"
  let ?B = "nested_blocks ?L"
  let ?in = "noted_block 2 (TX_SET True ?L 2 Some (\<lambda>x _. x) 6)"
  have inner: "tx_safe {} (work ?in)" "jumps_aborted (work ?in)"
    by (simp_all add: noted_block_def jump_intros) (intro tx_safe_intros field_cell)
  have safe: "tx_safe {} (work ?B)"
    unfolding nested_blocks_def noted_block_def tx_sections.simps
    by (intro tx_safe_intros field_cell tx_safe_tx_block [OF handled_noted_block [unfolded noted_block_def]]
        inner [unfolded noted_block_def tx_sections.simps]) (use inner in \<open>simp_all add: noted_block_def\<close>)
  have jumps: "jumps_aborted (work ?B)"
    unfolding nested_blocks_def noted_block_def tx_sections.simps by (intro jump_intros)
  have handled: "handled ?B (Some (mark 11)) (Some (mark 12)) (Some (mark 13))"
    using handled_noted_block [of 1] by (simp add: nested_blocks_def)
  obtain r v' p' where run: "tx_block False ?L ?B 4 ((0, []), two_cells) = (r, v', p')"
    by (cases "tx_block False ?L ?B 4 ((0, []), two_cells)") auto
  have "r = Val True \<and> v' = (ENOMEM, [21, 23, 11, 13])"
    using run
    by (simp add: tx_block_def nested_blocks_def noted_block_def exec_simps numeral_eq_Suc tx_switch_def section_of_def tryC_def
        pmemobj_tx_begin_def pmemobj_tx_stage_def pmemobj_tx_process_def process_pool_def pmemobj_tx_end_def end_pool_def
        abort_pool_def commit_pool_def jumping_def set_errno_def pmemobj_tx_errno_def handlerC_def mark_def
        TX_SET_def TX_ADD_FIELD_def pmemobj_tx_add_range_direct_def pwrite_raw_def failing_snapshots_def healthy_def ENOMEM_def
        two_cells_def Let_def)
  then have val: "r = Val True" "v' = (ENOMEM, [21, 23, 11, 13])" by auto
  have "handle (Some (mark 13)) (handle (Some (mark 12)) v1) \<noteq> (ENOMEM, [21, 23, 11, 13])" for v1
    by (cases v1) (auto simp: handle_def mark_def)
  moreover have start: "idle two_cells" by (simp add: two_cells_def idle_def)
  have "(\<exists>v1. v' = handle (Some (mark 13)) (handle (Some (mark 12)) v1)) \<or> heap p' = heap two_cells"
    using tx_block_all_or_nothing [OF safe jumps handled start order_refl run] unfolding val(1) outcome.case by blast
  ultimately have "heap p' = heap two_cells" unfolding val(2) by metis
  then show ?thesis using run val by (auto simp: two_cells_def)
qed

text \<open>
  \<open>TX_MEMCPY\<close> discards the result of the snapshot. In a \<open>TX_BEGIN\<close> block that is harmless, because a failed
  snapshot jumps; in a transaction of libpmemobj++, which has no \<open>jmp_buf\<close>, the copy is made after the roll-back:
  \<open>exec_tx\<close> reports the failure, and the new bytes stay in the pool.
\<close>

theorem memcpy_after_failed_snapshot_persists:
  assumes "idle p" "begin_rc L p = 0" "heap p a = Some ob" "g ob = Some old" "add_range_rc L (open_pool p) a \<noteq> 0"
  shows "\<exists>p'. exec_tx L (TX_MEMCPY False L a g s src num) [] (v, p) = (Throw Transaction_error, v, p') \<and>
    heap p' = (heap p)(a \<mapsto> s (take num src) ob)"
proof -
  let ?q = "abort_pool (add_range_rc L (open_pool p) a) (open_pool p)"
  have q: "heap ?q = heap p" "stage ?q = TX_STAGE_ONABORT" "depth ?q = 1"
    using assms(1) by (simp_all add: abort_pool_def idle_def)
  have body: "TX_MEMCPY False L a g s src num (v, open_pool p) =
      (Val (), v, ?q\<lparr>heap := (heap p)(a \<mapsto> s (take num src) ob)\<rparr>)"
    using assms(3,4,5) q
    by (simp add: TX_MEMCPY_def jumping_def exec_simps pmemobj_tx_add_range_direct_def pmemobj_tx_stage_def Let_def
        pwrite_raw_def)
  have "exec_tx L (TX_MEMCPY False L a g s src num) [] (v, p) =
      close_tx (Val ()) v (?q\<lparr>heap := (heap p)(a \<mapsto> s (take num src) ob)\<rparr>)"
    by (rule exec_tx_run [where tx = "TX_MEMCPY False L a g s src num", OF assms(2) _ body]) (simp add: returnC_def)
  then show ?thesis using q by (simp add: close_tx_def end_pool_def)
qed

theorem memcpy_after_failed_snapshot_persists_witness:
  "\<exists>p'. exec_tx exhausted (TX_MEMCPY False exhausted 1 Some (\<lambda>x _. x) [7, 8, 9] 2) []
      ((), \<lparr>heap = [1 \<mapsto> [0, 0]], stage = TX_STAGE_NONE, depth = 0, undo_log = [], freed = [], errnum = 0\<rparr>) =
      (Throw Transaction_error, (), p') \<and> heap p' = [1 \<mapsto> [7, 8]]"
  using memcpy_after_failed_snapshot_persists [where L = exhausted and a = 1 and g = Some and s = "\<lambda>x _. x"
      and p = "\<lparr>heap = [1 \<mapsto> [0, 0]], stage = TX_STAGE_NONE, depth = 0, undo_log = [], freed = [], errnum = 0\<rparr>"
      and ob = "[0, 0]" and old = "[0, 0]" and src = "[7, 8, 9]" and num = 2 and v = "()"]
  by (simp add: idle_def exhausted_def healthy_def ENOMEM_def)

end
