(* ===== verification/Obj_Iter.thy ===== *)
theory Obj_Iter
  imports Persistent_Ptr
begin

text \<open>
  Iteration over the objects of a pool, \<open>src/pmdk-include/libpmemobj/iterator.h\<close>: the search for the first and the
  next object of a type and the loops \<open>POBJ_FOREACH\<close>, with their variants for one type and for bodies that free the
  current object. The list the library keeps is an argument, the record \<open>iter_api\<close>, and its contract the locale
  \<open>object_list\<close>. The loops are partial functions: \<open>None\<close> is a loop that never ends.
\<close>

section \<open>The library\<close>

record 'p iter_api =
  pmemobj_first :: "'p \<Rightarrow> PMEMoid"
  pmemobj_next :: "'p \<Rightarrow> PMEMoid \<Rightarrow> PMEMoid"
  pmemobj_type_num :: "'p \<Rightarrow> PMEMoid \<Rightarrow> u64"
  free_object :: "'p \<Rightarrow> PMEMoid \<Rightarrow> 'p"

section \<open>Searching by type\<close>

partial_function (option) first_loop :: "'p iter_api \<Rightarrow> 'p \<Rightarrow> u64 \<Rightarrow> PMEMoid \<Rightarrow> PMEMoid option" where
  "first_loop A p t ret =
     (if \<not> OID_IS_NULL ret \<and> pmemobj_type_num A p ret \<noteq> t then first_loop A p t (pmemobj_next A p ret) else Some ret)"

definition POBJ_FIRST_TYPE_NUM :: "'p iter_api \<Rightarrow> 'p \<Rightarrow> u64 \<Rightarrow> PMEMoid option" where
  "POBJ_FIRST_TYPE_NUM A p t = first_loop A p t (pmemobj_first A p)"

partial_function (option) next_loop :: "'p iter_api \<Rightarrow> 'p \<Rightarrow> PMEMoid \<Rightarrow> PMEMoid \<Rightarrow> PMEMoid option" where
  "next_loop A p ob ret =
     (let ret' = pmemobj_next A p ret in
      if \<not> OID_IS_NULL ret' \<and> pmemobj_type_num A p ret' \<noteq> pmemobj_type_num A p ob then next_loop A p ob ret'
      else Some ret')"

definition POBJ_NEXT_TYPE_NUM :: "'p iter_api \<Rightarrow> 'p \<Rightarrow> PMEMoid \<Rightarrow> PMEMoid option" where
  "POBJ_NEXT_TYPE_NUM A p ob = next_loop A p ob ob"

section \<open>Loops\<close>

text \<open>The body of a loop may change the pool and other data \<open>'v\<close>.\<close>

type_synonym ('p, 'v) loop_body = "PMEMoid \<Rightarrow> 'p \<times> 'v \<Rightarrow> 'p \<times> 'v"

partial_function (option) foreach_loop :: "'p iter_api \<Rightarrow> ('p, 'v) loop_body \<Rightarrow> PMEMoid \<Rightarrow> 'p \<times> 'v \<Rightarrow> ('p \<times> 'v) option" where
  "foreach_loop A body varoid s =
     (if off varoid \<noteq> 0
      then let s' = body varoid s in foreach_loop A body (pmemobj_next A (fst s') varoid) s'
      else Some s)"

definition POBJ_FOREACH :: "'p iter_api \<Rightarrow> ('p, 'v) loop_body \<Rightarrow> 'p \<times> 'v \<Rightarrow> ('p \<times> 'v) option" where
  "POBJ_FOREACH A body s = foreach_loop A body (pmemobj_first A (fst s)) s"

partial_function (option) foreach_safe_loop :: "'p iter_api \<Rightarrow> ('p, 'v) loop_body \<Rightarrow> PMEMoid \<Rightarrow> 'p \<times> 'v \<Rightarrow> ('p \<times> 'v) option" where
  "foreach_safe_loop A body varoid s =
     (if off varoid \<noteq> 0
      then let nvaroid = pmemobj_next A (fst s) varoid in foreach_safe_loop A body nvaroid (body varoid s)
      else Some s)"

definition POBJ_FOREACH_SAFE :: "'p iter_api \<Rightarrow> ('p, 'v) loop_body \<Rightarrow> 'p \<times> 'v \<Rightarrow> ('p \<times> 'v) option" where
  "POBJ_FOREACH_SAFE A body s = foreach_safe_loop A body (pmemobj_first A (fst s)) s"

definition if_type :: "'p iter_api \<Rightarrow> u64 \<Rightarrow> ('p, 'v) loop_body \<Rightarrow> ('p, 'v) loop_body" where
  "if_type A t body = (\<lambda>ob s. if pmemobj_type_num A (fst s) ob = t then body ob s else s)"

definition POBJ_FOREACH_TYPE :: "'p iter_api \<Rightarrow> u64 \<Rightarrow> ('p, 'v) loop_body \<Rightarrow> 'p \<times> 'v \<Rightarrow> ('p \<times> 'v) option" where
  "POBJ_FOREACH_TYPE A t body = POBJ_FOREACH A (if_type A t body)"

definition POBJ_FOREACH_SAFE_TYPE :: "'p iter_api \<Rightarrow> u64 \<Rightarrow> ('p, 'v) loop_body \<Rightarrow> 'p \<times> 'v \<Rightarrow> ('p \<times> 'v) option" where
  "POBJ_FOREACH_SAFE_TYPE A t body = POBJ_FOREACH_SAFE A (if_type A t body)"

section \<open>The contract of the library\<close>

text \<open>The first of a list of objects, or null.\<close>

fun head_or_null :: "PMEMoid list \<Rightarrow> PMEMoid" where
  "head_or_null [] = OID_NULL"
| "head_or_null (x # xs) = x"

lemma OID_NULL_is_null [simp]: "OID_IS_NULL OID_NULL" "off OID_NULL = 0"
  by (simp_all add: OID_NULL_def OID_IS_NULL_def)

text \<open>
  The allocated objects form a list without repetition or null; \<open>pmemobj_next\<close> leads from each to its successor, and
  freeing one removes it and keeps the types of the others.
\<close>

locale object_list =
  fixes A :: "'p iter_api" and objs :: "'p \<Rightarrow> PMEMoid list"
  assumes distinct: "distinct (objs p)"
    and no_null: "x \<in> set (objs p) \<Longrightarrow> off x \<noteq> 0"
    and first: "pmemobj_first A p = head_or_null (objs p)"
    and succ: "objs p = xs @ x # ys \<Longrightarrow> pmemobj_next A p x = head_or_null ys"
    and freed: "objs (free_object A p x) = remove1 x (objs p)"
    and types: "x \<noteq> y \<Longrightarrow> pmemobj_type_num A (free_object A p x) y = pmemobj_type_num A p y"
begin

lemma not_null: "x \<in> set (objs p) \<Longrightarrow> \<not> OID_IS_NULL x"
  using no_null by (simp add: OID_IS_NULL_def)

abbreviation of_type :: "'p \<Rightarrow> u64 \<Rightarrow> PMEMoid list \<Rightarrow> PMEMoid list" where
  "of_type p t xs \<equiv> filter (\<lambda>x. pmemobj_type_num A p x = t) xs"

lemma first_loop_list:
  "objs p = xs @ ys \<Longrightarrow> first_loop A p t (head_or_null ys) = Some (head_or_null (of_type p t ys))"
proof (induction ys arbitrary: xs)
  case Nil
  show ?case by (subst first_loop.simps) simp
next
  case (Cons y ys)
  have "pmemobj_next A p y = head_or_null ys" by (rule succ [OF Cons.prems])
  moreover have "\<not> OID_IS_NULL y" using Cons.prems not_null [of y p] by simp
  moreover have "first_loop A p t (head_or_null ys) = Some (head_or_null (of_type p t ys))"
    using Cons.IH [of "xs @ [y]"] Cons.prems by simp
  ultimately show ?case by (subst first_loop.simps) simp
qed

lemma next_loop_first_loop:
  assumes "objs p = xs @ x # ys"
  shows "next_loop A p ob x = first_loop A p (pmemobj_type_num A p ob) (head_or_null ys)"
  using assms
proof (induction ys arbitrary: xs x)
  case Nil
  then show ?case using succ [OF Nil] by (subst next_loop.simps, subst first_loop.simps) simp
next
  case (Cons y ys)
  have "pmemobj_next A p x = y" using succ [OF Cons.prems] by simp
  moreover have "pmemobj_next A p y = head_or_null ys" using succ [of p "xs @ [x]" y ys] Cons.prems by simp
  moreover have "next_loop A p ob y = first_loop A p (pmemobj_type_num A p ob) (head_or_null ys)"
    using Cons.IH [of "xs @ [x]" y] Cons.prems by simp
  ultimately show ?case by (subst next_loop.simps, subst first_loop.simps) (simp add: Let_def)
qed

lemma next_type_list:
  assumes "objs p = xs @ x # ys"
  shows "POBJ_NEXT_TYPE_NUM A p x = Some (head_or_null (of_type p (pmemobj_type_num A p x) ys))"
  unfolding POBJ_NEXT_TYPE_NUM_def next_loop_first_loop [OF assms]
  by (rule first_loop_list [where xs = "xs @ [x]"]) (simp add: assms)

text \<open>A body that leaves the pool alone is run on every object.\<close>

lemma foreach_list:
  assumes keep: "\<And>x v. fst (body x (p, v)) = p"
  shows "objs p = xs @ ys \<Longrightarrow> foreach_loop A body (head_or_null ys) (p, v) = Some (fold body ys (p, v))"
proof (induction ys arbitrary: xs v)
  case Nil
  show ?case by (subst foreach_loop.simps) simp
next
  case (Cons y ys)
  obtain w where w: "body y (p, v) = (p, w)" using keep [of y v] by (cases "body y (p, v)") auto
  have "pmemobj_next A p y = head_or_null ys" by (rule succ [OF Cons.prems])
  moreover have "off y \<noteq> 0" using Cons.prems no_null [of y p] by simp
  moreover have "foreach_loop A body (head_or_null ys) (p, w) = Some (fold body ys (p, w))"
    using Cons.IH [of "xs @ [y]"] Cons.prems by simp
  ultimately show ?case by (subst foreach_loop.simps) (simp add: w Let_def)
qed

text \<open>The safe loop tolerates a body that frees the object it is called for.\<close>

lemma foreach_safe_free:
  assumes "objs p = xs @ ys" "body = if_type A t (\<lambda>x (p, v). (free_object A p x, v @ [x]))"
  shows "\<exists>p'. foreach_safe_loop A body (head_or_null ys) (p, v) = Some (p', v @ of_type p t ys) \<and>
    objs p' = xs @ filter (\<lambda>x. pmemobj_type_num A p x \<noteq> t) ys"
  using assms(1)
proof (induction ys arbitrary: p xs v)
  case Nil
  then show ?case by (subst foreach_safe_loop.simps) simp
next
  case (Cons y ys)
  have nx: "pmemobj_next A p y = head_or_null ys" by (rule succ [OF Cons.prems])
  have y: "off y \<noteq> 0" using Cons.prems no_null [of y p] by simp
  have dist: "y \<notin> set xs" "y \<notin> set ys" using Cons.prems distinct [of p] by simp_all
  show ?case
  proof (cases "pmemobj_type_num A p y = t")
    case True
    let ?q = "free_object A p y"
    have q: "objs ?q = xs @ ys" using dist by (simp add: freed Cons.prems remove1_append)
    have ty: "pmemobj_type_num A ?q x = pmemobj_type_num A p x" if "x \<in> set ys" for x
      using types that dist by metis
    then have f: "of_type ?q t ys = of_type p t ys"
      "filter (\<lambda>x. pmemobj_type_num A ?q x \<noteq> t) ys = filter (\<lambda>x. pmemobj_type_num A p x \<noteq> t) ys"
      by (auto intro: filter_cong)
    have "body y (p, v) = (?q, v @ [y])" using True by (simp add: assms(2) if_type_def)
    with nx y Cons.IH [OF q, of "v @ [y]"] True f show ?thesis
      by (subst foreach_safe_loop.simps) simp
  next
    case False
    then have "body y (p, v) = (p, v)" by (simp add: assms(2) if_type_def)
    with nx y Cons.IH [of p "xs @ [y]" v] Cons.prems False show ?thesis
      by (subst foreach_safe_loop.simps) simp
  qed
qed

end

section \<open>A library that meets the contract\<close>

text \<open>A directory of objects with their type numbers, in the order of the list.\<close>

type_synonym directory = "(PMEMoid \<times> u64) list"

definition dir_objs :: "directory \<Rightarrow> PMEMoid list" where
  "dir_objs d = remdups (filter (\<lambda>x. off x \<noteq> 0) (map fst d))"

fun successor :: "PMEMoid list \<Rightarrow> PMEMoid \<Rightarrow> PMEMoid" where
  "successor [] x = OID_NULL"
| "successor (y # ys) x = (if x = y then head_or_null ys else successor ys x)"

definition dir_type :: "directory \<Rightarrow> PMEMoid \<Rightarrow> u64" where
  "dir_type d x = (case map_of d x of None \<Rightarrow> 0 | Some t \<Rightarrow> t)"

definition dir_api :: "directory iter_api" where
  "dir_api = \<lparr>pmemobj_first = (\<lambda>d. head_or_null (dir_objs d)), pmemobj_next = (\<lambda>d. successor (dir_objs d)),
     pmemobj_type_num = dir_type, free_object = (\<lambda>d x. filter (\<lambda>y. fst y \<noteq> x) d)\<rparr>"

lemma successor_append: "x \<notin> set xs \<Longrightarrow> successor (xs @ x # ys) x = head_or_null ys"
  by (induction xs) auto

lemma map_of_filter_other: "x \<noteq> y \<Longrightarrow> map_of (filter (\<lambda>z. fst z \<noteq> x) d) y = map_of d y"
  by (induction d) auto

lemma dir_objs_free: "dir_objs (filter (\<lambda>z. fst z \<noteq> x) d) = remove1 x (dir_objs d)"
proof -
  have "map fst (filter (\<lambda>z. fst z \<noteq> x) d) = filter (\<lambda>y. y \<noteq> x) (map fst d)" by (induction d) auto
  then have "dir_objs (filter (\<lambda>z. fst z \<noteq> x) d) = filter (\<lambda>y. y \<noteq> x) (dir_objs d)"
    by (simp add: dir_objs_def remdups_filter [symmetric] conj_commute)
  also have "\<dots> = removeAll x (dir_objs d)" by (simp add: removeAll_filter_not_eq) (auto intro: filter_cong)
  also have "\<dots> = remove1 x (dir_objs d)" by (simp add: distinct_remove1_removeAll dir_objs_def)
  finally show ?thesis .
qed

interpretation directory: object_list dir_api dir_objs
proof (unfold_locales, goal_cases)
  case (4 p xs x ys)
  have "distinct (dir_objs p)" by (simp add: dir_objs_def)
  with 4 show ?case by (simp add: dir_api_def successor_append)
qed (simp_all add: dir_api_def dir_objs_free dir_type_def map_of_filter_other, simp_all add: dir_objs_def)

section \<open>Properties\<close>

text \<open>C29: 
  Iterating by type sees exactly the objects of the type, in the order of the pool: the search for the first and for the
  next one always ends, with the first such object (after the given one) or null, and \<open>POBJ_FOREACH_TYPE\<close> runs a body
  that does not change the pool once for each.
\<close>

theorem iteration_by_type_exact:
  assumes "object_list A objs" "objs p = xs @ x # ys" "\<forall>y v. fst (body y (p, v)) = p"
  shows "POBJ_FIRST_TYPE_NUM A p t = Some (head_or_null (filter (\<lambda>y. pmemobj_type_num A p y = t) (objs p))) \<and>
    POBJ_NEXT_TYPE_NUM A p x =
      Some (head_or_null (filter (\<lambda>y. pmemobj_type_num A p y = pmemobj_type_num A p x) ys)) \<and>
    POBJ_FOREACH_TYPE A t body (p, v) = Some (fold body (filter (\<lambda>y. pmemobj_type_num A p y = t) (objs p)) (p, v))"
proof -
  have keep: "fst (if_type A t body y (p, v)) = p" for y v using assms(3) by (simp add: if_type_def)
  have filtered: "fold (if_type A t body) zs (p, v) = fold body (filter (\<lambda>y. pmemobj_type_num A p y = t) zs) (p, v)" for zs v
  proof (induction zs arbitrary: v)
    case (Cons z zs)
    obtain w where "body z (p, v) = (p, w)" using assms(3) by (metis prod.collapse)
    with Cons show ?case by (simp add: if_type_def)
  qed simp
  have "POBJ_FOREACH_TYPE A t body (p, v) = Some (fold (if_type A t body) (objs p) (p, v))"
    using object_list.foreach_list [OF assms(1), where p = p and xs = "[]" and ys = "objs p" and body = "if_type A t body", OF keep]
    by (simp add: POBJ_FOREACH_TYPE_def POBJ_FOREACH_def object_list.first [OF assms(1)])
  moreover have "POBJ_FIRST_TYPE_NUM A p t = Some (head_or_null (filter (\<lambda>y. pmemobj_type_num A p y = t) (objs p)))"
    using object_list.first_loop_list [OF assms(1), where p = p and xs = "[]" and ys = "objs p"]
    by (simp add: POBJ_FIRST_TYPE_NUM_def object_list.first [OF assms(1)])
  ultimately show ?thesis
    using object_list.next_type_list [OF assms(1,2)] by (simp add: filtered)
qed

definition three_objects :: directory where
  "three_objects = [(PMEMoid 7 64, 1), (PMEMoid 7 128, 2), (PMEMoid 7 192, 1)]"

theorem iteration_by_type_exact_witness:
  "POBJ_FOREACH_TYPE dir_api 1 (\<lambda>x (p, v). (p, v @ [x])) (three_objects, []) =
     Some (three_objects, [PMEMoid 7 64, PMEMoid 7 192])"
  using iteration_by_type_exact [OF directory.object_list_axioms, of three_objects "[]" "PMEMoid 7 64"
      "[PMEMoid 7 128, PMEMoid 7 192]" "\<lambda>x (p, v). (p, v @ [x])" 1 "[]"]
  by (simp add: three_objects_def dir_objs_def dir_api_def dir_type_def)

text \<open>C28: 
  \<open>POBJ_FOREACH_SAFE_TYPE\<close> with a body that frees the current object, and notes it, ends after freeing every object of
  the type once, and leaves exactly the others in the pool.
\<close>

theorem safe_iteration_frees_all_of_type:
  assumes "object_list A objs"
  shows "\<exists>p'. POBJ_FOREACH_SAFE_TYPE A t (\<lambda>x (p, v). (free_object A p x, v @ [x])) (p, []) =
      Some (p', filter (\<lambda>y. pmemobj_type_num A p y = t) (objs p)) \<and>
    objs p' = filter (\<lambda>y. pmemobj_type_num A p y \<noteq> t) (objs p)"
  using object_list.foreach_safe_free [OF assms, of p "[]" "objs p" _ t "[]", OF _ refl]
  by (simp add: POBJ_FOREACH_SAFE_TYPE_def POBJ_FOREACH_SAFE_def object_list.first [OF assms])

theorem safe_iteration_frees_all_of_type_witness:
  "\<exists>d. POBJ_FOREACH_SAFE_TYPE dir_api 1 (\<lambda>x (p, v). (free_object dir_api p x, v @ [x])) (three_objects, []) =
      Some (d, [PMEMoid 7 64, PMEMoid 7 192]) \<and> dir_objs d = [PMEMoid 7 128]"
proof -
  have "filter (\<lambda>y. pmemobj_type_num dir_api three_objects y = 1) (dir_objs three_objects) = [PMEMoid 7 64, PMEMoid 7 192]"
    "filter (\<lambda>y. pmemobj_type_num dir_api three_objects y \<noteq> 1) (dir_objs three_objects) = [PMEMoid 7 128]"
    by (simp_all add: three_objects_def dir_objs_def dir_api_def dir_type_def)
  with safe_iteration_frees_all_of_type [OF directory.object_list_axioms, of 1 three_objects] show ?thesis by simp
qed

end
