(* ===== verification/Typed_Oid.thy ===== *)
theory Typed_Oid
  imports Obj_Iter
begin

text \<open>
  The typed object handles of the C interface, \<open>src/pmdk-include/libpmemobj/types.h\<close>, and the macros that allocate through them,
  \<open>libpmemobj/atomic.h\<close> and \<open>libpmemobj/action.h\<close>. A type gets its number when the preprocessor expands a layout: the numbers live in
  the lengths of array types, computed from \<open>__COUNTER__\<close>. That part is a function on the state of the translation unit,
  where \<open>None\<close> is a translation unit that does not compile. A handle \<open>TOID(t)\<close> is a static type name and an object handle. The
  allocator of the library is the argument \<open>atomic_api\<close>, its contract the locale \<open>typed_pool\<close>.
\<close>

section \<open>Layouts\<close>

text \<open>
  The declarations that matter: \<open>__COUNTER__\<close>, the lengths of the arrays \<open>_toid_t_toid_type_num\<close>, and for each layout the lengths of
  \<open>_pobj_layout_name_ref\<close> and \<open>_pobj_layout_name_cnt\<close>.
\<close>

record unit_decls =
  counter :: nat
  toid_type_num :: "string \<rightharpoonup> u64"
  layout_ref :: "string \<rightharpoonup> u64"
  layout_cnt :: "string \<rightharpoonup> u64"

definition POBJ_ROOT_TYPE_NUM :: u64 where "POBJ_ROOT_TYPE_NUM = 0"

definition TOID_DECLARE :: "string \<Rightarrow> u64 \<Rightarrow> unit_decls \<Rightarrow> unit_decls option" where
  "TOID_DECLARE t i D =
     (if toid_type_num D t = None then Some (D\<lparr>toid_type_num := (toid_type_num D)(t \<mapsto> i + 1)\<rparr>) else None)"

definition TOID_DECLARE_ROOT :: "string \<Rightarrow> unit_decls \<Rightarrow> unit_decls option" where
  "TOID_DECLARE_ROOT t = TOID_DECLARE t POBJ_ROOT_TYPE_NUM"

definition TOID_TYPE_NUM :: "unit_decls \<Rightarrow> string \<Rightarrow> u64 option" where
  "TOID_TYPE_NUM D t = map_option (\<lambda>n. n - 1) (toid_type_num D t)"

text \<open>Each occurrence of \<open>__COUNTER__\<close> is one more than the last.\<close>

definition use_counter :: "unit_decls \<Rightarrow> unit_decls" where
  "use_counter D = D\<lparr>counter := Suc (counter D)\<rparr>"

definition POBJ_LAYOUT_BEGIN :: "string \<Rightarrow> unit_decls \<Rightarrow> unit_decls option" where
  "POBJ_LAYOUT_BEGIN name D =
     (if layout_ref D name = None
      then Some ((use_counter D)\<lparr>layout_ref := (layout_ref D)(name \<mapsto> of_nat (counter D) + 1)\<rparr>) else None)"

definition POBJ_LAYOUT_END :: "string \<Rightarrow> unit_decls \<Rightarrow> unit_decls option" where
  "POBJ_LAYOUT_END name D =
     (case layout_ref D name of None \<Rightarrow> None
      | Some ref \<Rightarrow> if layout_cnt D name = None
          then Some ((use_counter D)\<lparr>layout_cnt := (layout_cnt D)(name \<mapsto> of_nat (counter D) + 1 - ref)\<rparr>) else None)"

definition POBJ_LAYOUT_TYPES_NUM :: "unit_decls \<Rightarrow> string \<Rightarrow> u64 option" where
  "POBJ_LAYOUT_TYPES_NUM D name = map_option (\<lambda>n. n - 1) (layout_cnt D name)"

definition POBJ_LAYOUT_TOID :: "string \<Rightarrow> string \<Rightarrow> unit_decls \<Rightarrow> unit_decls option" where
  "POBJ_LAYOUT_TOID name t D =
     (case layout_ref D name of None \<Rightarrow> None
      | Some ref \<Rightarrow> TOID_DECLARE t (of_nat (counter D) + 1 - ref) (use_counter D))"

definition POBJ_LAYOUT_ROOT :: "string \<Rightarrow> string \<Rightarrow> unit_decls \<Rightarrow> unit_decls option" where
  "POBJ_LAYOUT_ROOT name t = TOID_DECLARE_ROOT t"

text \<open>A layout as it is written: a beginning, declarations (and other code that uses \<open>__COUNTER__\<close>), an end.\<close>

datatype layout_item = Layout_ROOT string | Layout_TOID string | Other_counter

fun expand_item :: "string \<Rightarrow> layout_item \<Rightarrow> unit_decls \<Rightarrow> unit_decls option" where
  "expand_item name (Layout_ROOT t) D = POBJ_LAYOUT_ROOT name t D"
| "expand_item name (Layout_TOID t) D = POBJ_LAYOUT_TOID name t D"
| "expand_item name Other_counter D = Some (use_counter D)"

primrec layout_items :: "string \<Rightarrow> layout_item list \<Rightarrow> unit_decls \<Rightarrow> unit_decls option" where
  "layout_items name [] D = Some D"
| "layout_items name (i # its) D = Option.bind (expand_item name i D) (layout_items name its)"

definition layout :: "string \<Rightarrow> layout_item list \<Rightarrow> unit_decls \<Rightarrow> unit_decls option" where
  "layout name its D =
     Option.bind (POBJ_LAYOUT_BEGIN name D) (\<lambda>D. Option.bind (layout_items name its D) (POBJ_LAYOUT_END name))"

section \<open>Typed handles\<close>

datatype toid = TOID (toid_type: string) (oid: PMEMoid)

definition TOID_NULL :: "string \<Rightarrow> toid" where
  "TOID_NULL t = TOID t OID_NULL"

definition TOID_ASSIGN :: "toid \<Rightarrow> PMEMoid \<Rightarrow> toid" where
  "TOID_ASSIGN x val = TOID (toid_type x) val"

definition TOID_EQUALS :: "toid \<Rightarrow> toid \<Rightarrow> bool" where
  "TOID_EQUALS lhs rhs \<longleftrightarrow> off (oid lhs) = off (oid rhs) \<and> pool_uuid_lo (oid lhs) = pool_uuid_lo (oid rhs)"

definition TOID_IS_NULL :: "toid \<Rightarrow> bool" where
  "TOID_IS_NULL x \<longleftrightarrow> off (oid x) = 0"

definition TOID_TYPE_NUM_OF :: "unit_decls \<Rightarrow> toid \<Rightarrow> u64 option" where
  "TOID_TYPE_NUM_OF D x = TOID_TYPE_NUM D (toid_type x)"

definition TOID_VALID :: "unit_decls \<Rightarrow> (PMEMoid \<Rightarrow> u64) \<Rightarrow> toid \<Rightarrow> bool" where
  "TOID_VALID D type_num x \<longleftrightarrow> TOID_TYPE_NUM_OF D x = Some (type_num (oid x))"

definition OID_INSTANCEOF :: "unit_decls \<Rightarrow> (PMEMoid \<Rightarrow> u64) \<Rightarrow> PMEMoid \<Rightarrow> string \<Rightarrow> bool" where
  "OID_INSTANCEOF D type_num ob t \<longleftrightarrow> TOID_TYPE_NUM D t = Some (type_num ob)"

text \<open>The direct pointer, with the type it points to; \<open>DIRECT_RO\<close> gives the same address as a pointer to \<open>const\<close>.\<close>

definition DIRECT_RW :: "(PMEMoid \<Rightarrow> u64) \<Rightarrow> toid \<Rightarrow> (direct_state, string \<times> u64) cpp" where
  "DIRECT_RW pool_by_oid x = bindC (pmemobj_direct_inline pool_by_oid (oid x)) (\<lambda>a. returnC (toid_type x, a))"

definition DIRECT_RO :: "(PMEMoid \<Rightarrow> u64) \<Rightarrow> toid \<Rightarrow> (direct_state, string \<times> u64) cpp" where
  "DIRECT_RO pool_by_oid x = bindC (pmemobj_direct_inline pool_by_oid (oid x)) (\<lambda>a. returnC (toid_type x, a))"

section \<open>Atomic allocation through typed handles\<close>

text \<open>
  The library: each function takes what the handle \<open>*oidp\<close> holds and gives its new content, with the result code. A constructor may
  change the pool and fail.
\<close>

type_synonym 'p constructor = "PMEMoid \<Rightarrow> 'p \<Rightarrow> int \<times> 'p"

record 'p atomic_api =
  api_alloc :: "u64 \<Rightarrow> u64 \<Rightarrow> 'p constructor \<Rightarrow> PMEMoid \<Rightarrow> 'p \<Rightarrow> int \<times> PMEMoid \<times> 'p"
  api_zalloc :: "u64 \<Rightarrow> u64 \<Rightarrow> PMEMoid \<Rightarrow> 'p \<Rightarrow> int \<times> PMEMoid \<times> 'p"
  api_realloc :: "u64 \<Rightarrow> u64 \<Rightarrow> PMEMoid \<Rightarrow> 'p \<Rightarrow> int \<times> PMEMoid \<times> 'p"
  api_zrealloc :: "u64 \<Rightarrow> u64 \<Rightarrow> PMEMoid \<Rightarrow> 'p \<Rightarrow> int \<times> PMEMoid \<times> 'p"
  api_free :: "PMEMoid \<Rightarrow> 'p \<Rightarrow> PMEMoid \<times> 'p"
  api_reserve :: "u64 \<Rightarrow> u64 \<Rightarrow> 'p \<Rightarrow> PMEMoid \<times> 'p"
  api_type_num :: "'p \<Rightarrow> PMEMoid \<Rightarrow> u64"

text \<open>
  The cast \<open>(PMEMoid *)(o)\<close> of the macros accepts a handle of any type, so the type of the handle and the type argument \<open>t\<close> are
  independent. \<open>None\<close>: \<open>t\<close> has no declared number.
\<close>

definition through :: "toid \<Rightarrow> (PMEMoid \<Rightarrow> 'p \<Rightarrow> int \<times> PMEMoid \<times> 'p) \<Rightarrow> 'p \<Rightarrow> int \<times> toid \<times> 'p" where
  "through x f p = (case f (oid x) p of (rc, new, p') \<Rightarrow> (rc, TOID_ASSIGN x new, p'))"

definition POBJ_NEW :: "'p atomic_api \<Rightarrow> unit_decls \<Rightarrow> (string \<Rightarrow> u64) \<Rightarrow> toid \<Rightarrow> string \<Rightarrow> 'p constructor \<Rightarrow> 'p \<Rightarrow> (int \<times> toid \<times> 'p) option" where
  "POBJ_NEW A D sizeof x t constr p =
     map_option (\<lambda>n. through x (api_alloc A (sizeof t) n constr) p) (TOID_TYPE_NUM D t)"

definition POBJ_ALLOC :: "'p atomic_api \<Rightarrow> unit_decls \<Rightarrow> toid \<Rightarrow> string \<Rightarrow> u64 \<Rightarrow> 'p constructor \<Rightarrow> 'p \<Rightarrow> (int \<times> toid \<times> 'p) option" where
  "POBJ_ALLOC A D x t sz constr p = map_option (\<lambda>n. through x (api_alloc A sz n constr) p) (TOID_TYPE_NUM D t)"

definition POBJ_ZNEW :: "'p atomic_api \<Rightarrow> unit_decls \<Rightarrow> (string \<Rightarrow> u64) \<Rightarrow> toid \<Rightarrow> string \<Rightarrow> 'p \<Rightarrow> (int \<times> toid \<times> 'p) option" where
  "POBJ_ZNEW A D sizeof x t p = map_option (\<lambda>n. through x (api_zalloc A (sizeof t) n) p) (TOID_TYPE_NUM D t)"

definition POBJ_ZALLOC :: "'p atomic_api \<Rightarrow> unit_decls \<Rightarrow> toid \<Rightarrow> string \<Rightarrow> u64 \<Rightarrow> 'p \<Rightarrow> (int \<times> toid \<times> 'p) option" where
  "POBJ_ZALLOC A D x t sz p = map_option (\<lambda>n. through x (api_zalloc A sz n) p) (TOID_TYPE_NUM D t)"

definition POBJ_REALLOC :: "'p atomic_api \<Rightarrow> unit_decls \<Rightarrow> toid \<Rightarrow> string \<Rightarrow> u64 \<Rightarrow> 'p \<Rightarrow> (int \<times> toid \<times> 'p) option" where
  "POBJ_REALLOC A D x t sz p = map_option (\<lambda>n. through x (api_realloc A sz n) p) (TOID_TYPE_NUM D t)"

definition POBJ_ZREALLOC :: "'p atomic_api \<Rightarrow> unit_decls \<Rightarrow> toid \<Rightarrow> string \<Rightarrow> u64 \<Rightarrow> 'p \<Rightarrow> (int \<times> toid \<times> 'p) option" where
  "POBJ_ZREALLOC A D x t sz p = map_option (\<lambda>n. through x (api_zrealloc A sz n) p) (TOID_TYPE_NUM D t)"

definition POBJ_FREE :: "'p atomic_api \<Rightarrow> toid \<Rightarrow> 'p \<Rightarrow> toid \<times> 'p" where
  "POBJ_FREE A x p = (case api_free A (oid x) p of (new, p') \<Rightarrow> (TOID_ASSIGN x new, p'))"

definition POBJ_RESERVE_NEW :: "'p atomic_api \<Rightarrow> unit_decls \<Rightarrow> (string \<Rightarrow> u64) \<Rightarrow> string \<Rightarrow> 'p \<Rightarrow> (toid \<times> 'p) option" where
  "POBJ_RESERVE_NEW A D sizeof t p =
     map_option (\<lambda>n. case api_reserve A (sizeof t) n p of (ob, p') \<Rightarrow> (TOID t ob, p')) (TOID_TYPE_NUM D t)"

definition POBJ_RESERVE_ALLOC :: "'p atomic_api \<Rightarrow> unit_decls \<Rightarrow> string \<Rightarrow> u64 \<Rightarrow> 'p \<Rightarrow> (toid \<times> 'p) option" where
  "POBJ_RESERVE_ALLOC A D t sz p =
     map_option (\<lambda>n. case api_reserve A sz n p of (ob, p') \<Rightarrow> (TOID t ob, p')) (TOID_TYPE_NUM D t)"

section \<open>The numbers of a layout\<close>

fun counts :: "layout_item \<Rightarrow> bool" where
  "counts (Layout_ROOT t) = False"
| "counts i = True"

fun item_type :: "layout_item \<Rightarrow> string list" where
  "item_type (Layout_ROOT t) = [t]"
| "item_type (Layout_TOID t) = [t]"
| "item_type Other_counter = []"

text \<open>The type numbers that items get when \<open>k\<close> uses of the counter lie behind the beginning.\<close>

fun numbers :: "nat \<Rightarrow> layout_item list \<Rightarrow> (string \<times> nat) list" where
  "numbers k [] = []"
| "numbers k (Layout_ROOT t # its) = (t, 0) # numbers k its"
| "numbers k (Layout_TOID t # its) = (t, Suc k) # numbers (Suc k) its"
| "numbers k (Other_counter # its) = numbers (Suc k) its"

lemma numbers_names: "map fst (numbers k its) = concat (map item_type its)"
  by (induction k its rule: numbers.induct) auto

lemma numbers_bounds: "(t, n) \<in> set (numbers k its) \<Longrightarrow> n = 0 \<or> k < n \<and> n \<le> k + length (filter counts its)"
  by (induction k its rule: numbers.induct) auto

lemma numbers_root: "Layout_ROOT t \<in> set its \<Longrightarrow> (t, 0) \<in> set (numbers k its)"
  by (induction k its rule: numbers.induct) auto

lemma numbers_nth:
  assumes "i < length its" and "its ! i = Layout_TOID t"
  shows "(t, k + Suc (length (filter counts (take i its)))) \<in> set (numbers k its)"
  using assms
proof (induction k its arbitrary: i rule: numbers.induct)
  case (2 k t its)
  then show ?case by (cases i) auto
next
  case (3 k t its)
  then show ?case by (cases i) force+
next
  case (4 k its)
  then show ?case by (cases i) force+
qed simp

lemma filter_take_mono: "m \<le> n \<Longrightarrow> length (filter P (take m xs)) \<le> length (filter P (take n xs))"
proof -
  assume "m \<le> n"
  then have "take n xs = take m xs @ drop m (take n xs)" by (metis append_take_drop_id min_absorb1 take_take)
  then have "filter P (take n xs) = filter P (take m xs) @ filter P (drop m (take n xs))" by (metis filter_append)
  then show ?thesis by simp
qed

lemma counts_before_inj:
  assumes "i < length its" and "counts (its ! i)" and "j < length its" and "counts (its ! j)"
    and "length (filter counts (take i its)) = length (filter counts (take j its))"
  shows "i = j"
proof -
  have "length (filter counts (take a its)) < length (filter counts (take b its))" if "a < b" "a < length its" "counts (its ! a)" for a b
    using filter_take_mono [of "Suc a" b counts its] that by (simp add: take_Suc_conv_app_nth)
  with assms show ?thesis by (metis nat_neq_iff)
qed

lemma layout_items_numbers:
  assumes "layout_ref D name = Some (of_nat r)" and "r \<le> counter D" and "distinct (concat (map item_type its))"
    and "\<And>t. t \<in> set (concat (map item_type its)) \<Longrightarrow> toid_type_num D t = None"
  shows "\<exists>E. layout_items name its D = Some E \<and> layout_ref E = layout_ref D \<and> layout_cnt E = layout_cnt D \<and>
    counter E = counter D + length (filter counts its) \<and>
    (\<forall>(t, n)\<in>set (numbers (counter D - r) its). toid_type_num E t = Some (of_nat n + 1)) \<and>
    (\<forall>t. t \<notin> set (concat (map item_type its)) \<longrightarrow> toid_type_num E t = toid_type_num D t)"
  using assms
proof (induction its arbitrary: D)
  case (Cons i its)
  show ?case
  proof (cases i)
    case (Layout_ROOT t)
    let ?D = "D\<lparr>toid_type_num := (toid_type_num D)(t \<mapsto> 1)\<rparr>"
    have step: "expand_item name i D = Some ?D"
      using Layout_ROOT Cons.prems(4) [of t] by (simp add: POBJ_LAYOUT_ROOT_def TOID_DECLARE_ROOT_def TOID_DECLARE_def POBJ_ROOT_TYPE_NUM_def)
    have t: "t \<notin> set (concat (map item_type its))" using Cons.prems(3) Layout_ROOT by simp
    have "\<exists>E. layout_items name its ?D = Some E \<and> layout_ref E = layout_ref ?D \<and> layout_cnt E = layout_cnt ?D \<and>
      counter E = counter ?D + length (filter counts its) \<and>
      (\<forall>(t, n)\<in>set (numbers (counter ?D - r) its). toid_type_num E t = Some (of_nat n + 1)) \<and>
      (\<forall>t. t \<notin> set (concat (map item_type its)) \<longrightarrow> toid_type_num E t = toid_type_num ?D t)"
      by (rule Cons.IH) (use Cons.prems Layout_ROOT t in auto)
    then obtain E where E: "layout_items name its ?D = Some E" "layout_ref E = layout_ref D" "layout_cnt E = layout_cnt D"
      "counter E = counter D + length (filter counts its)"
      "\<forall>(t, n)\<in>set (numbers (counter D - r) its). toid_type_num E t = Some (of_nat n + 1)"
      "\<And>t. t \<notin> set (concat (map item_type its)) \<Longrightarrow> toid_type_num E t = toid_type_num ?D t" by auto
    with E(6) [OF t] show ?thesis by (intro exI [of _ E]) (simp add: step, simp add: Layout_ROOT)
  next
    case (Layout_TOID t)
    let ?D = "(use_counter D)\<lparr>toid_type_num := (toid_type_num D)(t \<mapsto> of_nat (Suc (counter D - r)) + 1)\<rparr>"
    have "(of_nat (counter D) :: u64) + 1 - of_nat r = of_nat (Suc (counter D - r))" using Cons.prems(2) by (simp add: of_nat_diff)
    then have step: "expand_item name i D = Some ?D"
      using Layout_TOID Cons.prems(1) Cons.prems(4) [of t] by (simp add: POBJ_LAYOUT_TOID_def TOID_DECLARE_def use_counter_def)
    have t: "t \<notin> set (concat (map item_type its))" using Cons.prems(3) Layout_TOID by simp
    have k: "counter ?D - r = Suc (counter D - r)" using Cons.prems(2) by (simp add: use_counter_def Suc_diff_le)
    have "\<exists>E. layout_items name its ?D = Some E \<and> layout_ref E = layout_ref ?D \<and> layout_cnt E = layout_cnt ?D \<and>
      counter E = counter ?D + length (filter counts its) \<and>
      (\<forall>(t, n)\<in>set (numbers (counter ?D - r) its). toid_type_num E t = Some (of_nat n + 1)) \<and>
      (\<forall>t. t \<notin> set (concat (map item_type its)) \<longrightarrow> toid_type_num E t = toid_type_num ?D t)"
      by (rule Cons.IH) (use Cons.prems Layout_TOID t in \<open>auto simp: use_counter_def\<close>)
    then obtain E where E: "layout_items name its ?D = Some E" "layout_ref E = layout_ref D" "layout_cnt E = layout_cnt D"
      "counter E = Suc (counter D) + length (filter counts its)"
      "\<forall>(t, n)\<in>set (numbers (Suc (counter D - r)) its). toid_type_num E t = Some (of_nat n + 1)"
      "\<And>t. t \<notin> set (concat (map item_type its)) \<Longrightarrow> toid_type_num E t = toid_type_num ?D t"
      unfolding k by (auto simp: use_counter_def)
    with E(6) [OF t] show ?thesis by (intro exI [of _ E]) (simp add: step, simp add: Layout_TOID use_counter_def)
  next
    case Other_counter
    have k: "counter (use_counter D) - r = Suc (counter D - r)" using Cons.prems(2) by (simp add: use_counter_def Suc_diff_le)
    have "\<exists>E. layout_items name its (use_counter D) = Some E \<and> layout_ref E = layout_ref (use_counter D) \<and> layout_cnt E = layout_cnt (use_counter D) \<and>
      counter E = counter (use_counter D) + length (filter counts its) \<and>
      (\<forall>(t, n)\<in>set (numbers (counter (use_counter D) - r) its). toid_type_num E t = Some (of_nat n + 1)) \<and>
      (\<forall>t. t \<notin> set (concat (map item_type its)) \<longrightarrow> toid_type_num E t = toid_type_num (use_counter D) t)"
      by (rule Cons.IH) (use Cons.prems Other_counter in \<open>auto simp: use_counter_def\<close>)
    then show ?thesis unfolding k by (simp add: Other_counter use_counter_def)
  qed
qed simp

section \<open>The contract of the allocator\<close>

text \<open>
  A successful call gives a new object of the requested type number, a failed one changes nothing; reallocation moves the object or
  leaves it, and frees it when the size is 0; freeing leaves a null handle. The types of other objects stay.
\<close>

definition gained :: "'p atomic_api \<Rightarrow> ('p \<Rightarrow> PMEMoid set) \<Rightarrow> u64 \<Rightarrow> PMEMoid set \<Rightarrow> 'p \<Rightarrow> PMEMoid \<Rightarrow> 'p \<Rightarrow> bool" where
  "gained A objs n others p new p' \<longleftrightarrow> off new \<noteq> 0 \<and> new \<notin> others \<and> objs p' = insert new others \<and>
     api_type_num A p' new = n \<and> (\<forall>x\<in>others. api_type_num A p' x = api_type_num A p x)"

definition remaining :: "'p atomic_api \<Rightarrow> ('p \<Rightarrow> PMEMoid set) \<Rightarrow> PMEMoid set \<Rightarrow> 'p \<Rightarrow> 'p \<Rightarrow> bool" where
  "remaining A objs others p p' \<longleftrightarrow> objs p' = others \<and> (\<forall>x\<in>others. api_type_num A p' x = api_type_num A p x)"

locale typed_pool =
  fixes A :: "'p atomic_api" and objs :: "'p \<Rightarrow> PMEMoid set"
  assumes alloc: "api_alloc A sz n c old p = (rc, new, p') \<Longrightarrow>
      if rc = 0 then gained A objs n (objs p) p new p' else new = old \<and> remaining A objs (objs p) p p'"
    and zalloc: "api_zalloc A sz n old p = (rc, new, p') \<Longrightarrow>
      if rc = 0 then gained A objs n (objs p) p new p' else new = old \<and> remaining A objs (objs p) p p'"
    and realloc_fail: "f = api_realloc A \<or> f = api_zrealloc A \<Longrightarrow> f sz n old p = (rc, new, p') \<Longrightarrow> rc \<noteq> 0 \<Longrightarrow>
      new = old \<and> remaining A objs (objs p) p p'"
    and realloc_null: "f = api_realloc A \<or> f = api_zrealloc A \<Longrightarrow> f sz n old p = (0, new, p') \<Longrightarrow> OID_IS_NULL old \<Longrightarrow>
      gained A objs n (objs p) p new p'"
    and realloc_free: "f = api_realloc A \<or> f = api_zrealloc A \<Longrightarrow> f 0 n old p = (0, new, p') \<Longrightarrow> old \<in> objs p \<Longrightarrow>
      new = OID_NULL \<and> remaining A objs (objs p - {old}) p p'"
    and realloc_move: "f = api_realloc A \<or> f = api_zrealloc A \<Longrightarrow> f sz n old p = (0, new, p') \<Longrightarrow> old \<in> objs p \<Longrightarrow> sz \<noteq> 0 \<Longrightarrow>
      gained A objs n (objs p - {old}) p new p'"
    and free: "api_free A old p = (new, p') \<Longrightarrow> old \<in> objs p \<Longrightarrow> new = OID_NULL \<and> remaining A objs (objs p - {old}) p p'"
    and free_null: "api_free A old p = (new, p') \<Longrightarrow> OID_IS_NULL old \<Longrightarrow> new = old \<and> p' = p"
    and no_null: "x \<in> objs p \<Longrightarrow> off x \<noteq> 0"

section \<open>Programs that allocate through typed handles\<close>

datatype 'p typed_op =
    Op_new "'p constructor" | Op_alloc u64 "'p constructor" | Op_znew | Op_zalloc u64
  | Op_realloc u64 | Op_zrealloc u64 | Op_free

text \<open>An operation on the variable that holds the handle \<open>x\<close>, with the type of the handle as the type argument.\<close>

fun run_typed :: "'p atomic_api \<Rightarrow> unit_decls \<Rightarrow> (string \<Rightarrow> u64) \<Rightarrow> 'p typed_op \<Rightarrow> toid \<Rightarrow> 'p \<Rightarrow> (toid \<times> 'p) option" where
  "run_typed A D sizeof (Op_new c) x p = map_option snd (POBJ_NEW A D sizeof x (toid_type x) c p)"
| "run_typed A D sizeof (Op_alloc sz c) x p = map_option snd (POBJ_ALLOC A D x (toid_type x) sz c p)"
| "run_typed A D sizeof Op_znew x p = map_option snd (POBJ_ZNEW A D sizeof x (toid_type x) p)"
| "run_typed A D sizeof (Op_zalloc sz) x p = map_option snd (POBJ_ZALLOC A D x (toid_type x) sz p)"
| "run_typed A D sizeof (Op_realloc sz) x p = map_option snd (POBJ_REALLOC A D x (toid_type x) sz p)"
| "run_typed A D sizeof (Op_zrealloc sz) x p = map_option snd (POBJ_ZREALLOC A D x (toid_type x) sz p)"
| "run_typed A D sizeof Op_free x p = Some (POBJ_FREE A x p)"

text \<open>The states that a program with typed variables reaches: a pool and the handles in the variables.\<close>

inductive typed_reach ::
  "'p atomic_api \<Rightarrow> unit_decls \<Rightarrow> (string \<Rightarrow> u64) \<Rightarrow> 'p \<times> ('v \<Rightarrow> toid) \<Rightarrow> 'p \<times> ('v \<Rightarrow> toid) \<Rightarrow> bool"
  for A D sizeof s0 where
  reach_start: "typed_reach A D sizeof s0 s0"
| reach_op: "typed_reach A D sizeof s0 (p, vars) \<Longrightarrow> run_typed A D sizeof op (vars v) p = Some (x, p') \<Longrightarrow>
    typed_reach A D sizeof s0 (p', vars(v := x))"

text \<open>Every variable is null or has a valid handle of a live object, which no other variable has.\<close>

definition handles_ok :: "'p atomic_api \<Rightarrow> ('p \<Rightarrow> PMEMoid set) \<Rightarrow> unit_decls \<Rightarrow> 'p \<times> ('v \<Rightarrow> toid) \<Rightarrow> bool" where
  "handles_ok A objs D s \<longleftrightarrow> (case s of (p, vars) \<Rightarrow>
     (\<forall>v. \<not> TOID_IS_NULL (vars v) \<longrightarrow> oid (vars v) \<in> objs p \<and> TOID_VALID D (api_type_num A p) (vars v)) \<and>
     (\<forall>v w. v \<noteq> w \<longrightarrow> \<not> TOID_IS_NULL (vars v) \<longrightarrow> oid (vars v) \<noteq> oid (vars w)))"

lemma handles_okI:
  assumes "\<And>v. \<not> TOID_IS_NULL (vars v) \<Longrightarrow> oid (vars v) \<in> objs p" and "\<And>v. \<not> TOID_IS_NULL (vars v) \<Longrightarrow> TOID_VALID D (api_type_num A p) (vars v)"
    and "\<And>v w. v \<noteq> w \<Longrightarrow> \<not> TOID_IS_NULL (vars v) \<Longrightarrow> oid (vars v) \<noteq> oid (vars w)"
  shows "handles_ok A objs D (p, vars)"
  using assms by (simp add: handles_ok_def)

context typed_pool
begin

text \<open>The two ways in which an operation on one variable changes the pool.\<close>

lemma ok_gained:
  assumes ok: "handles_ok A objs D (p, vars)" and n: "TOID_TYPE_NUM D (toid_type (vars v)) = Some n"
    and g: "gained A objs n others p new p'" and o: "\<And>w. w \<noteq> v \<Longrightarrow> \<not> TOID_IS_NULL (vars w) \<Longrightarrow> oid (vars w) \<in> others"
  shows "handles_ok A objs D (p', vars(v := TOID_ASSIGN (vars v) new))"
proof (rule handles_okI)
  fix w assume w: "\<not> TOID_IS_NULL ((vars(v := TOID_ASSIGN (vars v) new)) w)"
  show "oid ((vars(v := TOID_ASSIGN (vars v) new)) w) \<in> objs p'" using w g o [of w] by (auto simp: gained_def TOID_ASSIGN_def)
  show "TOID_VALID D (api_type_num A p') ((vars(v := TOID_ASSIGN (vars v) new)) w)"
  proof (cases "w = v")
    case True
    with g n show ?thesis by (simp add: TOID_VALID_def TOID_TYPE_NUM_OF_def TOID_ASSIGN_def gained_def)
  next
    case False
    with w have nn: "\<not> TOID_IS_NULL (vars w)" by simp
    then have "TOID_VALID D (api_type_num A p) (vars w)" using ok by (simp add: handles_ok_def)
    with False o [OF False nn] g show ?thesis by (simp add: TOID_VALID_def gained_def)
  qed
next
  fix w u assume ne: "w \<noteq> u" and w: "\<not> TOID_IS_NULL ((vars(v := TOID_ASSIGN (vars v) new)) w)"
  have new: "oid (vars u') \<noteq> new" if "u' \<noteq> v" for u'
  proof (cases "TOID_IS_NULL (vars u')")
    case True
    with g show ?thesis by (auto simp: gained_def TOID_IS_NULL_def)
  next
    case False
    from o [OF that this] g show ?thesis by (auto simp: gained_def)
  qed
  have "oid (vars w) \<noteq> oid (vars u)" if "w \<noteq> v" "u \<noteq> v" using ok ne w that by (simp add: handles_ok_def)
  with ne new [of u] new [of w] show "oid ((vars(v := TOID_ASSIGN (vars v) new)) w) \<noteq> oid ((vars(v := TOID_ASSIGN (vars v) new)) u)"
    by (auto simp: TOID_ASSIGN_def)
qed

lemma ok_remaining:
  assumes ok: "handles_ok A objs D (p, vars)" and r: "remaining A objs others p p'"
    and o: "\<And>w. w \<noteq> v \<Longrightarrow> \<not> TOID_IS_NULL (vars w) \<Longrightarrow> oid (vars w) \<in> others"
    and x: "x = vars v \<and> others = objs p \<or> TOID_IS_NULL x"
  shows "handles_ok A objs D (p', vars(v := x))"
proof -
  have own: "oid x \<in> others \<and> x = vars v" if "\<not> TOID_IS_NULL x" using x that ok by (auto simp: handles_ok_def)
  have old: "TOID_VALID D (api_type_num A p) (vars w)" if "\<not> TOID_IS_NULL (vars w)" for w using ok that by (simp add: handles_ok_def)
  have dist: "oid (vars w) \<noteq> oid (vars u)" if "w \<noteq> u" "\<not> TOID_IS_NULL (vars w)" for w u using ok that by (simp add: handles_ok_def)
  show ?thesis
  proof (rule handles_okI)
    fix w assume w: "\<not> TOID_IS_NULL ((vars(v := x)) w)"
    then have m: "oid ((vars(v := x)) w) \<in> others" using own o [of w] by (cases "w = v") auto
    with r show "oid ((vars(v := x)) w) \<in> objs p'" by (simp add: remaining_def)
    have "(vars(v := x)) w = vars w" using w own by (cases "w = v") auto
    with m r old [of w] w show "TOID_VALID D (api_type_num A p') ((vars(v := x)) w)" by (simp add: TOID_VALID_def remaining_def)
  next
    fix w u assume ne: "w \<noteq> u" and w: "\<not> TOID_IS_NULL ((vars(v := x)) w)"
    have ww: "(vars(v := x)) w = vars w" "\<not> TOID_IS_NULL (vars w)" using w own by (cases "w = v", auto)+
    show "oid ((vars(v := x)) w) \<noteq> oid ((vars(v := x)) u)"
    proof (cases "TOID_IS_NULL ((vars(v := x)) u)")
      case True
      with ww show ?thesis by (auto simp: TOID_IS_NULL_def)
    next
      case False
      then have "(vars(v := x)) u = vars u" using own by (cases "u = v") auto
      with ww dist [OF ne ww(2)] show ?thesis by simp
    qed
  qed
qed

lemma ok_realloc:
  assumes ok: "handles_ok A objs D (p, vars)" and n: "TOID_TYPE_NUM D (toid_type (vars v)) = Some n"
    and f: "f = api_realloc A \<or> f = api_zrealloc A" and run: "f sz n (oid (vars v)) p = (rc, new, p')"
  shows "handles_ok A objs D (p', vars(v := TOID_ASSIGN (vars v) new))"
proof -
  have all: "oid (vars w) \<in> objs p" if "\<not> TOID_IS_NULL (vars w)" for w using ok that by (simp add: handles_ok_def)
  have other: "oid (vars w) \<in> objs p - {oid (vars v)}" if "w \<noteq> v" "\<not> TOID_IS_NULL (vars w)" for w
    using ok that by (auto simp: handles_ok_def)
  consider "rc \<noteq> 0" | "rc = 0" "TOID_IS_NULL (vars v)" | "rc = 0" "\<not> TOID_IS_NULL (vars v)" "sz = 0" | "rc = 0" "\<not> TOID_IS_NULL (vars v)" "sz \<noteq> 0" by blast
  then show ?thesis
  proof cases
    case 1
    from realloc_fail [OF f run 1] show ?thesis using all by (intro ok_remaining [OF ok, of "objs p"]) (auto simp: TOID_ASSIGN_def)
  next
    case 2
    have "gained A objs n (objs p) p new p'" using realloc_null [OF f] run 2 by (simp add: TOID_IS_NULL_def OID_IS_NULL_def)
    then show ?thesis using all by (intro ok_gained [OF ok n])
  next
    case 3
    have "new = OID_NULL \<and> remaining A objs (objs p - {oid (vars v)}) p p'" using realloc_free [OF f] run 3 all by simp
    then show ?thesis using other by (intro ok_remaining [OF ok]) (auto simp: TOID_ASSIGN_def TOID_IS_NULL_def OID_NULL_def)
  next
    case 4
    have "gained A objs n (objs p - {oid (vars v)}) p new p'" using realloc_move [OF f] run 4 all by simp
    then show ?thesis using other by (intro ok_gained [OF ok n])
  qed
qed

lemma ok_allocated:
  assumes ok: "handles_ok A objs D (p, vars)" and n: "TOID_TYPE_NUM D (toid_type (vars v)) = Some n"
    and law: "if rc = 0 then gained A objs n (objs p) p new p' else new = oid (vars v) \<and> remaining A objs (objs p) p p'"
  shows "handles_ok A objs D (p', vars(v := TOID_ASSIGN (vars v) new))"
proof -
  have all: "oid (vars w) \<in> objs p" if "\<not> TOID_IS_NULL (vars w)" for w using ok that by (simp add: handles_ok_def)
  show ?thesis
  proof (cases "rc = 0")
    case True
    with law all show ?thesis by (intro ok_gained [OF ok n]) simp_all
  next
    case False
    with law all show ?thesis by (intro ok_remaining [OF ok, of "objs p"]) (simp_all add: TOID_ASSIGN_def)
  qed
qed

lemma through_Some:
  assumes "map_option snd (map_option (\<lambda>n. through x (f n) p) tn) = Some (y, p')"
  obtains n rc new where "tn = Some n" and "f n (oid x) p = (rc, new, p')" and "y = TOID_ASSIGN x new"
  using assms that by (cases tn) (auto simp: through_def split: prod.splits)

lemmas typed_macro_defs = POBJ_NEW_def POBJ_ALLOC_def POBJ_ZNEW_def POBJ_ZALLOC_def POBJ_REALLOC_def POBJ_ZREALLOC_def

lemma ok_op:
  assumes ok: "handles_ok A objs D (p, vars)" and run: "run_typed A D sizeof op (vars v) p = Some (x, p')"
  shows "handles_ok A objs D (p', vars(v := x))"
proof (cases op)
  case (Op_new c)
  from run obtain n rc new where "TOID_TYPE_NUM D (toid_type (vars v)) = Some n" "api_alloc A (sizeof (toid_type (vars v))) n c (oid (vars v)) p = (rc, new, p')"
    "x = TOID_ASSIGN (vars v) new" unfolding Op_new run_typed.simps typed_macro_defs by (rule through_Some)
  with ok_allocated [OF ok _ alloc] show ?thesis by simp
next
  case (Op_alloc sz c)
  from run obtain n rc new where "TOID_TYPE_NUM D (toid_type (vars v)) = Some n" "api_alloc A sz n c (oid (vars v)) p = (rc, new, p')"
    "x = TOID_ASSIGN (vars v) new" unfolding Op_alloc run_typed.simps typed_macro_defs by (rule through_Some)
  with ok_allocated [OF ok _ alloc] show ?thesis by simp
next
  case Op_znew
  from run obtain n rc new where "TOID_TYPE_NUM D (toid_type (vars v)) = Some n" "api_zalloc A (sizeof (toid_type (vars v))) n (oid (vars v)) p = (rc, new, p')"
    "x = TOID_ASSIGN (vars v) new" unfolding Op_znew run_typed.simps typed_macro_defs by (rule through_Some)
  with ok_allocated [OF ok _ zalloc] show ?thesis by simp
next
  case (Op_zalloc sz)
  from run obtain n rc new where "TOID_TYPE_NUM D (toid_type (vars v)) = Some n" "api_zalloc A sz n (oid (vars v)) p = (rc, new, p')"
    "x = TOID_ASSIGN (vars v) new" unfolding Op_zalloc run_typed.simps typed_macro_defs by (rule through_Some)
  with ok_allocated [OF ok _ zalloc] show ?thesis by simp
next
  case (Op_realloc sz)
  from run obtain n rc new where "TOID_TYPE_NUM D (toid_type (vars v)) = Some n" "api_realloc A sz n (oid (vars v)) p = (rc, new, p')"
    "x = TOID_ASSIGN (vars v) new" unfolding Op_realloc run_typed.simps typed_macro_defs by (rule through_Some)
  with ok_realloc [OF ok] show ?thesis by blast
next
  case (Op_zrealloc sz)
  from run obtain n rc new where "TOID_TYPE_NUM D (toid_type (vars v)) = Some n" "api_zrealloc A sz n (oid (vars v)) p = (rc, new, p')"
    "x = TOID_ASSIGN (vars v) new" unfolding Op_zrealloc run_typed.simps typed_macro_defs by (rule through_Some)
  with ok_realloc [OF ok] show ?thesis by blast
next
  case Op_free
  with run obtain new where new: "api_free A (oid (vars v)) p = (new, p')" "x = TOID_ASSIGN (vars v) new"
    by (auto simp: POBJ_FREE_def split: prod.splits)
  have all: "oid (vars w) \<in> objs p" if "\<not> TOID_IS_NULL (vars w)" for w using ok that by (simp add: handles_ok_def)
  show ?thesis
  proof (cases "TOID_IS_NULL (vars v)")
    case True
    with free_null [OF new(1)] new(2) have "x = vars v" "p' = p" by (simp_all add: TOID_IS_NULL_def OID_IS_NULL_def TOID_ASSIGN_def)
    with ok show ?thesis by simp
  next
    case False
    with free [OF new(1)] all have "new = OID_NULL \<and> remaining A objs (objs p - {oid (vars v)}) p p'" by simp
    moreover have "oid (vars w) \<in> objs p - {oid (vars v)}" if "w \<noteq> v" "\<not> TOID_IS_NULL (vars w)" for w
      using ok that by (auto simp: handles_ok_def)
    ultimately show ?thesis unfolding new(2)
      by (intro ok_remaining [OF ok]) (auto simp: TOID_ASSIGN_def TOID_IS_NULL_def OID_NULL_def)
  qed
qed

lemma ok_reach: "typed_reach A D sizeof s0 s \<Longrightarrow> handles_ok A objs D s0 \<Longrightarrow> handles_ok A objs D s"
proof (induction rule: typed_reach.induct)
  case (reach_op p vars op v x p')
  then show ?case by (intro ok_op) simp_all
qed

end

section \<open>An allocator that meets the contract\<close>

text \<open>The directory of \<open>Obj_Iter\<close>: a call takes a free offset, if there is one, and fails when the constructor does.\<close>

definition fresh_oid :: "directory \<Rightarrow> PMEMoid option" where
  "fresh_oid d = find (\<lambda>x. off x \<noteq> 0 \<and> x \<notin> set (map fst d)) (map (\<lambda>k. PMEMoid 7 (64 * of_nat k)) [1..<length d + 2])"

definition dir_alloc :: "u64 \<Rightarrow> directory constructor \<Rightarrow> PMEMoid \<Rightarrow> directory \<Rightarrow> int \<times> PMEMoid \<times> directory" where
  "dir_alloc n c old d =
     (case fresh_oid d of None \<Rightarrow> (- 1, old, d)
      | Some x \<Rightarrow> if fst (c x ((x, n) # d)) = 0 then (0, x, (x, n) # d) else (- 1, old, d))"

definition dir_realloc :: "u64 \<Rightarrow> u64 \<Rightarrow> PMEMoid \<Rightarrow> directory \<Rightarrow> int \<times> PMEMoid \<times> directory" where
  "dir_realloc sz n old d =
     (if off old = 0 then dir_alloc n (\<lambda>x p. (0, p)) old d
      else if sz = 0 then (0, OID_NULL, filter (\<lambda>y. fst y \<noteq> old) d) else (0, old, (old, n) # filter (\<lambda>y. fst y \<noteq> old) d))"

definition dir_atomic :: "directory atomic_api" where
  "dir_atomic = \<lparr>api_alloc = (\<lambda>sz. dir_alloc), api_zalloc = (\<lambda>sz n. dir_alloc n (\<lambda>x p. (0, p))),
     api_realloc = dir_realloc, api_zrealloc = dir_realloc,
     api_free = (\<lambda>old d. if off old = 0 then (old, d) else (OID_NULL, filter (\<lambda>y. fst y \<noteq> old) d)),
     api_reserve = (\<lambda>sz n d. case fresh_oid d of None \<Rightarrow> (OID_NULL, d) | Some x \<Rightarrow> (x, d)),
     api_type_num = dir_type\<rparr>"

lemma dir_atomic_simps [simp]:
  "api_alloc dir_atomic sz = dir_alloc" "api_zalloc dir_atomic sz n = dir_alloc n (\<lambda>x p. (0, p))"
  "api_realloc dir_atomic = dir_realloc" "api_zrealloc dir_atomic = dir_realloc" "api_type_num dir_atomic = dir_type"
  "api_free dir_atomic old d = (if off old = 0 then (old, d) else (OID_NULL, filter (\<lambda>y. fst y \<noteq> old) d))"
  by (simp_all add: dir_atomic_def)

definition dir_set :: "directory \<Rightarrow> PMEMoid set" where
  "dir_set d = {x \<in> set (map fst d). off x \<noteq> 0}"

lemma fresh_oid_Some: "fresh_oid d = Some x \<Longrightarrow> off x \<noteq> 0 \<and> x \<notin> set (map fst d)"
  by (auto simp: fresh_oid_def find_Some_iff)

lemma dir_alloc_law:
  assumes "dir_alloc n c old d = (rc, new, d')"
  shows "if rc = 0 then gained dir_atomic dir_set n (dir_set d) d new d' else new = old \<and> remaining dir_atomic dir_set (dir_set d) d d'"
proof (cases "rc = 0")
  case True
  with assms obtain x where x: "fresh_oid d = Some x" "new = x" "d' = (x, n) # d"
    by (auto simp: dir_alloc_def split: option.splits if_splits)
  with fresh_oid_Some [OF x(1)] True show ?thesis by (auto simp: gained_def dir_set_def dir_type_def)
next
  case False
  with assms have "new = old" "d' = d" by (auto simp: dir_alloc_def split: option.splits if_splits)
  with False show ?thesis by (simp add: remaining_def)
qed

lemma dir_type_remove: "y \<noteq> x \<Longrightarrow> dir_type (filter (\<lambda>z. fst z \<noteq> x) d) y = dir_type d y"
  using map_of_filter_other [of x y d] by (auto simp: dir_type_def)

lemma dir_remove: "remaining dir_atomic dir_set (dir_set d - {x}) d (filter (\<lambda>y. fst y \<noteq> x) d)"
  by (auto simp: remaining_def dir_set_def intro!: dir_type_remove)

interpretation dir_pool: typed_pool dir_atomic dir_set
proof (unfold_locales, goal_cases)
  case (1 sz n c old p rc new p')
  then show ?case using dir_alloc_law [of n c old p rc new p'] by simp
next
  case (2 sz n old p rc new p')
  then have "dir_alloc n (\<lambda>x p. (0, p)) old p = (rc, new, p')" by simp
  from dir_alloc_law [OF this] show ?case .
next
  case (3 f sz n old p rc new p')
  then have "dir_realloc sz n old p = (rc, new, p')" by auto
  with 3(3) dir_alloc_law [of n "\<lambda>x p. (0, p)" old p rc new p'] show ?case by (auto simp: dir_realloc_def split: if_splits)
next
  case (4 f sz n old p new p')
  then have "dir_realloc sz n old p = (0, new, p')" by auto
  with 4(3) dir_alloc_law [of n "\<lambda>x p. (0, p)" old p 0 new p'] show ?case by (auto simp: dir_realloc_def OID_IS_NULL_def split: if_splits)
next
  case (5 f n old p new p')
  then have "dir_realloc 0 n old p = (0, new, p')" by auto
  moreover have "off old \<noteq> 0" using 5(3) by (simp add: dir_set_def)
  ultimately show ?case using dir_remove [of p old] by (auto simp: dir_realloc_def)
next
  case (6 f sz n old p new p')
  then have run: "dir_realloc sz n old p = (0, new, p')" by auto
  have "off old \<noteq> 0" using 6(3) by (simp add: dir_set_def)
  with run 6(4) have e: "new = old" "p' = (old, n) # filter (\<lambda>y. fst y \<noteq> old) p" by (auto simp: dir_realloc_def)
  have "\<forall>x\<in>dir_set p - {old}. dir_type ((old, n) # filter (\<lambda>y. fst y \<noteq> old) p) x = dir_type p x"
    using dir_type_remove [of _ old p] by (auto simp: dir_type_def)
  with \<open>off old \<noteq> 0\<close> show ?case unfolding e gained_def by (auto simp: dir_set_def) (simp add: dir_type_def)
next
  case (7 old p new p')
  have "off old \<noteq> 0" using 7(2) by (simp add: dir_set_def)
  with 7(1) dir_remove [of p old] show ?case by auto
qed (auto simp: OID_IS_NULL_def dir_set_def)

section \<open>Properties\<close>

text \<open>C25: The numbers a layout assigns do not depend on where it stands: whatever uses of \<open>__COUNTER__\<close> come before it, the root type gets 0, a
  type gets one more than the uses of the counter inside the layout before it, no two types (other than the root) get the same number, and
  \<open>POBJ_LAYOUT_TYPES_NUM\<close> counts those uses (the types, when nothing else in the layout uses the counter).\<close>

theorem layout_type_numbers:
  assumes "layout_ref D name = None" and "layout_cnt D name = None" and "distinct (concat (map item_type its))"
    and "\<forall>t\<in>set (concat (map item_type its)). toid_type_num D t = None" and "length its < 2 ^ 31"
  shows "\<exists>E. layout name its D = Some E \<and>
    (\<forall>t. Layout_ROOT t \<in> set its \<longrightarrow> TOID_TYPE_NUM E t = Some 0) \<and>
    (\<forall>i t. i < length its \<longrightarrow> its ! i = Layout_TOID t \<longrightarrow> TOID_TYPE_NUM E t = Some (of_nat (Suc (length (filter counts (take i its)))))) \<and>
    inj_on (TOID_TYPE_NUM E) {t. Layout_TOID t \<in> set its} \<and>
    POBJ_LAYOUT_TYPES_NUM E name = Some (of_nat (length (filter counts its)))"
proof -
  let ?D = "(use_counter D)\<lparr>layout_ref := (layout_ref D)(name \<mapsto> of_nat (Suc (counter D)))\<rparr>"
  have beg: "POBJ_LAYOUT_BEGIN name D = Some ?D" using assms(1) by (simp add: POBJ_LAYOUT_BEGIN_def add.commute)
  have k: "counter ?D - Suc (counter D) = 0" by (simp add: use_counter_def)
  have "\<exists>E. layout_items name its ?D = Some E \<and> layout_ref E = layout_ref ?D \<and> layout_cnt E = layout_cnt ?D \<and>
    counter E = counter ?D + length (filter counts its) \<and>
    (\<forall>(t, n)\<in>set (numbers (counter ?D - Suc (counter D)) its). toid_type_num E t = Some (of_nat n + 1)) \<and>
    (\<forall>t. t \<notin> set (concat (map item_type its)) \<longrightarrow> toid_type_num E t = toid_type_num ?D t)"
    by (rule layout_items_numbers) (use assms(3,4) in \<open>auto simp: use_counter_def\<close>)
  then obtain E where E: "layout_items name its ?D = Some E" "layout_ref E name = Some (of_nat (Suc (counter D)))" "layout_cnt E = layout_cnt D"
    "counter E = Suc (counter D) + length (filter counts its)"
    and "\<forall>(t, n)\<in>set (numbers 0 its). toid_type_num E t = Some (of_nat n + 1)"
    unfolding k by (auto simp: use_counter_def)
  then have nums: "\<And>t n. (t, n) \<in> set (numbers 0 its) \<Longrightarrow> toid_type_num E t = Some (of_nat n + 1)" by blast
  let ?c = "(of_nat (Suc (counter D) + length (filter counts its)) :: u64) + 1 - of_nat (Suc (counter D))"
  let ?E = "(use_counter E)\<lparr>layout_cnt := (layout_cnt E)(name \<mapsto> ?c)\<rparr>"
  have fin: "POBJ_LAYOUT_END name E = Some ?E" using E assms(2) by (simp add: POBJ_LAYOUT_END_def)
  have run: "layout name its D = Some ?E" by (simp only: layout_def beg E(1) fin Option.bind.simps)
  have ty: "TOID_TYPE_NUM ?E t = Some (of_nat n)" if "(t, n) \<in> set (numbers 0 its)" for t n
    using nums [OF that] by (simp add: TOID_TYPE_NUM_def use_counter_def)
  have nth: "TOID_TYPE_NUM ?E t = Some (of_nat (Suc (length (filter counts (take i its)))))" if "i < length its" "its ! i = Layout_TOID t" for i t
    using ty [OF numbers_nth [OF that, of 0, simplified]] by simp
  have "inj_on (TOID_TYPE_NUM ?E) {t. Layout_TOID t \<in> set its}"
  proof (rule inj_onI)
    fix t u assume "t \<in> {t. Layout_TOID t \<in> set its}" "u \<in> {t. Layout_TOID t \<in> set its}" and eq: "TOID_TYPE_NUM ?E t = TOID_TYPE_NUM ?E u"
    then obtain i j where i: "i < length its" "its ! i = Layout_TOID t" and j: "j < length its" "its ! j = Layout_TOID u"
      by (auto simp: in_set_conv_nth)
    let ?m = "length (filter counts (take i its))" and ?n = "length (filter counts (take j its))"
    have "?m \<le> length its" "?n \<le> length its" using length_filter_le [of counts "take i its"] length_filter_le [of counts "take j its"] by simp_all
    then have "unat (of_nat (Suc ?m) :: u64) = Suc ?m" "unat (of_nat (Suc ?n) :: u64) = Suc ?n"
      using assms(5) by (intro unat_of_nat_u64; simp)+
    then have "?m = ?n" using eq nth [OF i] nth [OF j] by (metis nat.inject option.inject)
    then have "i = j" using counts_before_inj [of i its j] i j by simp
    with i j show "t = u" by simp
  qed
  moreover have "?c = of_nat (length (filter counts its)) + 1" by simp
  then have "POBJ_LAYOUT_TYPES_NUM ?E name = Some (of_nat (length (filter counts its)))" by (simp add: POBJ_LAYOUT_TYPES_NUM_def)
  moreover have "TOID_TYPE_NUM ?E t = Some 0" if "Layout_ROOT t \<in> set its" for t using ty [OF numbers_root [OF that]] by simp
  ultimately show ?thesis using run nth by blast
qed

definition empty_unit :: "nat \<Rightarrow> unit_decls" where
  "empty_unit c = \<lparr>counter = c, toid_type_num = Map.empty, layout_ref = Map.empty, layout_cnt = Map.empty\<rparr>"

theorem layout_type_numbers_witness:
  "\<exists>E. layout ''range_mem'' [Layout_ROOT ''my_root'', Layout_TOID ''foo_el'', Layout_TOID ''bar_el''] (empty_unit 40) = Some E \<and>
    TOID_TYPE_NUM E ''my_root'' = Some 0 \<and> TOID_TYPE_NUM E ''foo_el'' = Some 1 \<and> TOID_TYPE_NUM E ''bar_el'' = Some 2 \<and>
    POBJ_LAYOUT_TYPES_NUM E ''range_mem'' = Some 2"
proof -
  let ?its = "[Layout_ROOT ''my_root'', Layout_TOID ''foo_el'', Layout_TOID ''bar_el'']"
  from layout_type_numbers [of "empty_unit 40" "''range_mem''" ?its] obtain E where
    E: "layout ''range_mem'' ?its (empty_unit 40) = Some E" "\<forall>t. Layout_ROOT t \<in> set ?its \<longrightarrow> TOID_TYPE_NUM E t = Some 0"
      "POBJ_LAYOUT_TYPES_NUM E ''range_mem'' = Some (of_nat (length (filter counts ?its)))"
    and nth: "\<forall>i t. i < length ?its \<longrightarrow> ?its ! i = Layout_TOID t \<longrightarrow> TOID_TYPE_NUM E t = Some (of_nat (Suc (length (filter counts (take i ?its)))))"
    by (auto simp: empty_unit_def)
  from nth [rule_format, of 1 "''foo_el''"] nth [rule_format, of 2 "''bar_el''"] E show ?thesis by (simp add: numeral_2_eq_2)
qed

text \<open>C24: Programs whose variables are used with their own types keep every handle valid: from null handles on, whatever sequence of
  allocations, reallocations and deallocations runs, successful or not, each variable is null or has a live object whose type number is the one of the variable's type, and no two
  variables have the same object.\<close>

theorem typed_programs_keep_handles_valid:
  assumes "typed_pool A objs" and "typed_reach A D sizeof s0 (p, vars)" and "\<forall>v. TOID_IS_NULL (snd s0 v)"
  shows "(\<forall>v. \<not> TOID_IS_NULL (vars v) \<longrightarrow> oid (vars v) \<in> objs p \<and> TOID_VALID D (api_type_num A p) (vars v)) \<and>
    (\<forall>v w. v \<noteq> w \<longrightarrow> \<not> TOID_IS_NULL (vars v) \<longrightarrow> oid (vars v) \<noteq> oid (vars w))"
proof -
  have "handles_ok A objs D s0" using assms(3) by (cases s0) (simp add: handles_ok_def)
  from typed_pool.ok_reach [OF assms(1,2) this] show ?thesis by (simp add: handles_ok_def)
qed

definition demo_decls :: unit_decls where
  "demo_decls = (empty_unit 0)\<lparr>toid_type_num := [''foo_el'' \<mapsto> 2, ''bar_el'' \<mapsto> 3]\<rparr>"

theorem typed_programs_keep_handles_valid_witness:
  "\<exists>p vars. typed_reach dir_atomic demo_decls (\<lambda>t. 8) ([], \<lambda>v :: bool. TOID_NULL (if v then ''foo_el'' else ''bar_el'')) (p, vars) \<and>
    \<not> TOID_IS_NULL (vars True) \<and> TOID_VALID demo_decls (dir_type p) (vars True) \<and> oid (vars True) \<noteq> oid (vars False)"
proof -
  let ?vars = "\<lambda>v :: bool. TOID_NULL (if v then ''foo_el'' else ''bar_el'')"
  let ?x = "TOID ''foo_el'' (PMEMoid 7 64)"
  have run: "run_typed dir_atomic demo_decls (\<lambda>t. 8) Op_znew (?vars True) [] = Some (?x, [(PMEMoid 7 64, 1)])"
    by (simp add: POBJ_ZNEW_def through_def TOID_NULL_def TOID_ASSIGN_def TOID_TYPE_NUM_def demo_decls_def dir_alloc_def fresh_oid_def)
  have r: "typed_reach dir_atomic demo_decls (\<lambda>t. 8) ([], ?vars) ([(PMEMoid 7 64, 1)], ?vars(True := ?x))"
    by (rule reach_op [where vars = ?vars and v = True and op = Op_znew, OF reach_start run])
  have n: "\<not> TOID_IS_NULL ((?vars(True := ?x)) True)" by (simp add: TOID_IS_NULL_def)
  have "\<forall>v. TOID_IS_NULL (snd ([] :: directory, ?vars) v)" by (simp add: TOID_IS_NULL_def TOID_NULL_def OID_NULL_def)
  note ok = typed_programs_keep_handles_valid [OF dir_pool.typed_pool_axioms r this]
  from ok [THEN conjunct1, rule_format, OF n] ok [THEN conjunct2, rule_format, of True False, OF _ n] r n show ?thesis
    by (intro exI [of _ "[(PMEMoid 7 64, 1)]"] exI [of _ "?vars(True := ?x)"]) simp
qed

text \<open>The macros do not check the type of the handle they write: a successful \<open>POBJ_NEW\<close> of a \<open>t\<close> makes an object of type \<open>t\<close> and stores it in
  any handle; the handle is valid exactly if its type has the number of \<open>t\<close>.\<close>

theorem allocation_valid_iff_types_agree:
  assumes "typed_pool A objs" and "POBJ_NEW A D sizeof x t constr p = Some (0, y, p')"
  shows "OID_INSTANCEOF D (api_type_num A p') (oid y) t \<and> toid_type y = toid_type x \<and>
    (TOID_VALID D (api_type_num A p') y \<longleftrightarrow> TOID_TYPE_NUM_OF D x = TOID_TYPE_NUM D t)"
proof -
  from assms(2) obtain n new where n: "TOID_TYPE_NUM D t = Some n" "api_alloc A (sizeof t) n constr (oid x) p = (0, new, p')" "y = TOID_ASSIGN x new"
    unfolding POBJ_NEW_def through_def by (cases "api_alloc A (sizeof t) (the (TOID_TYPE_NUM D t)) constr (oid x) p") auto
  with typed_pool.alloc [OF assms(1) n(2)] show ?thesis
    by (auto simp: gained_def OID_INSTANCEOF_def TOID_VALID_def TOID_TYPE_NUM_OF_def TOID_ASSIGN_def)
qed

theorem allocation_valid_iff_types_agree_witness:
  "\<not> TOID_VALID demo_decls (dir_type [(PMEMoid 7 64, 1)]) (TOID ''bar_el'' (PMEMoid 7 64))"
proof -
  have "POBJ_NEW dir_atomic demo_decls (\<lambda>t. 8) (TOID_NULL ''bar_el'') ''foo_el'' (\<lambda>x p. (0, p)) [] =
      Some (0, TOID ''bar_el'' (PMEMoid 7 64), [(PMEMoid 7 64, 1)])"
    by (simp add: POBJ_NEW_def through_def TOID_NULL_def TOID_ASSIGN_def TOID_TYPE_NUM_def demo_decls_def dir_alloc_def fresh_oid_def)
  from allocation_valid_iff_types_agree [OF dir_pool.typed_pool_axioms this] show ?thesis
    by (simp add: TOID_TYPE_NUM_OF_def TOID_TYPE_NUM_def TOID_NULL_def demo_decls_def)
qed

end
