(* ===== verification/Atomic_List.thy ===== *)
theory Atomic_List
  imports Typed_Oid
begin

text \<open>
  The lists of the C interface, \<open>src/pmdk-include/libpmemobj/lists_atomic.h\<close>: circular doubly linked lists whose links lie in a field of
  the elements and whose head holds the first element, null for an empty list. The macros that walk a list read the links
  themselves; those that change one call four functions of the library (\<open>lists_atomic_base.h\<close>), which are the argument \<open>list_api\<close>
  with the contract \<open>atomic_lists\<close>. A simple splice of pointers meets it.
\<close>

section \<open>Memory\<close>

text \<open>
  Heads are numbered; an entry is the pair of \<open>pe_next\<close> and \<open>pe_prev\<close> at an offset of an object. \<open>None\<close>: no such object.
\<close>

record list_mem =
  pe_first :: "nat \<Rightarrow> PMEMoid"
  pe_entry :: "PMEMoid \<Rightarrow> u64 \<rightharpoonup> PMEMoid \<times> PMEMoid"

definition POBJ_LIST_FIRST :: "list_mem \<Rightarrow> nat \<Rightarrow> PMEMoid" where
  "POBJ_LIST_FIRST m head = pe_first m head"

text \<open>\<open>D_RO(elm)->field\<close> of a null handle dereferences null.\<close>

definition POBJ_LIST_NEXT :: "list_mem \<Rightarrow> PMEMoid \<Rightarrow> u64 \<Rightarrow> PMEMoid outcome" where
  "POBJ_LIST_NEXT m elm fld = the_or_die Null_deref (map_option fst (pe_entry m elm fld))"

definition POBJ_LIST_PREV :: "list_mem \<Rightarrow> PMEMoid \<Rightarrow> u64 \<Rightarrow> PMEMoid outcome" where
  "POBJ_LIST_PREV m elm fld = the_or_die Null_deref (map_option snd (pe_entry m elm fld))"

definition POBJ_LIST_LAST :: "list_mem \<Rightarrow> nat \<Rightarrow> u64 \<Rightarrow> PMEMoid outcome" where
  "POBJ_LIST_LAST m head fld =
     (if OID_IS_NULL (pe_first m head) then Val (pe_first m head)
      else the_or_die Null_deref (map_option snd (pe_entry m (pe_first m head) fld)))"

definition POBJ_LIST_EMPTY :: "list_mem \<Rightarrow> nat \<Rightarrow> bool" where
  "POBJ_LIST_EMPTY m head \<longleftrightarrow> OID_IS_NULL (pe_first m head)"

definition POBJ_LIST_DEST_HEAD :: int where "POBJ_LIST_DEST_HEAD = 1"
definition POBJ_LIST_DEST_TAIL :: int where "POBJ_LIST_DEST_TAIL = 0"
definition POBJ_LIST_DEST_BEFORE :: int where "POBJ_LIST_DEST_BEFORE = 1"
definition POBJ_LIST_DEST_AFTER :: int where "POBJ_LIST_DEST_AFTER = 0"

section \<open>Loops\<close>

text \<open>The body of a loop may change the memory and other data \<open>'v\<close>; \<open>None\<close> is a loop that never ends.\<close>

type_synonym 'v list_body = "PMEMoid \<Rightarrow> (list_mem \<times> 'v, unit) cpp"

partial_function (option) list_foreach_loop ::
  "nat \<Rightarrow> u64 \<Rightarrow> 'v list_body \<Rightarrow> PMEMoid \<Rightarrow> list_mem \<times> 'v \<Rightarrow> (unit outcome \<times> list_mem \<times> 'v) option" where
  "list_foreach_loop head fld body var s =
     (if OID_IS_NULL var then Some (Val (), s)
      else case body var s of
          (Val _, s') \<Rightarrow>
            (case POBJ_LIST_NEXT (fst s') var fld of
               Val nx \<Rightarrow> list_foreach_loop head fld body (if OID_EQUALS nx (POBJ_LIST_FIRST (fst s') head) then OID_NULL else nx) s'
             | Throw e \<Rightarrow> Some (Throw e, s')
             | Die f \<Rightarrow> Some (Die f, s'))
        | (Throw e, s') \<Rightarrow> Some (Throw e, s')
        | (Die f, s') \<Rightarrow> Some (Die f, s'))"

definition POBJ_LIST_FOREACH :: "nat \<Rightarrow> u64 \<Rightarrow> 'v list_body \<Rightarrow> list_mem \<times> 'v \<Rightarrow> (unit outcome \<times> list_mem \<times> 'v) option" where
  "POBJ_LIST_FOREACH head fld body s = list_foreach_loop head fld body (POBJ_LIST_FIRST (fst s) head) s"

partial_function (option) list_reverse_loop ::
  "nat \<Rightarrow> u64 \<Rightarrow> 'v list_body \<Rightarrow> PMEMoid \<Rightarrow> list_mem \<times> 'v \<Rightarrow> (unit outcome \<times> list_mem \<times> 'v) option" where
  "list_reverse_loop head fld body var s =
     (if OID_IS_NULL var then Some (Val (), s)
      else case body var s of
          (Val _, s') \<Rightarrow>
            (case bindO (POBJ_LIST_PREV (fst s') var fld) (\<lambda>pv.
                  bindO (POBJ_LIST_LAST (fst s') head fld) (\<lambda>la. Val (if OID_EQUALS pv la then OID_NULL else pv))) of
               Val nx \<Rightarrow> list_reverse_loop head fld body nx s'
             | Throw e \<Rightarrow> Some (Throw e, s')
             | Die f \<Rightarrow> Some (Die f, s'))
        | (Throw e, s') \<Rightarrow> Some (Throw e, s')
        | (Die f, s') \<Rightarrow> Some (Die f, s'))"

definition POBJ_LIST_FOREACH_REVERSE :: "nat \<Rightarrow> u64 \<Rightarrow> 'v list_body \<Rightarrow> list_mem \<times> 'v \<Rightarrow> (unit outcome \<times> list_mem \<times> 'v) option" where
  "POBJ_LIST_FOREACH_REVERSE head fld body s =
     (case POBJ_LIST_LAST (fst s) head fld of
        Val la \<Rightarrow> list_reverse_loop head fld body la s
      | Throw e \<Rightarrow> Some (Throw e, s)
      | Die f \<Rightarrow> Some (Die f, s))"

section \<open>Changes\<close>

text \<open>
  The library. The arguments are the offset of the links, the head, the element next to which to insert (or null) and whether before it; the
  result of \<open>api_insert_new\<close> is the new element or null.
\<close>

record list_api =
  api_insert :: "u64 \<Rightarrow> nat \<Rightarrow> PMEMoid \<Rightarrow> int \<Rightarrow> PMEMoid \<Rightarrow> list_mem \<Rightarrow> int \<times> list_mem"
  api_insert_new :: "u64 \<Rightarrow> nat \<Rightarrow> PMEMoid \<Rightarrow> int \<Rightarrow> u64 \<Rightarrow> u64 \<Rightarrow> list_mem constructor \<Rightarrow> list_mem \<Rightarrow> PMEMoid \<times> list_mem"
  api_remove :: "u64 \<Rightarrow> nat \<Rightarrow> PMEMoid \<Rightarrow> int \<Rightarrow> list_mem \<Rightarrow> int \<times> list_mem"
  api_move :: "u64 \<Rightarrow> nat \<Rightarrow> u64 \<Rightarrow> nat \<Rightarrow> PMEMoid \<Rightarrow> int \<Rightarrow> PMEMoid \<Rightarrow> list_mem \<Rightarrow> int \<times> list_mem"

definition POBJ_LIST_INSERT_HEAD :: "list_api \<Rightarrow> nat \<Rightarrow> PMEMoid \<Rightarrow> u64 \<Rightarrow> list_mem \<Rightarrow> int \<times> list_mem" where
  "POBJ_LIST_INSERT_HEAD A head elm fld = api_insert A fld head OID_NULL POBJ_LIST_DEST_HEAD elm"

definition POBJ_LIST_INSERT_TAIL :: "list_api \<Rightarrow> nat \<Rightarrow> PMEMoid \<Rightarrow> u64 \<Rightarrow> list_mem \<Rightarrow> int \<times> list_mem" where
  "POBJ_LIST_INSERT_TAIL A head elm fld = api_insert A fld head OID_NULL POBJ_LIST_DEST_TAIL elm"

definition POBJ_LIST_INSERT_AFTER :: "list_api \<Rightarrow> nat \<Rightarrow> PMEMoid \<Rightarrow> PMEMoid \<Rightarrow> u64 \<Rightarrow> list_mem \<Rightarrow> int \<times> list_mem" where
  "POBJ_LIST_INSERT_AFTER A head listelm elm fld = api_insert A fld head listelm 0 elm"

definition POBJ_LIST_INSERT_BEFORE :: "list_api \<Rightarrow> nat \<Rightarrow> PMEMoid \<Rightarrow> PMEMoid \<Rightarrow> u64 \<Rightarrow> list_mem \<Rightarrow> int \<times> list_mem" where
  "POBJ_LIST_INSERT_BEFORE A head listelm elm fld = api_insert A fld head listelm 1 elm"

text \<open>A new element has the type number of the type that the head is declared with, \<open>t\<close>.\<close>

definition POBJ_LIST_INSERT_NEW_HEAD ::
  "list_api \<Rightarrow> unit_decls \<Rightarrow> string \<Rightarrow> nat \<Rightarrow> u64 \<Rightarrow> u64 \<Rightarrow> list_mem constructor \<Rightarrow> list_mem \<Rightarrow> (PMEMoid \<times> list_mem) option" where
  "POBJ_LIST_INSERT_NEW_HEAD A D t head fld sz constr m =
     map_option (\<lambda>n. api_insert_new A fld head OID_NULL POBJ_LIST_DEST_HEAD sz n constr m) (TOID_TYPE_NUM D t)"

definition POBJ_LIST_INSERT_NEW_TAIL ::
  "list_api \<Rightarrow> unit_decls \<Rightarrow> string \<Rightarrow> nat \<Rightarrow> u64 \<Rightarrow> u64 \<Rightarrow> list_mem constructor \<Rightarrow> list_mem \<Rightarrow> (PMEMoid \<times> list_mem) option" where
  "POBJ_LIST_INSERT_NEW_TAIL A D t head fld sz constr m =
     map_option (\<lambda>n. api_insert_new A fld head OID_NULL POBJ_LIST_DEST_TAIL sz n constr m) (TOID_TYPE_NUM D t)"

definition POBJ_LIST_INSERT_NEW_AFTER ::
  "list_api \<Rightarrow> unit_decls \<Rightarrow> string \<Rightarrow> nat \<Rightarrow> PMEMoid \<Rightarrow> u64 \<Rightarrow> u64 \<Rightarrow> list_mem constructor \<Rightarrow> list_mem \<Rightarrow> (PMEMoid \<times> list_mem) option" where
  "POBJ_LIST_INSERT_NEW_AFTER A D t head listelm fld sz constr m =
     map_option (\<lambda>n. api_insert_new A fld head listelm 0 sz n constr m) (TOID_TYPE_NUM D t)"

definition POBJ_LIST_INSERT_NEW_BEFORE ::
  "list_api \<Rightarrow> unit_decls \<Rightarrow> string \<Rightarrow> nat \<Rightarrow> PMEMoid \<Rightarrow> u64 \<Rightarrow> u64 \<Rightarrow> list_mem constructor \<Rightarrow> list_mem \<Rightarrow> (PMEMoid \<times> list_mem) option" where
  "POBJ_LIST_INSERT_NEW_BEFORE A D t head listelm fld sz constr m =
     map_option (\<lambda>n. api_insert_new A fld head listelm 1 sz n constr m) (TOID_TYPE_NUM D t)"

definition POBJ_LIST_REMOVE :: "list_api \<Rightarrow> nat \<Rightarrow> PMEMoid \<Rightarrow> u64 \<Rightarrow> list_mem \<Rightarrow> int \<times> list_mem" where
  "POBJ_LIST_REMOVE A head elm fld = api_remove A fld head elm 0"

definition POBJ_LIST_REMOVE_FREE :: "list_api \<Rightarrow> nat \<Rightarrow> PMEMoid \<Rightarrow> u64 \<Rightarrow> list_mem \<Rightarrow> int \<times> list_mem" where
  "POBJ_LIST_REMOVE_FREE A head elm fld = api_remove A fld head elm 1"

definition POBJ_LIST_MOVE_ELEMENT_HEAD :: "list_api \<Rightarrow> nat \<Rightarrow> nat \<Rightarrow> PMEMoid \<Rightarrow> u64 \<Rightarrow> u64 \<Rightarrow> list_mem \<Rightarrow> int \<times> list_mem" where
  "POBJ_LIST_MOVE_ELEMENT_HEAD A head head_new elm fld fld_new =
     api_move A fld head fld_new head_new OID_NULL POBJ_LIST_DEST_HEAD elm"

definition POBJ_LIST_MOVE_ELEMENT_TAIL :: "list_api \<Rightarrow> nat \<Rightarrow> nat \<Rightarrow> PMEMoid \<Rightarrow> u64 \<Rightarrow> u64 \<Rightarrow> list_mem \<Rightarrow> int \<times> list_mem" where
  "POBJ_LIST_MOVE_ELEMENT_TAIL A head head_new elm fld fld_new =
     api_move A fld head fld_new head_new OID_NULL POBJ_LIST_DEST_TAIL elm"

definition POBJ_LIST_MOVE_ELEMENT_AFTER ::
  "list_api \<Rightarrow> nat \<Rightarrow> nat \<Rightarrow> PMEMoid \<Rightarrow> PMEMoid \<Rightarrow> u64 \<Rightarrow> u64 \<Rightarrow> list_mem \<Rightarrow> int \<times> list_mem" where
  "POBJ_LIST_MOVE_ELEMENT_AFTER A head head_new listelm elm fld fld_new = api_move A fld head fld_new head_new listelm 0 elm"

definition POBJ_LIST_MOVE_ELEMENT_BEFORE ::
  "list_api \<Rightarrow> nat \<Rightarrow> nat \<Rightarrow> PMEMoid \<Rightarrow> PMEMoid \<Rightarrow> u64 \<Rightarrow> u64 \<Rightarrow> list_mem \<Rightarrow> int \<times> list_mem" where
  "POBJ_LIST_MOVE_ELEMENT_BEFORE A head head_new listelm elm fld fld_new = api_move A fld head fld_new head_new listelm 1 elm"

section \<open>The list that the links form\<close>

text \<open>Successive elements, the last and the first included, point to each other.\<close>

definition linked :: "list_mem \<Rightarrow> u64 \<Rightarrow> PMEMoid \<Rightarrow> PMEMoid \<Rightarrow> bool" where
  "linked m f a b \<longleftrightarrow> (\<exists>p. pe_entry m a f = Some (b, p)) \<and> (\<exists>n. pe_entry m b f = Some (n, a))"

definition circular :: "list_mem \<Rightarrow> u64 \<Rightarrow> PMEMoid list \<Rightarrow> bool" where
  "circular m f xs \<longleftrightarrow> distinct xs \<and> (\<forall>x\<in>set xs. off x \<noteq> 0) \<and> (\<forall>(a, b)\<in>set (zip xs (rotate1 xs)). linked m f a b)"

definition is_list :: "list_mem \<Rightarrow> nat \<Rightarrow> u64 \<Rightarrow> PMEMoid list \<Rightarrow> bool" where
  "is_list m h f xs \<longleftrightarrow> circular m f xs \<and> pe_first m h = head_or_null xs"

lemma OID_EQUALS_iff [simp]: "OID_EQUALS a b \<longleftrightarrow> a = b"
  by (cases a; cases b) (auto simp: OID_EQUALS_def)

lemma zip_rotate1: "length xs = length ys \<Longrightarrow> zip (rotate1 xs) (rotate1 ys) = rotate1 (zip xs ys)"
  by (cases xs; cases ys) auto

lemma zip_shift: "zip (x # xs) (xs @ [y]) = zip (butlast (x # xs)) xs @ [(last (x # xs), y)]"
  by (induction xs arbitrary: x) auto

lemma circular_rotate1 [simp]: "circular m f (rotate1 xs) = circular m f xs"
  by (simp add: circular_def zip_rotate1)

lemma circular_swap: "circular m f (xs @ ys) = circular m f (ys @ xs)"
proof (induction xs arbitrary: ys)
  case (Cons x xs)
  have "circular m f (x # (xs @ ys)) = circular m f (rotate1 (x # (xs @ ys)))" by (simp only: circular_rotate1)
  with Cons [of "ys @ [x]"] show ?case by simp
qed simp

lemma circular_links:
  assumes "circular m f (x # ys)"
  shows "linked m f (last (x # ys)) x" and "ys \<noteq> [] \<Longrightarrow> linked m f x (hd ys)"
  using assms by (auto simp: circular_def zip_shift simp del: zip_Cons_Cons) (cases ys; simp)

text \<open>What the macros read at an element, given the elements before and after it.\<close>

lemma circular_entry:
  assumes "circular m f (us @ y # vs)"
  shows "pe_entry m y f = Some (hd (vs @ us @ [y]), last (y # vs @ us))"
proof -
  have c: "circular m f (y # vs @ us)" using circular_swap [of m f us "y # vs"] assms by simp
  have "pe_entry m y f = Some (hd (ws @ [y]), last (y # ws))" if "circular m f (y # ws)" for ws
    using circular_links [OF that] by (cases ws) (auto simp: linked_def)
  from this [OF c] show ?thesis by simp
qed

lemma is_list_entry:
  assumes "is_list m h f (us @ y # vs)"
  shows "POBJ_LIST_NEXT m y f = Val (hd (vs @ us @ [y]))" and "POBJ_LIST_PREV m y f = Val (last (y # vs @ us))"
  using circular_entry [of m f us y vs] assms by (simp_all add: is_list_def POBJ_LIST_NEXT_def POBJ_LIST_PREV_def)

lemma is_list_not_null: "is_list m h f xs \<Longrightarrow> x \<in> set xs \<Longrightarrow> off x \<noteq> 0"
  by (simp add: is_list_def circular_def)

lemma is_list_first: "is_list m h f xs \<Longrightarrow> POBJ_LIST_FIRST m h = head_or_null xs"
  by (simp add: is_list_def POBJ_LIST_FIRST_def)

lemma is_list_last:
  assumes "is_list m h f xs"
  shows "POBJ_LIST_LAST m h f = Val (head_or_null (rev xs))"
proof (cases xs)
  case Nil
  with assms show ?thesis by (simp add: is_list_def POBJ_LIST_LAST_def)
next
  case (Cons x ys)
  with assms have "POBJ_LIST_PREV m x f = Val (last (x # ys))" using is_list_entry(2) [of m h f "[]" x ys] by simp
  moreover have "pe_first m h = x" "off x \<noteq> 0" using assms Cons is_list_not_null [OF assms] by (simp_all add: is_list_def)
  moreover have "head_or_null (rev (x # ys)) = last (x # ys)" by (cases ys rule: rev_cases) auto
  ultimately show ?thesis by (simp add: POBJ_LIST_LAST_def POBJ_LIST_PREV_def OID_IS_NULL_def Cons)
qed

section \<open>Walking a list\<close>

lemma foreach_loop_list:
  assumes rep: "is_list m h f (us @ ys)" and ys: "ys \<noteq> []" and body: "\<And>x v. x \<in> set (us @ ys) \<Longrightarrow> body x (m, v) = (Val (), m, g x v)"
  shows "list_foreach_loop h f body (hd ys) (m, v) = Some (Val (), m, fold g ys v)"
  using rep ys body
proof (induction ys arbitrary: us v)
  case (Cons y ys)
  have y: "\<not> OID_IS_NULL y" using is_list_not_null [OF Cons.prems(1), of y] by (simp add: OID_IS_NULL_def)
  have nx: "POBJ_LIST_NEXT m y f = Val (hd (ys @ us @ [y]))" by (rule is_list_entry(1) [OF Cons.prems(1)])
  have fst: "POBJ_LIST_FIRST m h = hd (us @ [y])" using is_list_first [OF Cons.prems(1)] by (cases us) simp_all
  have b: "body y (m, v) = (Val (), m, g y v)" by (rule Cons.prems(3)) simp
  show ?case
  proof (cases ys)
    case Nil
    have "list_foreach_loop h f body OID_NULL (m, g y v) = Some (Val (), m, g y v)" by (subst list_foreach_loop.simps) simp
    with Nil y nx fst b show ?thesis by (subst list_foreach_loop.simps) simp
  next
    case (Cons z zs)
    have "distinct (us @ y # z # zs)" using Cons.prems(1) Cons by (simp add: is_list_def circular_def)
    then have "z \<noteq> hd (us @ [y])" by (cases us) auto
    moreover have "list_foreach_loop h f body z (m, g y v) = Some (Val (), m, fold g ys (g y v))"
      using Cons.IH [of "us @ [y]" "g y v"] Cons.prems Cons by simp
    ultimately show ?thesis using Cons y nx fst b by (subst list_foreach_loop.simps) simp
  qed
qed simp

lemma reverse_loop_list:
  assumes rep: "is_list m h f (ys @ us)" and ys: "ys \<noteq> []" and body: "\<And>x v. x \<in> set (ys @ us) \<Longrightarrow> body x (m, v) = (Val (), m, g x v)"
  shows "list_reverse_loop h f body (last ys) (m, v) = Some (Val (), m, fold g (rev ys) v)"
  using rep ys body
proof (induction ys arbitrary: us v rule: rev_induct)
  case (snoc y ys)
  from snoc.prems(1) have rep: "is_list m h f (ys @ y # us)" by simp
  have y: "\<not> OID_IS_NULL y" using is_list_not_null [OF rep, of y] by (simp add: OID_IS_NULL_def)
  have pv: "POBJ_LIST_PREV m y f = Val (last (y # us @ ys))" by (rule is_list_entry(2) [OF rep])
  have la: "POBJ_LIST_LAST m h f = Val (last (y # us))"
    using is_list_last [OF rep] by (cases us rule: rev_cases) simp_all
  have b: "body y (m, v) = (Val (), m, g y v)" by (rule snoc.prems(3)) simp
  show ?case
  proof (cases "ys = []")
    case True
    have "list_reverse_loop h f body OID_NULL (m, g y v) = Some (Val (), m, g y v)" by (subst list_reverse_loop.simps) simp
    with True y pv la b show ?thesis by (subst list_reverse_loop.simps) simp
  next
    case False
    have "distinct (ys @ y # us)" using rep by (simp add: is_list_def circular_def)
    moreover have "last ys \<in> set ys" "last (y # us) \<in> set (y # us)" using False last_in_set by blast+
    ultimately have "last ys \<noteq> last (y # us)" by (metis disjoint_iff distinct_append)
    moreover have "list_reverse_loop h f body (last ys) (m, g y v) = Some (Val (), m, fold g (rev ys) (g y v))"
      using snoc.IH [of "y # us" "g y v"] rep False snoc.prems(3) by simp
    ultimately show ?thesis using False y pv la b by (subst list_reverse_loop.simps) simp
  qed
qed simp

lemma foreach_list_run:
  assumes "is_list m h f xs" and "\<And>x v. x \<in> set xs \<Longrightarrow> body x (m, v) = (Val (), m, g x v)"
  shows "POBJ_LIST_FOREACH h f body (m, v) = Some (Val (), m, fold g xs v)"
proof (cases xs)
  case Nil
  with is_list_first [OF assms(1)] show ?thesis by (simp add: POBJ_LIST_FOREACH_def list_foreach_loop.simps)
next
  case (Cons y ys)
  with foreach_loop_list [of m h f "[]" xs body g v] assms is_list_first [OF assms(1)] show ?thesis
    by (simp add: POBJ_LIST_FOREACH_def)
qed

lemma reverse_list_run:
  assumes "is_list m h f xs" and "\<And>x v. x \<in> set xs \<Longrightarrow> body x (m, v) = (Val (), m, g x v)"
  shows "POBJ_LIST_FOREACH_REVERSE h f body (m, v) = Some (Val (), m, fold g (rev xs) v)"
proof (cases xs rule: rev_cases)
  case Nil
  with is_list_last [OF assms(1)] show ?thesis by (simp add: POBJ_LIST_FOREACH_REVERSE_def list_reverse_loop.simps)
next
  case (snoc ys y)
  with reverse_loop_list [of m h f xs "[]" body g v] assms is_list_last [OF assms(1)] show ?thesis
    by (simp add: POBJ_LIST_FOREACH_REVERSE_def)
qed

section \<open>The contract of the library\<close>

fun insert_before :: "PMEMoid \<Rightarrow> PMEMoid \<Rightarrow> PMEMoid list \<Rightarrow> PMEMoid list" where
  "insert_before d x [] = []"
| "insert_before d x (y # ys) = (if y = d then x # y # ys else y # insert_before d x ys)"

fun insert_after :: "PMEMoid \<Rightarrow> PMEMoid \<Rightarrow> PMEMoid list \<Rightarrow> PMEMoid list" where
  "insert_after d x [] = []"
| "insert_after d x (y # ys) = (if y = d then y # x # ys else y # insert_after d x ys)"

definition place :: "PMEMoid \<Rightarrow> int \<Rightarrow> PMEMoid \<Rightarrow> PMEMoid list \<Rightarrow> PMEMoid list" where
  "place dest before x xs =
     (if OID_IS_NULL dest then (if before \<noteq> 0 then x # xs else xs @ [x])
      else if before \<noteq> 0 then insert_before dest x xs else insert_after dest x xs)"

definition untouched :: "list_mem \<Rightarrow> list_mem \<Rightarrow> (PMEMoid \<times> u64) set \<Rightarrow> nat set \<Rightarrow> bool" where
  "untouched m m' T hs \<longleftrightarrow> (\<forall>x g. (x, g) \<notin> T \<longrightarrow> pe_entry m' x g = pe_entry m x g) \<and> (\<forall>h. h \<notin> hs \<longrightarrow> pe_first m' h = pe_first m h)"

definition same_objects :: "list_mem \<Rightarrow> list_mem \<Rightarrow> bool" where
  "same_objects m m' \<longleftrightarrow> (\<forall>x g. pe_entry m' x g = None \<longleftrightarrow> pe_entry m x g = None)"

locale atomic_lists =
  fixes A :: list_api
  assumes insert: "is_list m h f xs \<Longrightarrow> off x \<noteq> 0 \<Longrightarrow> x \<notin> set xs \<Longrightarrow> OID_IS_NULL dest \<or> dest \<in> set xs \<Longrightarrow> pe_entry m x f \<noteq> None \<Longrightarrow>
      \<exists>m'. api_insert A f h dest b x m = (0, m') \<and> is_list m' h f (place dest b x xs) \<and>
        untouched m m' (insert x (set xs) \<times> {f}) {h} \<and> same_objects m m'"
    and insert_new: "is_list m h f xs \<Longrightarrow> OID_IS_NULL dest \<or> dest \<in> set xs \<Longrightarrow> api_insert_new A f h dest b sz n c m = (x, m') \<Longrightarrow>
      \<not> OID_IS_NULL x \<Longrightarrow> x \<notin> set xs \<and> is_list m' h f (place dest b x xs)"
    and remove: "is_list m h f xs \<Longrightarrow> x \<in> set xs \<Longrightarrow>
      \<exists>m'. api_remove A f h x 0 m = (0, m') \<and> is_list m' h f (remove1 x xs) \<and> untouched m m' (set xs \<times> {f}) {h} \<and> same_objects m m'"
    and remove_free: "is_list m h f xs \<Longrightarrow> x \<in> set xs \<Longrightarrow>
      \<exists>m'. api_remove A f h x 1 m = (0, m') \<and> is_list m' h f (remove1 x xs) \<and> untouched m m' (set xs \<times> {f} \<union> {x} \<times> UNIV) {h} \<and>
        (\<forall>y g. y \<noteq> x \<longrightarrow> (pe_entry m' y g = None \<longleftrightarrow> pe_entry m y g = None))"
    and move: "is_list m h f xs \<Longrightarrow> is_list m k g ys \<Longrightarrow> h \<noteq> k \<Longrightarrow> (f = g \<Longrightarrow> set xs \<inter> set ys = {}) \<Longrightarrow> x \<in> set xs \<Longrightarrow> x \<notin> set ys \<Longrightarrow>
      OID_IS_NULL dest \<or> dest \<in> set ys \<Longrightarrow> pe_entry m x g \<noteq> None \<Longrightarrow>
      \<exists>m'. api_move A f h g k dest b x m = (0, m') \<and> is_list m' h f (remove1 x xs) \<and> is_list m' k g (place dest b x ys) \<and>
        untouched m m' (set xs \<times> {f} \<union> insert x (set ys) \<times> {g}) {h, k} \<and> same_objects m m'"

section \<open>Lists of lists\<close>

text \<open>
  Commands on lists whose links lie in the fields \<open>F\<close>, and what they mean for the lists \<open>L\<close> of the objects \<open>Ob\<close>. An object may be in
  several lists, through different fields.
\<close>

datatype list_cmd =
    Insert_head nat PMEMoid | Insert_tail nat PMEMoid | Insert_after nat PMEMoid PMEMoid | Insert_before nat PMEMoid PMEMoid
  | Remove nat PMEMoid | Remove_free nat PMEMoid
  | Move_head nat nat PMEMoid | Move_tail nat nat PMEMoid | Move_after nat nat PMEMoid PMEMoid | Move_before nat nat PMEMoid PMEMoid
  | Visit nat | Visit_reverse nat | Ends nat

datatype list_res = Code int | Elements "PMEMoid list" | First_last PMEMoid PMEMoid bool

definition changing :: "(list_mem \<Rightarrow> int \<times> list_mem) \<Rightarrow> (list_mem, list_res) cpp" where
  "changing f = (\<lambda>m. case f m of (rc, m') \<Rightarrow> (Val (Code rc), m'))"

definition note_elem :: "PMEMoid list list_body" where
  "note_elem x = modC (\<lambda>(m, xs). (m, xs @ [x]))"

definition visiting :: "(list_mem \<times> PMEMoid list \<Rightarrow> (unit outcome \<times> list_mem \<times> PMEMoid list) option) \<Rightarrow> (list_mem, list_res) cpp" where
  "visiting loop = (\<lambda>m. case loop (m, []) of
      None \<Rightarrow> (Die Diverges, m)
    | Some (Val _, m', xs) \<Rightarrow> (Val (Elements xs), m')
    | Some (Throw e, m', xs) \<Rightarrow> (Throw e, m')
    | Some (Die f, m', xs) \<Rightarrow> (Die f, m'))"

fun exec_list :: "list_api \<Rightarrow> (nat \<Rightarrow> u64) \<Rightarrow> list_cmd \<Rightarrow> (list_mem, list_res) cpp" where
  "exec_list A F (Insert_head h x) = changing (POBJ_LIST_INSERT_HEAD A h x (F h))"
| "exec_list A F (Insert_tail h x) = changing (POBJ_LIST_INSERT_TAIL A h x (F h))"
| "exec_list A F (Insert_after h d x) = changing (POBJ_LIST_INSERT_AFTER A h d x (F h))"
| "exec_list A F (Insert_before h d x) = changing (POBJ_LIST_INSERT_BEFORE A h d x (F h))"
| "exec_list A F (Remove h x) = changing (POBJ_LIST_REMOVE A h x (F h))"
| "exec_list A F (Remove_free h x) = changing (POBJ_LIST_REMOVE_FREE A h x (F h))"
| "exec_list A F (Move_head h k x) = changing (POBJ_LIST_MOVE_ELEMENT_HEAD A h k x (F h) (F k))"
| "exec_list A F (Move_tail h k x) = changing (POBJ_LIST_MOVE_ELEMENT_TAIL A h k x (F h) (F k))"
| "exec_list A F (Move_after h k d x) = changing (POBJ_LIST_MOVE_ELEMENT_AFTER A h k d x (F h) (F k))"
| "exec_list A F (Move_before h k d x) = changing (POBJ_LIST_MOVE_ELEMENT_BEFORE A h k d x (F h) (F k))"
| "exec_list A F (Visit h) = visiting (POBJ_LIST_FOREACH h (F h) note_elem)"
| "exec_list A F (Visit_reverse h) = visiting (POBJ_LIST_FOREACH_REVERSE h (F h) note_elem)"
| "exec_list A F (Ends h) =
     (\<lambda>m. bindC (liftO (POBJ_LIST_LAST m h (F h))) (\<lambda>l. returnC (First_last (POBJ_LIST_FIRST m h) l (POBJ_LIST_EMPTY m h))) m)"

type_synonym lists = "(nat \<Rightarrow> PMEMoid list) \<times> PMEMoid set"

definition moved :: "nat \<Rightarrow> nat \<Rightarrow> PMEMoid \<Rightarrow> (PMEMoid list \<Rightarrow> PMEMoid list) \<Rightarrow> lists \<Rightarrow> list_res \<times> lists" where
  "moved h k x into = (\<lambda>(L, Ob). (Code 0, L(h := remove1 x (L h), k := into (L k)), Ob))"

fun spec_list :: "list_cmd \<Rightarrow> lists \<Rightarrow> list_res \<times> lists" where
  "spec_list (Insert_head h x) (L, Ob) = (Code 0, L(h := x # L h), Ob)"
| "spec_list (Insert_tail h x) (L, Ob) = (Code 0, L(h := L h @ [x]), Ob)"
| "spec_list (Insert_after h d x) (L, Ob) = (Code 0, L(h := insert_after d x (L h)), Ob)"
| "spec_list (Insert_before h d x) (L, Ob) = (Code 0, L(h := insert_before d x (L h)), Ob)"
| "spec_list (Remove h x) (L, Ob) = (Code 0, L(h := remove1 x (L h)), Ob)"
| "spec_list (Remove_free h x) (L, Ob) = (Code 0, L(h := remove1 x (L h)), Ob - {x})"
| "spec_list (Move_head h k x) l = moved h k x (\<lambda>ys. x # ys) l"
| "spec_list (Move_tail h k x) l = moved h k x (\<lambda>ys. ys @ [x]) l"
| "spec_list (Move_after h k d x) l = moved h k x (insert_after d x) l"
| "spec_list (Move_before h k d x) l = moved h k x (insert_before d x) l"
| "spec_list (Visit h) (L, Ob) = (Elements (L h), L, Ob)"
| "spec_list (Visit_reverse h) (L, Ob) = (Elements (rev (L h)), L, Ob)"
| "spec_list (Ends h) (L, Ob) = (First_last (head_or_null (L h)) (head_or_null (rev (L h))) (L h = []), L, Ob)"

text \<open>
  What the caller has to respect: an object is inserted if it is in no list through the same field, removed from the list it is in,
  freed when it is in no other, and the neighbour of an insertion is in the list.
\<close>

definition can_insert :: "(nat \<Rightarrow> u64) \<Rightarrow> nat \<Rightarrow> PMEMoid \<Rightarrow> lists \<Rightarrow> bool" where
  "can_insert F h x = (\<lambda>(L, Ob). x \<in> Ob \<and> (\<forall>k. F k = F h \<longrightarrow> x \<notin> set (L k)))"

definition can_move :: "(nat \<Rightarrow> u64) \<Rightarrow> nat \<Rightarrow> nat \<Rightarrow> PMEMoid \<Rightarrow> lists \<Rightarrow> bool" where
  "can_move F h k x = (\<lambda>(L, Ob). h \<noteq> k \<and> x \<in> set (L h) \<and> (\<forall>j. F j = F k \<longrightarrow> j \<noteq> h \<longrightarrow> x \<notin> set (L j)))"

fun ok_list :: "(nat \<Rightarrow> u64) \<Rightarrow> list_cmd \<Rightarrow> lists \<Rightarrow> bool" where
  "ok_list F (Insert_head h x) l = can_insert F h x l"
| "ok_list F (Insert_tail h x) l = can_insert F h x l"
| "ok_list F (Insert_after h d x) l = (can_insert F h x l \<and> d \<in> set (fst l h))"
| "ok_list F (Insert_before h d x) l = (can_insert F h x l \<and> d \<in> set (fst l h))"
| "ok_list F (Remove h x) l = (x \<in> set (fst l h))"
| "ok_list F (Remove_free h x) l = (x \<in> set (fst l h) \<and> (\<forall>k. k \<noteq> h \<longrightarrow> x \<notin> set (fst l k)))"
| "ok_list F (Move_head h k x) l = can_move F h k x l"
| "ok_list F (Move_tail h k x) l = can_move F h k x l"
| "ok_list F (Move_after h k d x) l = (can_move F h k x l \<and> d \<in> set (fst l k))"
| "ok_list F (Move_before h k d x) l = (can_move F h k x l \<and> d \<in> set (fst l k))"
| "ok_list F c l = True"

definition lists_rep :: "(nat \<Rightarrow> u64) \<Rightarrow> list_mem \<Rightarrow> lists \<Rightarrow> bool" where
  "lists_rep F m l \<longleftrightarrow> (case l of (L, Ob) \<Rightarrow>
     (\<forall>h. is_list m h (F h) (L h) \<and> set (L h) \<subseteq> Ob) \<and> (\<forall>h k. h \<noteq> k \<longrightarrow> F h = F k \<longrightarrow> set (L h) \<inter> set (L k) = {}) \<and>
     (\<forall>x\<in>Ob. off x \<noteq> 0 \<and> (\<forall>h. pe_entry m x (F h) \<noteq> None)))"

lemma set_insert_before: "d \<in> set xs \<Longrightarrow> set (insert_before d x xs) = insert x (set xs)"
  by (induction xs) auto

lemma set_insert_after: "d \<in> set xs \<Longrightarrow> set (insert_after d x xs) = insert x (set xs)"
  by (induction xs) auto

lemma set_place: "OID_IS_NULL dest \<or> dest \<in> set xs \<Longrightarrow> set (place dest b x xs) = insert x (set xs)"
  by (auto simp: place_def set_insert_before set_insert_after)

lemma is_list_untouched:
  assumes "is_list m k g zs" and "untouched m m' T hs" and "k \<notin> hs" and "\<And>x. x \<in> set zs \<Longrightarrow> (x, g) \<notin> T"
  shows "is_list m' k g zs"
proof -
  have "linked m' g a b" if "(a, b) \<in> set (zip zs (rotate1 zs))" for a b
  proof -
    have "a \<in> set zs" "b \<in> set zs" using that by (auto dest: set_zip_leftD set_zip_rightD)
    moreover have "linked m g a b" using assms(1) that by (auto simp: is_list_def circular_def)
    ultimately show ?thesis using assms(2,4) by (simp add: linked_def untouched_def)
  qed
  with assms show ?thesis by (auto simp: is_list_def circular_def untouched_def)
qed

lemma same_objects_refl: "same_objects m m"
  by (simp add: same_objects_def)

lemma lists_repD:
  assumes "lists_rep F m (L, Ob)"
  shows "is_list m h (F h) (L h)" and "x \<in> set (L h) \<Longrightarrow> x \<in> Ob" and "x \<in> set (L h) \<Longrightarrow> F h = F k \<Longrightarrow> h \<noteq> k \<Longrightarrow> x \<notin> set (L k)"
    and "x \<in> Ob \<Longrightarrow> off x \<noteq> 0" and "x \<in> Ob \<Longrightarrow> pe_entry m x (F h) \<noteq> None"
  using assms unfolding lists_rep_def by blast+

text \<open>A change of the lists \<open>hs\<close> that touches only their links keeps the rest.\<close>

lemma lists_rep_change:
  assumes rep: "lists_rep F m (L, Ob)" and un: "untouched m m' T hs"
    and other: "\<And>h. h \<notin> hs \<Longrightarrow> L' h = L h \<and> (\<forall>x\<in>set (L h). (x, F h) \<notin> T)"
    and new: "\<And>h. h \<in> hs \<Longrightarrow> is_list m' h (F h) (L' h)"
    and sub: "\<And>h. set (L' h) \<subseteq> Ob'" and dis: "\<And>h k. h \<noteq> k \<Longrightarrow> F h = F k \<Longrightarrow> set (L' h) \<inter> set (L' k) = {}"
    and obs: "Ob' \<subseteq> Ob" "\<And>x g. x \<in> Ob' \<Longrightarrow> pe_entry m x g \<noteq> None \<Longrightarrow> pe_entry m' x g \<noteq> None"
  shows "lists_rep F m' (L', Ob')"
proof -
  have "is_list m' h (F h) (L' h)" for h
  proof (cases "h \<in> hs")
    case False
    from is_list_untouched [OF lists_repD(1) [OF rep] un False] other [OF False] show ?thesis by simp
  qed (rule new)
  moreover have "off x \<noteq> 0 \<and> (\<forall>h. pe_entry m' x (F h) \<noteq> None)" if "x \<in> Ob'" for x
    using that obs lists_repD(4,5) [OF rep] by blast
  ultimately show ?thesis using sub dis unfolding lists_rep_def prod.case by blast
qed

lemma changing_run: "f m = (0, m') \<Longrightarrow> changing f m = (Val (Code 0), m')"
  by (simp add: changing_def)

lemma null_place:
  "place OID_NULL POBJ_LIST_DEST_HEAD x xs = x # xs" "place OID_NULL POBJ_LIST_DEST_TAIL x xs = xs @ [x]"
  by (simp_all add: place_def POBJ_LIST_DEST_HEAD_def POBJ_LIST_DEST_TAIL_def)

lemma elem_place: "off d \<noteq> 0 \<Longrightarrow> place d 0 x xs = insert_after d x xs" "off d \<noteq> 0 \<Longrightarrow> place d 1 x xs = insert_before d x xs"
  by (simp_all add: place_def OID_IS_NULL_def)

context atomic_lists
begin

lemma rep_insert:
  assumes rep: "lists_rep F m (L, Ob)" and x: "can_insert F h x (L, Ob)" and dest: "OID_IS_NULL dest \<or> dest \<in> set (L h)"
  shows "\<exists>m'. api_insert A (F h) h dest b x m = (0, m') \<and> lists_rep F m' (L(h := place dest b x (L h)), Ob)"
proof -
  from x have x: "x \<in> Ob" "\<And>k. F k = F h \<Longrightarrow> x \<notin> set (L k)" by (simp_all add: can_insert_def)
  from insert [OF lists_repD(1) [OF rep] _ x(2) dest] lists_repD(4,5) [OF rep x(1)] obtain m' where
    run: "api_insert A (F h) h dest b x m = (0, m')" and new: "is_list m' h (F h) (place dest b x (L h))"
    and un: "untouched m m' (insert x (set (L h)) \<times> {F h}) {h}" and same: "same_objects m m'" by blast
  let ?L = "L(h := place dest b x (L h))"
  have set: "set (?L h) = insert x (set (L h))" by (simp add: set_place [OF dest])
  have "lists_rep F m' (?L, Ob)"
  proof (rule lists_rep_change [OF rep un])
    fix k assume "k \<notin> {h}"
    then show "?L k = L k \<and> (\<forall>y\<in>set (L k). (y, F k) \<notin> insert x (set (L h)) \<times> {F h})"
      using x(2) lists_repD(3) [OF rep] by auto
  next
    fix k show "set (?L k) \<subseteq> Ob" using set x(1) lists_repD(2) [OF rep] by (cases "k = h") auto
  next
    fix j k assume "j \<noteq> k" "F j = F k"
    then show "set (?L j) \<inter> set (?L k) = {}" using set x(2) lists_repD(3) [OF rep] by (cases "j = h"; cases "k = h") auto
  next
    fix y g assume "pe_entry m y g \<noteq> None"
    with same show "pe_entry m' y g \<noteq> None" by (simp add: same_objects_def)
  qed (use new in simp_all)
  with run show ?thesis by blast
qed

lemma distinct_list: "lists_rep F m (L, Ob) \<Longrightarrow> distinct (L h)"
  using lists_repD(1) [of F m L Ob h] by (simp add: is_list_def circular_def)

lemma rep_remove:
  assumes rep: "lists_rep F m (L, Ob)" and x: "x \<in> set (L h)"
  shows "\<exists>m'. api_remove A (F h) h x 0 m = (0, m') \<and> lists_rep F m' (L(h := remove1 x (L h)), Ob)"
proof -
  from remove [OF lists_repD(1) [OF rep] x] obtain m' where
    run: "api_remove A (F h) h x 0 m = (0, m')" and new: "is_list m' h (F h) (remove1 x (L h))"
    and un: "untouched m m' (set (L h) \<times> {F h}) {h}" and same: "same_objects m m'" by blast
  have sub: "set (remove1 x (L h)) \<subseteq> set (L h)" by (rule set_remove1_subset)
  have "lists_rep F m' (L(h := remove1 x (L h)), Ob)"
  proof (rule lists_rep_change [OF rep un])
    fix k assume "k \<notin> {h}"
    then show "(L(h := remove1 x (L h))) k = L k \<and> (\<forall>y\<in>set (L k). (y, F k) \<notin> set (L h) \<times> {F h})"
      using lists_repD(3) [OF rep] by auto
  next
    fix k show "set ((L(h := remove1 x (L h))) k) \<subseteq> Ob" using sub lists_repD(2) [OF rep] by (cases "k = h") auto
  next
    fix j k assume "j \<noteq> k" "F j = F k"
    then show "set ((L(h := remove1 x (L h))) j) \<inter> set ((L(h := remove1 x (L h))) k) = {}"
      using sub lists_repD(3) [OF rep] by (cases "j = h"; cases "k = h") fastforce+
  next
    fix y g assume "pe_entry m y g \<noteq> None"
    with same show "pe_entry m' y g \<noteq> None" by (simp add: same_objects_def)
  qed (use new in simp_all)
  with run show ?thesis by blast
qed

lemma rep_remove_free:
  assumes rep: "lists_rep F m (L, Ob)" and x: "x \<in> set (L h)" "\<And>k. k \<noteq> h \<Longrightarrow> x \<notin> set (L k)"
  shows "\<exists>m'. api_remove A (F h) h x 1 m = (0, m') \<and> lists_rep F m' (L(h := remove1 x (L h)), Ob - {x})"
proof -
  from remove_free [OF lists_repD(1) [OF rep] x(1)] obtain m' where
    run: "api_remove A (F h) h x 1 m = (0, m')" and new: "is_list m' h (F h) (remove1 x (L h))"
    and un: "untouched m m' (set (L h) \<times> {F h} \<union> {x} \<times> UNIV) {h}"
    and same: "\<forall>y g. y \<noteq> x \<longrightarrow> (pe_entry m' y g = None \<longleftrightarrow> pe_entry m y g = None)" by blast
  have sub: "set (remove1 x (L h)) = set (L h) - {x}" using distinct_list [OF rep] by (rule set_remove1_eq)
  have "lists_rep F m' (L(h := remove1 x (L h)), Ob - {x})"
  proof (rule lists_rep_change [OF rep un])
    fix k assume "k \<notin> {h}"
    then show "(L(h := remove1 x (L h))) k = L k \<and> (\<forall>y\<in>set (L k). (y, F k) \<notin> set (L h) \<times> {F h} \<union> {x} \<times> UNIV)"
      using lists_repD(3) [OF rep] x(2) by auto
  next
    fix k show "set ((L(h := remove1 x (L h))) k) \<subseteq> Ob - {x}" using sub x(2) lists_repD(2) [OF rep] by (cases "k = h") auto
  next
    fix j k assume "j \<noteq> k" "F j = F k"
    then show "set ((L(h := remove1 x (L h))) j) \<inter> set ((L(h := remove1 x (L h))) k) = {}"
      using sub lists_repD(3) [OF rep] by (cases "j = h"; cases "k = h") fastforce+
  next
    fix y g assume "y \<in> Ob - {x}" "pe_entry m y g \<noteq> None"
    with same show "pe_entry m' y g \<noteq> None" by simp
  qed (use new in auto)
  with run show ?thesis by blast
qed

lemma rep_move:
  assumes rep: "lists_rep F m (L, Ob)" and mv: "can_move F h k x (L, Ob)" and dest: "OID_IS_NULL dest \<or> dest \<in> set (L k)"
  shows "\<exists>m'. api_move A (F h) h (F k) k dest b x m = (0, m') \<and> lists_rep F m' (L(h := remove1 x (L h), k := place dest b x (L k)), Ob)"
proof -
  from mv have x: "h \<noteq> k" "x \<in> set (L h)" "\<And>j. F j = F k \<Longrightarrow> j \<noteq> h \<Longrightarrow> x \<notin> set (L j)" by (simp_all add: can_move_def)
  have Ob: "x \<in> Ob" by (rule lists_repD(2) [OF rep x(2)])
  have dis: "set (L h) \<inter> set (L k) = {}" if "F h = F k" using lists_repD(3) [OF rep _ that x(1)] by blast
  have nk: "x \<notin> set (L k)" using x by blast
  from move [OF lists_repD(1) [OF rep] lists_repD(1) [OF rep] x(1) dis x(2) nk dest lists_repD(5) [OF rep Ob]] obtain m' where
    run: "api_move A (F h) h (F k) k dest b x m = (0, m')" and new: "is_list m' h (F h) (remove1 x (L h))" "is_list m' k (F k) (place dest b x (L k))"
    and un: "untouched m m' (set (L h) \<times> {F h} \<union> insert x (set (L k)) \<times> {F k}) {h, k}" and same: "same_objects m m'" by blast
  let ?L = "L(h := remove1 x (L h), k := place dest b x (L k))"
  have sets: "set (?L h) = set (L h) - {x}" "set (?L k) = insert x (set (L k))"
    using x(1) distinct_list [OF rep] set_place [OF dest] by (simp_all add: set_remove1_eq)
  have other: "?L j = L j" if "j \<noteq> h" "j \<noteq> k" for j using that by simp
  have "lists_rep F m' (?L, Ob)"
  proof (rule lists_rep_change [OF rep un])
    fix j assume j: "j \<notin> {h, k}"
    then show "?L j = L j \<and> (\<forall>y\<in>set (L j). (y, F j) \<notin> set (L h) \<times> {F h} \<union> insert x (set (L k)) \<times> {F k})"
      using lists_repD(3) [OF rep] x(3) by auto
  next
    fix j show "set (?L j) \<subseteq> Ob" using sets Ob lists_repD(2) [OF rep] other [of j] by (cases "j = h"; cases "j = k") auto
  next
    fix i j assume ij: "i \<noteq> j" "F i = F j"
    show "set (?L i) \<inter> set (?L j) = {}"
    proof (rule ccontr)
      assume "set (?L i) \<inter> set (?L j) \<noteq> {}"
      then obtain y where y: "y \<in> set (?L i)" "y \<in> set (?L j)" by blast
      have orig: "z \<in> set (L l) \<or> z = x \<and> l = k" if "z \<in> set (?L l)" for z l
        using that sets other [of l] by (cases "l = h"; cases "l = k") auto
      have notx: "y \<noteq> x \<or> l \<noteq> h" if "y \<in> set (?L l)" for l using that sets(1) by auto
      from orig [OF y(1)] orig [OF y(2)] notx [OF y(1)] notx [OF y(2)] lists_repD(3) [OF rep _ ij(2,1)] x(3) ij show False by metis
    qed
  next
    fix y g assume "pe_entry m y g \<noteq> None"
    with same show "pe_entry m' y g \<noteq> None" by (simp add: same_objects_def)
  qed (use new x(1) in auto)
  with run show ?thesis by blast
qed

lemma visiting_run:
  assumes "lists_rep F m (L, Ob)"
  shows "visiting (POBJ_LIST_FOREACH h (F h) note_elem) m = (Val (Elements (L h)), m)"
    and "visiting (POBJ_LIST_FOREACH_REVERSE h (F h) note_elem) m = (Val (Elements (rev (L h))), m)"
proof -
  have fold: "fold (\<lambda>x v. v @ [x]) xs v = v @ xs" for xs v :: "PMEMoid list" by (induction xs arbitrary: v) simp_all
  have body: "note_elem x (m, v) = (Val (), m, v @ [x])" for x v by (simp add: note_elem_def modC_def)
  show "visiting (POBJ_LIST_FOREACH h (F h) note_elem) m = (Val (Elements (L h)), m)"
    using foreach_list_run [OF lists_repD(1) [OF assms], of h note_elem "\<lambda>x v. v @ [x]" "[]"] body by (simp add: visiting_def fold)
  show "visiting (POBJ_LIST_FOREACH_REVERSE h (F h) note_elem) m = (Val (Elements (rev (L h))), m)"
    using reverse_list_run [OF lists_repD(1) [OF assms], of h note_elem "\<lambda>x v. v @ [x]" "[]"] body by (simp add: visiting_def fold)
qed

lemma list_simulates:
  assumes rep: "lists_rep F m l" and ok: "ok_list F c l" and spec: "spec_list c l = (r, l')"
  shows "\<exists>m'. exec_list A F c m = (Val r, m') \<and> lists_rep F m' l'"
proof -
  obtain L Ob where l: "l = (L, Ob)" by (cases l)
  note rep = rep [unfolded l] and ok = ok [unfolded l] and spec = spec [unfolded l]
  have null: "OID_IS_NULL OID_NULL \<or> OID_NULL \<in> X" for X by simp
  have nn: "off d \<noteq> 0" if "d \<in> set (L h)" for d h using lists_repD(4) [OF rep lists_repD(2) [OF rep that]] .
  have elem: "OID_IS_NULL d \<or> d \<in> set (L h)" if "d \<in> set (L h)" for d h using that by simp
  show ?thesis
  proof (cases c)
    case (Insert_head h x)
    with ok spec rep_insert [OF rep _ null, of h x POBJ_LIST_DEST_HEAD] show ?thesis
      by (auto simp: POBJ_LIST_INSERT_HEAD_def null_place intro: changing_run)
  next
    case (Insert_tail h x)
    with ok spec rep_insert [OF rep _ null, of h x POBJ_LIST_DEST_TAIL] show ?thesis
      by (auto simp: POBJ_LIST_INSERT_TAIL_def null_place intro: changing_run)
  next
    case (Insert_after h d x)
    with ok spec rep_insert [OF rep _ elem, of h x d 0] nn [of d h] show ?thesis
      by (auto simp: POBJ_LIST_INSERT_AFTER_def elem_place intro: changing_run)
  next
    case (Insert_before h d x)
    with ok spec rep_insert [OF rep _ elem, of h x d 1] nn [of d h] show ?thesis
      by (auto simp: POBJ_LIST_INSERT_BEFORE_def elem_place intro: changing_run)
  next
    case (Remove h x)
    with ok spec rep_remove [OF rep, of x h] show ?thesis by (auto simp: POBJ_LIST_REMOVE_def intro: changing_run)
  next
    case (Remove_free h x)
    with ok spec rep_remove_free [OF rep, of x h] show ?thesis by (auto simp: POBJ_LIST_REMOVE_FREE_def intro: changing_run)
  next
    case (Move_head h k x)
    with ok spec rep_move [OF rep _ null, of h k x POBJ_LIST_DEST_HEAD] show ?thesis
      by (auto simp: POBJ_LIST_MOVE_ELEMENT_HEAD_def null_place moved_def intro: changing_run)
  next
    case (Move_tail h k x)
    with ok spec rep_move [OF rep _ null, of h k x POBJ_LIST_DEST_TAIL] show ?thesis
      by (auto simp: POBJ_LIST_MOVE_ELEMENT_TAIL_def null_place moved_def intro: changing_run)
  next
    case (Move_after h k d x)
    with ok spec rep_move [OF rep _ elem, of h k x d 0] nn [of d k] show ?thesis
      by (auto simp: POBJ_LIST_MOVE_ELEMENT_AFTER_def elem_place moved_def intro: changing_run)
  next
    case (Move_before h k d x)
    with ok spec rep_move [OF rep _ elem, of h k x d 1] nn [of d k] show ?thesis
      by (auto simp: POBJ_LIST_MOVE_ELEMENT_BEFORE_def elem_place moved_def intro: changing_run)
  next
    case (Visit h)
    with spec visiting_run(1) [OF rep] rep show ?thesis by auto
  next
    case (Visit_reverse h)
    with spec visiting_run(2) [OF rep] rep show ?thesis by auto
  next
    case (Ends h)
    have "POBJ_LIST_EMPTY m h \<longleftrightarrow> L h = []"
      using lists_repD(1) [OF rep, of h] nn [of "hd (L h)" h] by (cases "L h") (auto simp: POBJ_LIST_EMPTY_def is_list_def OID_IS_NULL_def)
    with Ends spec rep is_list_last [OF lists_repD(1) [OF rep]] is_list_first [OF lists_repD(1) [OF rep]] show ?thesis
      by (auto simp: exec_simps)
  qed
qed

lemma list_commands_simulate: "simulation (lists_rep F) (exec_list A F) spec_list (ok_list F)"
  by unfold_locales (rule list_simulates)

end

sublocale atomic_lists \<subseteq> lists: simulation "lists_rep F" "exec_list A F" spec_list "ok_list F" for F
  by (rule list_commands_simulate)

section \<open>A library that meets the contract\<close>

definition nxt :: "list_mem \<Rightarrow> u64 \<Rightarrow> PMEMoid \<Rightarrow> PMEMoid" where
  "nxt m f a = (case pe_entry m a f of Some (n, p) \<Rightarrow> n | None \<Rightarrow> OID_NULL)"

definition prv :: "list_mem \<Rightarrow> u64 \<Rightarrow> PMEMoid \<Rightarrow> PMEMoid" where
  "prv m f a = (case pe_entry m a f of Some (n, p) \<Rightarrow> p | None \<Rightarrow> OID_NULL)"

text \<open>New links for the field \<open>f\<close>: \<open>x\<close> gets \<open>e\<close>, \<open>p\<close> a new successor, \<open>n\<close> a new predecessor.\<close>

definition relink :: "u64 \<Rightarrow> PMEMoid \<Rightarrow> PMEMoid \<times> PMEMoid \<Rightarrow> PMEMoid \<Rightarrow> PMEMoid \<Rightarrow> PMEMoid \<Rightarrow> PMEMoid \<Rightarrow> list_mem \<Rightarrow> list_mem" where
  "relink f x e p s n q m = m\<lparr>pe_entry := (\<lambda>y g.
     if g \<noteq> f then pe_entry m y g else if y = x then Some e
     else map_option (\<lambda>(a, b). (if y = p then s else a, if y = n then q else b)) (pe_entry m y g))\<rparr>"

definition set_first :: "nat \<Rightarrow> PMEMoid \<Rightarrow> list_mem \<Rightarrow> list_mem" where
  "set_first h x m = m\<lparr>pe_first := (pe_first m)(h := x)\<rparr>"

definition splice_insert :: "u64 \<Rightarrow> nat \<Rightarrow> PMEMoid \<Rightarrow> int \<Rightarrow> PMEMoid \<Rightarrow> list_mem \<Rightarrow> list_mem" where
  "splice_insert f h dest b x m =
     (let fst = pe_first m h in
      if OID_IS_NULL fst then set_first h x (relink f x (x, x) x x x x m)
      else
        let d = if OID_IS_NULL dest then fst else if b \<noteq> 0 then dest else nxt m f dest;
            p = prv m f d;
            m' = relink f x (d, p) p x d x m
        in if b \<noteq> 0 \<and> (OID_IS_NULL dest \<or> dest = fst) then set_first h x m' else m')"

definition splice_remove :: "u64 \<Rightarrow> nat \<Rightarrow> PMEMoid \<Rightarrow> list_mem \<Rightarrow> list_mem" where
  "splice_remove f h x m =
     (let n = nxt m f x; p = prv m f x in
      if n = x then set_first h OID_NULL (relink f x (OID_NULL, OID_NULL) x x x x m)
      else
        let m' = relink f x (OID_NULL, OID_NULL) p n n p m
        in if pe_first m h = x then set_first h n m' else m')"

definition add_object :: "PMEMoid \<Rightarrow> list_mem \<Rightarrow> list_mem" where
  "add_object x m = m\<lparr>pe_entry := (pe_entry m)(x := (\<lambda>g. Some (OID_NULL, OID_NULL)))\<rparr>"

definition drop_object :: "PMEMoid \<Rightarrow> list_mem \<Rightarrow> list_mem" where
  "drop_object x m = m\<lparr>pe_entry := (pe_entry m)(x := Map.empty)\<rparr>"

definition splice_api :: list_api where
  "splice_api = \<lparr>
     api_insert = (\<lambda>f h dest b x m. (0, splice_insert f h dest b x m)),
     api_insert_new = (\<lambda>f h dest b sz n c m.
       case find (\<lambda>x. pe_entry m x f = None) (map (PMEMoid 7) [64, 128, 192, 256, 320, 384, 448, 512]) of
         None \<Rightarrow> (OID_NULL, m)
       | Some x \<Rightarrow> if fst (c x (add_object x m)) = 0 then (x, splice_insert f h dest b x (add_object x m)) else (OID_NULL, m)),
     api_remove = (\<lambda>f h x fr m. (0, if fr \<noteq> 0 then drop_object x (splice_remove f h x m) else splice_remove f h x m)),
     api_move = (\<lambda>f h g k dest b x m. (0, splice_insert g k dest b x (splice_remove f h x m)))\<rparr>"

lemma relink_simps [simp]:
  "g \<noteq> f \<Longrightarrow> pe_entry (relink f x e p s n q m) y g = pe_entry m y g"
  "pe_entry (relink f x e p s n q m) x f = Some e"
  "y \<noteq> x \<Longrightarrow> pe_entry (relink f x e p s n q m) y f = map_option (\<lambda>(a, b). (if y = p then s else a, if y = n then q else b)) (pe_entry m y f)"
  "pe_first (relink f x e p s n q m) = pe_first m"
  by (simp_all add: relink_def)

lemma set_first_simps [simp]:
  "pe_entry (set_first h x m) = pe_entry m" "pe_first (set_first h x m) = (pe_first m)(h := x)"
  by (simp_all add: set_first_def)

lemma circular_set_first [simp]: "circular (set_first h x m) f xs = circular m f xs"
  by (simp add: circular_def linked_def)

lemma circular_Cons: "circular m f (d # ys) \<longleftrightarrow> distinct (d # ys) \<and> (\<forall>x\<in>set (d # ys). off x \<noteq> 0) \<and>
    (\<forall>(a, b)\<in>set (zip (butlast (d # ys)) ys). linked m f a b) \<and> linked m f (last (d # ys)) d"
  by (simp add: circular_def zip_shift del: zip_Cons_Cons) blast

lemma last_not_butlast: "distinct xs \<Longrightarrow> xs \<noteq> [] \<Longrightarrow> last xs \<notin> set (butlast xs)"
  by (cases xs rule: rev_cases) simp_all

lemma circular_head:
  assumes "circular m f (d # ys)"
  shows "prv m f d = last (d # ys)" and "nxt m f d = hd (ys @ [d])" and "\<exists>e. pe_entry m d f = Some e"
  using circular_entry [of m f "[]" d ys] assms by (simp_all add: nxt_def prv_def)

text \<open>Before the head of the list as it is read from \<open>d\<close> on.\<close>

lemma circular_splice:
  assumes c: "circular m f (d # ys)" and x: "x \<notin> set (d # ys)" "off x \<noteq> 0"
  shows "circular (relink f x (d, last (d # ys)) (last (d # ys)) x d x m) f (d # ys @ [x])"
proof -
  let ?p = "last (d # ys)" and ?m = "relink f x (d, last (d # ys)) (last (d # ys)) x d x m"
  from c have dist: "distinct (d # ys)" and nn: "\<forall>x\<in>set (d # ys). off x \<noteq> 0"
    and links: "\<And>a b. (a, b) \<in> set (zip (butlast (d # ys)) ys) \<Longrightarrow> linked m f a b" and closes: "linked m f ?p d"
    by (auto simp only: circular_Cons)
  have p: "?p \<in> set (d # ys)" by (rule last_in_set) simp
  have "linked ?m f a b" if ab: "(a, b) \<in> set (zip (butlast (d # ys)) ys)" for a b
  proof -
    from ab have "a \<in> set (butlast (d # ys))" "b \<in> set ys" by (auto dest: set_zip_leftD set_zip_rightD)
    then have "a \<in> set (d # ys)" "a \<noteq> ?p" "b \<noteq> d" "b \<in> set (d # ys)"
      using last_not_butlast [OF dist] dist by (auto dest: in_set_butlastD simp del: butlast.simps last.simps)
    moreover from this x(1) have "a \<noteq> x" "b \<noteq> x" by blast+
    ultimately show ?thesis using links [OF ab] by (auto simp: linked_def simp del: last.simps)
  qed
  moreover from p x(1) have "?p \<noteq> x" by metis
  then have "linked ?m f ?p x" using closes by (auto simp: linked_def simp del: last.simps)
  moreover have "linked ?m f x d" using closes x(1) by (auto simp: linked_def)
  moreover have "zip (butlast (d # ys @ [x])) (ys @ [x]) = zip (butlast (d # ys)) ys @ [(?p, x)]"
    using zip_shift [of d ys x] by (simp add: butlast_append)
  ultimately show ?thesis
    unfolding circular_Cons using dist nn x by (auto simp del: butlast.simps last.simps) (simp_all add: last_append)
qed

lemma circular_unlink:
  assumes c: "circular m f (x # ys)" and ne: "ys \<noteq> []"
  shows "circular (relink f x (OID_NULL, OID_NULL) (last ys) (hd ys) (hd ys) (last ys) m) f ys"
proof -
  obtain z zs where ys: "ys = z # zs" using ne by (cases ys) auto
  let ?m = "relink f x (OID_NULL, OID_NULL) (last ys) z z (last ys) m"
  from c have dist: "distinct (x # z # zs)" and nn: "\<forall>y\<in>set (z # zs). off y \<noteq> 0"
    and xz: "linked m f x z" and links: "\<And>a b. (a, b) \<in> set (zip (butlast (z # zs)) zs) \<Longrightarrow> linked m f a b" and closes: "linked m f (last ys) x"
    unfolding ys circular_Cons by auto
  have p: "last ys \<in> set (z # zs)" unfolding ys by (rule last_in_set) simp
  have "linked ?m f a b" if ab: "(a, b) \<in> set (zip (butlast (z # zs)) zs)" for a b
  proof -
    from ab have "a \<in> set (butlast (z # zs))" "b \<in> set zs" by (auto dest: set_zip_leftD set_zip_rightD)
    moreover have "last ys \<notin> set (butlast (z # zs))" using last_not_butlast [of "z # zs"] dist ys by simp
    ultimately have "a \<in> set (z # zs)" "a \<noteq> last ys" "b \<noteq> z" "b \<in> set (z # zs)"
      using dist by (auto dest: in_set_butlastD simp del: butlast.simps)
    moreover from this dist have "a \<noteq> x" "b \<noteq> x" by (metis distinct.simps(2))+
    ultimately show ?thesis using links [OF ab] by (auto simp: linked_def simp del: last.simps)
  qed
  moreover from p dist have "last ys \<noteq> x" by (metis distinct.simps(2))
  then have "linked ?m f (last ys) z" using closes xz dist by (auto simp: linked_def simp del: last.simps)
  ultimately show ?thesis using dist nn unfolding ys circular_Cons by (auto simp del: butlast.simps last.simps)
qed

lemma circular_put:
  assumes c: "circular m f (us @ d # vs)" and x: "x \<notin> set (us @ d # vs)" "off x \<noteq> 0"
  shows "circular (relink f x (d, prv m f d) (prv m f d) x d x m) f (us @ x # d # vs)" and "prv m f d \<in> set (us @ d # vs)"
proof -
  have c: "circular m f (d # vs @ us)" using circular_swap [of m f us "d # vs"] c by simp
  have p: "prv m f d = last (d # vs @ us)" by (rule circular_head(1) [OF c])
  have "last (d # vs @ us) \<in> set (d # vs @ us)" by (rule last_in_set) simp
  then show "prv m f d \<in> set (us @ d # vs)" unfolding p by auto
  have "circular (relink f x (d, prv m f d) (prv m f d) x d x m) f ((d # vs) @ us @ [x])"
    using circular_splice [OF c] x unfolding p by simp
  then show "circular (relink f x (d, prv m f d) (prv m f d) x d x m) f (us @ x # d # vs)"
    using circular_swap [of _ f "d # vs" "us @ [x]"] by simp
qed

lemma insert_before_split: "d \<notin> set us \<Longrightarrow> insert_before d x (us @ d # vs) = us @ x # d # vs"
  by (induction us) auto

lemma insert_after_split: "d \<notin> set us \<Longrightarrow> insert_after d x (us @ d # vs) = us @ d # x # vs"
  by (induction us) auto

lemma relink_other:
  assumes "y \<noteq> x" "y \<noteq> p" "y \<noteq> n"
  shows "pe_entry (relink f x e p s n q m) y g = pe_entry m y g"
  using assms by (cases "pe_entry m y g"; cases "g = f") auto

lemma relink_frame:
  assumes "x \<in> X" "p \<in> X" "n \<in> X"
  shows "untouched m (relink f x e p s n q m) (X \<times> {f}) {h}" and "untouched m (set_first h z (relink f x e p s n q m)) (X \<times> {f}) {h}"
proof -
  have "pe_entry (relink f x e p s n q m) y g = pe_entry m y g" if "(y, g) \<notin> X \<times> {f}" for y g
    using that assms by (cases "g = f") (auto intro!: relink_other)
  then show "untouched m (relink f x e p s n q m) (X \<times> {f}) {h}" and "untouched m (set_first h z (relink f x e p s n q m)) (X \<times> {f}) {h}"
    by (simp_all add: untouched_def)
qed

lemma relink_same:
  assumes "pe_entry m x f \<noteq> None"
  shows "same_objects m (relink f x e p s n q m)" and "same_objects m (set_first h z (relink f x e p s n q m))"
  using assms by (auto simp: same_objects_def relink_def)

lemma is_list_rest: "is_list m h f (us @ y # vs) \<Longrightarrow> pe_first m h = hd (us @ [y]) \<and> circular m f (us @ y # vs) \<and> distinct (us @ y # vs)"
  by (cases us) (auto simp: is_list_def circular_def)

lemma splice_insert_list:
  assumes l: "is_list m h f xs" and x: "off x \<noteq> 0" "x \<notin> set xs" and dest: "OID_IS_NULL dest \<or> dest \<in> set xs"
  shows "is_list (splice_insert f h dest b x m) h f (place dest b x xs)"
proof (cases xs)
  case Nil
  have "circular (relink f x (x, x) x x x x m) f [x]" using x(1) by (simp add: circular_def linked_def)
  with Nil l dest show ?thesis by (auto simp: is_list_def splice_insert_def place_def OID_IS_NULL_def)
next
  case (Cons z zs)
  have z: "\<not> OID_IS_NULL z" "pe_first m h = z" using l Cons by (auto simp: is_list_def circular_def OID_IS_NULL_def)
  have c: "circular m f (z # zs)" using l Cons by (simp add: is_list_def)
  have at: "circular (relink f x (d, prv m f d) (prv m f d) x d x m) f (us @ x # d # vs)" if "xs = us @ d # vs" for us d vs
    using circular_put(1) [of m f us d vs x] l x that by (simp add: is_list_def)
  have tail: "circular (relink f x (z, prv m f z) (prv m f z) x z x m) f (z # zs @ [x])"
    using at [of "[]" z zs] Cons circular_swap [of _ f "[x]" "z # zs"] by simp
  show ?thesis
  proof (cases "OID_IS_NULL dest")
    case True
    with z Cons at [of "[]" z zs] tail show ?thesis by (auto simp: splice_insert_def Let_def is_list_def place_def)
  next
    case False
    with dest obtain us vs where xs: "xs = us @ dest # vs" "dest \<notin> set us" by (metis split_list_first)
    have zu: "z = hd (us @ [dest])" using Cons xs(1) by (cases us) auto
    show ?thesis
    proof (cases "b = 0")
      case True
      have nx: "nxt m f dest = hd (vs @ us @ [dest])"
        using circular_entry [of m f us dest vs] l xs by (simp add: is_list_def nxt_def)
      have "circular (relink f x (nxt m f dest, prv m f (nxt m f dest)) (prv m f (nxt m f dest)) x (nxt m f dest) x m) f (us @ dest # x # vs)"
      proof (cases vs)
        case Nil
        with tail nx zu Cons xs show ?thesis by (metis append.assoc append_Cons append_Nil)
      next
        case (Cons v ws)
        with at [of "us @ [dest]" v ws] nx xs show ?thesis by simp
      qed
      moreover have "place dest b x xs = us @ dest # x # vs"
        using True False insert_after_split [OF xs(2)] by (simp add: place_def xs(1))
      ultimately show ?thesis using True False z zu
        by (cases us) (simp_all add: splice_insert_def Let_def is_list_def)
    next
      case nz: False
      have "z = dest \<longleftrightarrow> us = []" using zu xs(2) by (cases us) auto
      moreover have "place dest b x xs = us @ x # dest # vs"
        using nz False insert_before_split [OF xs(2)] by (simp add: place_def xs(1))
      ultimately show ?thesis using nz False z zu at [OF xs(1)]
        by (cases us) (simp_all add: splice_insert_def Let_def is_list_def)
    qed
  qed
qed

lemma splice_insert_frame:
  assumes l: "is_list m h f xs" and dest: "OID_IS_NULL dest \<or> dest \<in> set xs" and e: "pe_entry m x f \<noteq> None"
  shows "untouched m (splice_insert f h dest b x m) (insert x (set xs) \<times> {f}) {h}" and "same_objects m (splice_insert f h dest b x m)"
proof -
  have d: "d \<in> set xs" "prv m f d \<in> set xs" if "xs = us @ d # vs" for us d vs
    using circular_entry [of m f us d vs] l that last_in_set [of "d # vs @ us"]
    by (auto simp: is_list_def prv_def simp del: last_in_set last.simps)
  have in_list: "y \<in> set xs \<and> prv m f y \<in> set xs" if "y \<in> set xs" for y using d that by (metis split_list)
  have next_in: "nxt m f y \<in> set xs" if "y \<in> set xs" for y
  proof -
    from that obtain us vs where xs: "xs = us @ y # vs" by (metis split_list)
    have "nxt m f y = hd (vs @ us @ [y])" using circular_entry [of m f us y vs] l xs by (simp add: is_list_def nxt_def)
    moreover have "hd (vs @ us @ [y]) \<in> set (vs @ us @ [y])" by (rule hd_in_set) simp
    ultimately show ?thesis using xs by auto
  qed
  have "pe_first m h \<in> set xs" if "\<not> OID_IS_NULL (pe_first m h)" using that l by (cases xs) (auto simp: is_list_def)
  then have mem: "OID_IS_NULL (pe_first m h) \<or> (d \<in> set xs \<and> prv m f d \<in> set xs)"
    if "d = (if OID_IS_NULL dest then pe_first m h else if b \<noteq> 0 then dest else nxt m f dest)" for d
    using that dest in_list [of d] next_in [of dest] by (auto split: if_splits)
  define Y where "Y = insert x (set xs)"
  have Y: "x \<in> Y" "y \<in> set xs \<Longrightarrow> y \<in> Y" for y by (simp_all add: Y_def)
  show "untouched m (splice_insert f h dest b x m) (insert x (set xs) \<times> {f}) {h}"
    unfolding Y_def [symmetric] using mem [OF refl] Y by (auto simp: splice_insert_def Let_def relink_frame split: if_splits)
  show "same_objects m (splice_insert f h dest b x m)" using relink_same [of m x f] e by (simp add: splice_insert_def Let_def)
qed

lemma splice_remove_list:
  assumes l: "is_list m h f xs" and x: "x \<in> set xs"
  shows "is_list (splice_remove f h x m) h f (remove1 x xs)" and "untouched m (splice_remove f h x m) (set xs \<times> {f}) {h}"
    and "same_objects m (splice_remove f h x m)"
proof -
  from x obtain us vs where xs: "xs = us @ x # vs" "x \<notin> set us" by (metis split_list_first)
  from is_list_rest [of m h f us x vs] l have c: "circular m f (us @ x # vs)" and first: "pe_first m h = hd (us @ [x])"
    unfolding xs(1) by blast+
  from c have c: "circular m f (x # vs @ us)" using circular_swap [of m f us "x # vs"] by simp
  have dist: "distinct (x # vs @ us)" using c by (simp add: circular_def)
  note ends = circular_head [OF c]
  have rm: "remove1 x xs = us @ vs" using xs by (simp add: remove1_append)
  have here: "pe_entry m x f \<noteq> None" using ends(3) by auto
  have ins: "nxt m f x \<in> set xs" "prv m f x \<in> set xs"
    using ends(1,2) hd_in_set [of "vs @ us @ [x]"] last_in_set [of "x # vs @ us"] xs by auto
  then show "untouched m (splice_remove f h x m) (set xs \<times> {f}) {h}"
    using x by (auto simp: splice_remove_def Let_def intro!: relink_frame)
  show "same_objects m (splice_remove f h x m)" using relink_same [OF here] by (simp add: splice_remove_def Let_def)
  show "is_list (splice_remove f h x m) h f (remove1 x xs)"
  proof (cases "vs @ us = []")
    case True
    with ends rm show ?thesis by (simp add: splice_remove_def Let_def is_list_def circular_def)
  next
    case False
    have n: "nxt m f x = hd (vs @ us)" "prv m f x = last (vs @ us)" using ends(1,2) False by (cases vs; auto)+
    have "nxt m f x \<noteq> x" using n(1) hd_in_set [OF False] dist by auto
    moreover have "circular (relink f x (OID_NULL, OID_NULL) (prv m f x) (nxt m f x) (nxt m f x) (prv m f x) m) f (us @ vs)"
      using circular_unlink [OF c False] circular_swap [of _ f us vs] unfolding n by simp
    moreover have "pe_first m h = x \<longleftrightarrow> us = []" using first xs(2) by (cases us) auto
    ultimately show ?thesis using n first rm False by (cases us; cases vs) (auto simp: splice_remove_def Let_def is_list_def)
  qed
qed

lemma is_list_distinct: "is_list m h f xs \<Longrightarrow> distinct xs"
  by (simp add: is_list_def circular_def)

lemma add_object_list: "is_list m h f xs \<Longrightarrow> pe_entry m x f = None \<Longrightarrow> x \<notin> set xs \<and> is_list (add_object x m) h f xs"
proof (intro conjI)
  assume l: "is_list m h f xs" and x: "pe_entry m x f = None"
  show nx: "x \<notin> set xs"
  proof
    assume "x \<in> set xs"
    then obtain us vs where "xs = us @ x # vs" by (metis split_list)
    with circular_entry [of m f us x vs] l x show False by (simp add: is_list_def)
  qed
  show "is_list (add_object x m) h f xs"
    by (rule is_list_untouched [OF l, of _ "{x} \<times> UNIV" "{}"]) (use nx in \<open>auto simp: untouched_def add_object_def\<close>)
qed

lemma splice_remove_free:
  assumes l: "is_list m h f xs" and x: "x \<in> set xs"
  shows "is_list (drop_object x (splice_remove f h x m)) h f (remove1 x xs)"
    and "untouched m (drop_object x (splice_remove f h x m)) (set xs \<times> {f} \<union> {x} \<times> UNIV) {h}"
    and "y \<noteq> x \<Longrightarrow> pe_entry (drop_object x (splice_remove f h x m)) y g = None \<longleftrightarrow> pe_entry m y g = None"
proof -
  have drop: "untouched m' (drop_object x m') ({x} \<times> UNIV) {}" for m' by (simp add: untouched_def drop_object_def)
  show "is_list (drop_object x (splice_remove f h x m)) h f (remove1 x xs)"
    by (rule is_list_untouched [OF splice_remove_list(1) [OF l x] drop]) (use is_list_distinct [OF l] in auto)
  show "untouched m (drop_object x (splice_remove f h x m)) (set xs \<times> {f} \<union> {x} \<times> UNIV) {h}"
    using drop [of "splice_remove f h x m"] splice_remove_list(2) [OF l x] by (simp add: untouched_def)
  show "y \<noteq> x \<Longrightarrow> pe_entry (drop_object x (splice_remove f h x m)) y g = None \<longleftrightarrow> pe_entry m y g = None"
    using splice_remove_list(3) [OF l x] by (simp add: drop_object_def same_objects_def)
qed

lemma splice_move:
  fixes b :: int
  assumes l: "is_list m h f xs" and k: "is_list m k g ys" "h \<noteq> k" "f = g \<Longrightarrow> set xs \<inter> set ys = {}" and x: "x \<in> set xs" "x \<notin> set ys"
    and dest: "OID_IS_NULL dest \<or> dest \<in> set ys" and e: "pe_entry m x g \<noteq> None"
  defines "m' \<equiv> splice_insert g k dest b x (splice_remove f h x m)"
  shows "is_list m' h f (remove1 x xs)" and "is_list m' k g (place dest b x ys)"
    and "untouched m m' (set xs \<times> {f} \<union> insert x (set ys) \<times> {g}) {h, k}" and "same_objects m m'"
proof -
  note rm = splice_remove_list [OF l x(1)]
  have k': "is_list (splice_remove f h x m) k g ys" by (rule is_list_untouched [OF k(1) rm(2)]) (use k in auto)
  have e': "pe_entry (splice_remove f h x m) x g \<noteq> None" using e rm(3) by (simp add: same_objects_def)
  note ins = splice_insert_frame [OF k' dest e', of b, folded m'_def]
  show "is_list m' k g (place dest b x ys)"
    unfolding m'_def by (rule splice_insert_list [OF k' is_list_not_null [OF l x(1)] x(2) dest])
  show "is_list m' h f (remove1 x xs)"
    by (rule is_list_untouched [OF rm(1) ins(1)]) (use k is_list_distinct [OF l] in auto)
  show "untouched m m' (set xs \<times> {f} \<union> insert x (set ys) \<times> {g}) {h, k}" using rm(2) ins(1) by (simp add: untouched_def)
  show "same_objects m m'" using rm(3) ins(2) by (simp add: same_objects_def)
qed

lemma splice_new:
  assumes l: "is_list m h f xs" and dest: "OID_IS_NULL dest \<or> dest \<in> set xs"
    and run: "api_insert_new splice_api f h dest b sz n c m = (x, m')" and x: "\<not> OID_IS_NULL x"
  shows "x \<notin> set xs \<and> is_list m' h f (place dest b x xs)"
proof -
  from run x have free: "pe_entry m x f = None" and m': "m' = splice_insert f h dest b x (add_object x m)"
    by (auto simp: splice_api_def find_Some_iff OID_IS_NULL_def split: option.splits if_splits)
  note new = add_object_list [OF l free]
  show ?thesis using splice_insert_list [OF conjunct2 [OF new] _ conjunct1 [OF new] dest] x new by (simp add: m' OID_IS_NULL_def)
qed

lemma splice_api_simps [simp]:
  "api_insert splice_api f h dest b x m = (0, splice_insert f h dest b x m)"
  "api_remove splice_api f h x fr m = (0, if fr \<noteq> 0 then drop_object x (splice_remove f h x m) else splice_remove f h x m)"
  "api_move splice_api f h g k dest b x m = (0, splice_insert g k dest b x (splice_remove f h x m))"
  by (simp_all add: splice_api_def)

interpretation splice: atomic_lists splice_api
proof (unfold_locales, goal_cases)
  case (1 m h f xs x dest b)
  then show ?case using splice_insert_list [of m h f xs x dest b] splice_insert_frame [of m h f xs dest x b] by simp
next
  case (2 m h f xs dest b sz n c x m')
  then show ?case by (rule splice_new)
next
  case (3 m h f xs x)
  then show ?case using splice_remove_list [of m h f xs x] by simp
next
  case (4 m h f xs x)
  then show ?case using splice_remove_free [of m h f xs x] by simp
next
  case (5 m h f xs k g ys x dest b)
  then show ?case using splice_move [of m h f xs k g ys x dest b] by simp
qed

section \<open>Properties\<close>

text \<open>C23: Programs of list operations, with any library that meets the contract, mean what they say about lists: from a memory whose links form the
  lists \<open>l\<close>, every sequence of admissible insertions, removals, moves, walks and reads of the ends runs without a fault, returns the
  results of the same operations on lists of handles, and ends in a memory whose links form the resulting lists.\<close>

theorem list_programs_refine_lists:
  assumes "atomic_lists A" and "lists_rep F m l" and "ok_all spec_list (ok_list F) cs l"
  shows "\<exists>m'. run_all (exec_list A F) cs m = (Val (fst (spec_all spec_list cs l)), m') \<and> lists_rep F m' (snd (spec_all spec_list cs l))"
  using simulation.run_refines [OF atomic_lists.list_commands_simulate [OF assms(1)] assms(2,3)] by (metis prod.collapse)

text \<open>Three objects, two lists through one field.\<close>

definition demo_mem :: list_mem where
  "demo_mem = \<lparr>pe_first = (\<lambda>h. OID_NULL), pe_entry = (\<lambda>x f. Some (OID_NULL, OID_NULL))\<rparr>"

abbreviation elem :: "nat \<Rightarrow> PMEMoid" where
  "elem k \<equiv> PMEMoid 7 (of_nat k)"

lemma demo_mem_rep: "(\<And>x. x \<in> Ob \<Longrightarrow> off x \<noteq> 0) \<Longrightarrow> lists_rep F demo_mem (\<lambda>h. [], Ob)"
  by (simp add: lists_rep_def is_list_def circular_def demo_mem_def)

theorem list_programs_refine_lists_witness:
  "\<exists>m'. run_all (exec_list splice_api (\<lambda>h. 8))
      [Insert_head 0 (elem 1), Insert_tail 0 (elem 2), Insert_before 0 (elem 2) (elem 3), Visit 0, Move_head 0 1 (elem 3), Visit_reverse 0, Ends 1]
      demo_mem =
    (Val [Code 0, Code 0, Code 0, Elements [elem 1, elem 3, elem 2], Code 0, Elements [elem 2, elem 1], First_last (elem 3) (elem 3) False], m')"
proof -
  have "lists_rep (\<lambda>h. 8) demo_mem (\<lambda>h. [], {elem 1, elem 2, elem 3})" by (rule demo_mem_rep) auto
  from list_programs_refine_lists [OF splice.atomic_lists_axioms this,
      of "[Insert_head 0 (elem 1), Insert_tail 0 (elem 2), Insert_before 0 (elem 2) (elem 3), Visit 0, Move_head 0 1 (elem 3), Visit_reverse 0, Ends 1]"]
  show ?thesis by (auto simp: can_insert_def can_move_def moved_def)
qed

text \<open>C27: The loops visit each element of a list once, \<open>FOREACH\<close> from the first on and \<open>FOREACH_REVERSE\<close> from the last back, and end, whatever
  the body does with its other data while it leaves the memory of the lists alone. An empty list is not entered.\<close>

theorem list_loops_visit_each_element:
  assumes "is_list m h f xs" and "\<And>x v. x \<in> set xs \<Longrightarrow> body x (m, v) = (Val (), m, g x v)"
  shows "POBJ_LIST_FOREACH h f body (m, v) = Some (Val (), m, fold g xs v) \<and>
    POBJ_LIST_FOREACH_REVERSE h f body (m, v) = Some (Val (), m, fold g (rev xs) v)"
  using foreach_list_run [where g = g] reverse_list_run [where g = g] assms by blast

definition chain_mem :: list_mem where
  "chain_mem = \<lparr>pe_first = (\<lambda>h. elem 1), pe_entry = (\<lambda>x f. if x = elem 1 then Some (elem 2, elem 2) else if x = elem 2 then Some (elem 1, elem 1) else None)\<rparr>"

lemma chain_mem_list: "is_list chain_mem 0 8 [elem 1, elem 2]"
  by (simp add: is_list_def circular_def linked_def chain_mem_def)

theorem list_loops_visit_each_element_witness:
  "POBJ_LIST_FOREACH 0 8 note_elem (chain_mem, []) = Some (Val (), chain_mem, [elem 1, elem 2]) \<and>
    POBJ_LIST_FOREACH_REVERSE 0 8 note_elem (chain_mem, []) = Some (Val (), chain_mem, [elem 2, elem 1])"
  using list_loops_visit_each_element [OF chain_mem_list, of note_elem "\<lambda>x v. v @ [x]" "[]"] by (simp add: note_elem_def modC_def)

text \<open>A new element takes the place that its macro names: before the first or after the last element, after or before the given one.\<close>

theorem new_element_takes_its_place:
  assumes "atomic_lists A" and "is_list m h f xs" and "d \<in> set xs" and "\<not> OID_IS_NULL x"
    and "mk = POBJ_LIST_INSERT_NEW_HEAD A D t h \<and> ys = x # xs \<or>
      mk = POBJ_LIST_INSERT_NEW_TAIL A D t h \<and> ys = xs @ [x] \<or>
      mk = POBJ_LIST_INSERT_NEW_AFTER A D t h d \<and> ys = insert_after d x xs \<or>
      mk = POBJ_LIST_INSERT_NEW_BEFORE A D t h d \<and> ys = insert_before d x xs"
    and "mk f sz c m = Some (x, m')"
  shows "x \<notin> set xs \<and> is_list m' h f ys"
proof -
  have new: "x \<notin> set xs \<and> is_list m' h f (place dest b x xs)"
    if "OID_IS_NULL dest \<or> dest \<in> set xs" "api_insert_new A f h dest b sz n c m = (x, m')" for dest b n
    by (rule atomic_lists.insert_new [OF assms(1,2) that assms(4)])
  have d: "off d \<noteq> 0" using is_list_not_null [OF assms(2,3)] .
  show ?thesis
    using assms(3,5,6) new [of OID_NULL 1] new [of OID_NULL 0] new [of d 0] new [of d 1] null_place elem_place [OF d]
    by (auto simp: POBJ_LIST_INSERT_NEW_HEAD_def POBJ_LIST_INSERT_NEW_TAIL_def POBJ_LIST_INSERT_NEW_AFTER_def POBJ_LIST_INSERT_NEW_BEFORE_def
        POBJ_LIST_DEST_HEAD_def POBJ_LIST_DEST_TAIL_def)
qed

theorem new_element_takes_its_place_witness:
  "\<exists>m'. POBJ_LIST_INSERT_NEW_AFTER splice_api demo_decls ''foo_el'' 0 (elem 1) 8 16 (\<lambda>x m. (0, m)) chain_mem = Some (elem 64, m') \<and>
    is_list m' 0 8 [elem 1, elem 64, elem 2]"
proof -
  obtain m' where "POBJ_LIST_INSERT_NEW_AFTER splice_api demo_decls ''foo_el'' 0 (elem 1) 8 16 (\<lambda>x m. (0, m)) chain_mem = Some (elem 64, m')"
    by (simp add: POBJ_LIST_INSERT_NEW_AFTER_def splice_api_def TOID_TYPE_NUM_def demo_decls_def chain_mem_def)
  with new_element_takes_its_place [OF splice.atomic_lists_axioms chain_mem_list, of "elem 1" "elem 64"
      "POBJ_LIST_INSERT_NEW_AFTER splice_api demo_decls ''foo_el'' 0 (elem 1)" demo_decls "''foo_el''" "[elem 1, elem 64, elem 2]" 16] show ?thesis
    by (auto simp: OID_IS_NULL_def)
qed

end
