(* ===== verification/Test_Driver.thy ===== *)
theory Test_Driver
  imports Pmem_Hash_Map
begin

text \<open>
  The test program \<open>src/tests/test_pmem_hash_map.cc\<close>: the class \<open>Content\<close> it stores in a
  \<open>pmem_hash_map<Content>\<close> and the loop that fills the map. \<open>char\<close> is signed, so a byte is sign-extended when it is
  added to the hash. The pointer \<open>p_content\<close> of \<open>main\<close> is the volatile state; what \<open>main\<close> prints is its result, as a list of
  items, but for the progress lines of the loop that fills the map. Whether the file exists, whether the pool can be opened or created
  and where its root object lies are arguments. One closing brace is missing in \<open>main\<close>; it is read as the end of the \<open>else\<close> branch.
\<close>

section \<open>Content\<close>

fun get_content :: "(Content \<Rightarrow> 'f) \<Rightarrow> pobj \<Rightarrow> 'f option" where
  "get_content f (TestContent c) = Some (f c)"
| "get_content f _ = None"

fun set_content :: "(('f \<Rightarrow> 'f) \<Rightarrow> Content \<Rightarrow> Content) \<Rightarrow> 'f \<Rightarrow> pobj \<Rightarrow> pobj" where
  "set_content u x (TestContent c) = TestContent (u (\<lambda>_. x) c)"
| "set_content u x ob = ob"

abbreviation content_get :: "nat \<Rightarrow> (Content \<Rightarrow> 'f) \<Rightarrow> ('v, 'f) prog" where
  "content_get a f \<equiv> pread a (get_content f)"

abbreviation content_set ::
  "pobj libpmemobj \<Rightarrow> nat \<Rightarrow> (Content \<Rightarrow> 'f) \<Rightarrow> (('f \<Rightarrow> 'f) \<Rightarrow> Content \<Rightarrow> Content) \<Rightarrow> 'f \<Rightarrow> ('v, unit) prog" where
  "content_set L a f u x \<equiv> p_assign L a (get_content f) (set_content u) x"

definition Content_ctor :: "pobj libpmemobj \<Rightarrow> byte list \<Rightarrow> u64 \<Rightarrow> nat \<Rightarrow> ('v, unit) prog" where
  "Content_ctor L pfx rsize a =
     transaction_run L
       (thenC (content_set L a content_bufSize content_bufSize_update rsize)
       (thenC (content_set L a content_prefixLen content_prefixLen_update (of_nat (length pfx)))
       (bindC (content_get a content_prefixLen) (\<lambda>n.
        bindC (make_persistent_array L (unat n) (Bytes (replicate (unat n) 0))) (\<lambda>b.
        thenC (content_set L a content_prefix content_prefix_update b)
        (bindC (content_get a content_prefix) (\<lambda>b'. memcpy_to b' 0 pfx)))))))"

text \<open>\<open>hashCode(prefix)\<close> and \<open>hashCode()\<close>. The second runs over \<open>bufSize_\<close> bytes of \<open>prefix_\<close>.\<close>

definition add_char :: "u64 \<Rightarrow> byte \<Rightarrow> u64" where
  "add_char v c = v + scast c"

definition content_hashCode_of :: "byte list \<Rightarrow> u64" where
  "content_hashCode_of pfx = foldl add_char 0 pfx"

fun content_hash_loop :: "byte list \<Rightarrow> nat \<Rightarrow> nat \<Rightarrow> u64 \<Rightarrow> u64 outcome" where
  "content_hash_loop bs i 0 v = Val v"
| "content_hash_loop bs i (Suc n) v =
     (if i < length bs then content_hash_loop bs (Suc i) n (add_char v (bs ! i)) else Die Out_of_bounds)"

definition content_hashCode :: "nat \<Rightarrow> ('v, u64) prog" where
  "content_hashCode a =
     bindC (content_get a content_bufSize) (\<lambda>n.
     if n = 0 then returnC 0
     else bindC (content_get a content_prefix) (\<lambda>b.
       bindC (pread b get_bytes) (\<lambda>bs. liftO (content_hash_loop bs 0 (unat n) 0))))"

section \<open>The loop of main\<close>

text \<open>\<open>std::to_string\<close> of a number that is not negative.\<close>

fun decimal :: "nat \<Rightarrow> byte list" where
  "decimal n = (if n < 10 then [48 + of_nat n] else decimal (n div 10) @ [48 + of_nat (n mod 10)])"

declare decimal.simps [simp del]

definition get_p_content :: "(nat, nat) prog" where
  "get_p_content = (\<lambda>(v, p). (Val v, v, p))"

definition set_p_content :: "nat \<Rightarrow> (nat, unit) prog" where
  "set_p_content c = (\<lambda>(v, p). (Val (), c, p))"

definition raw_content :: pobj where
  "raw_content = TestContent \<lparr>content_prefix = 0, content_prefixLen = 0, content_bufSize = 0\<rparr>"

definition store_content :: "pobj libpmemobj \<Rightarrow> nat \<Rightarrow> byte list \<Rightarrow> u64 \<Rightarrow> (nat, unit) prog" where
  "store_content L p_map str val =
     thenC (transaction_run L (bindC (make_persistent L 32 raw_content (Content_ctor L str val)) set_p_content))
       (bindC get_p_content (\<lambda>c. map_put L content_hashCode p_map c))"

definition test_put :: "pobj libpmemobj \<Rightarrow> nat \<Rightarrow> nat \<Rightarrow> (nat, unit) prog" where
  "test_put L p_map i = (let val = 2 * 2 ^ i in store_content L p_map (decimal val) (of_nat val))"

fun test_puts :: "pobj libpmemobj \<Rightarrow> nat \<Rightarrow> nat \<Rightarrow> nat \<Rightarrow> (nat, unit) prog" where
  "test_puts L p_map i 0 = returnC ()"
| "test_puts L p_map i (Suc n) = thenC (test_put L p_map i) (test_puts L p_map (Suc i) n)"

section \<open>The output of main\<close>

datatype printed =
    Create_pool | Open_pool | Vector_len nat | Index nat | Prefix_len u64 | Buf_size u64
  | Prefix_chars "byte list" | Prefix_str "byte list"

text \<open>The loop of \<open>putchar(cont->prefix_[j])\<close>.\<close>

fun put_chars :: "byte list \<Rightarrow> nat \<Rightarrow> nat \<Rightarrow> byte list outcome" where
  "put_chars bs j 0 = Val []"
| "put_chars bs j (Suc n) =
     (if j < length bs then bindO (put_chars bs (Suc j) n) (\<lambda>cs. Val (bs ! j # cs)) else Die Out_of_bounds)"

definition prefix_bytes :: "nat \<Rightarrow> u64 \<Rightarrow> ('v, byte list) prog" where
  "prefix_bytes a n = (if n = 0 then returnC [] else bindC (content_get a content_prefix) (\<lambda>b. pread b get_bytes))"

definition print_content :: "nat \<Rightarrow> nat \<Rightarrow> ('v, printed list) prog" where
  "print_content i cont =
     bindC (content_get cont content_prefixLen) (\<lambda>n.
     bindC (content_get cont content_bufSize) (\<lambda>sz.
     bindC (prefix_bytes cont n) (\<lambda>bs.
     bindC (liftO (put_chars bs 0 (unat n))) (\<lambda>cs.
     bindC (liftO (the_or_die Out_of_bounds (peek bs 0 (unat n)))) (\<lambda>str.
       returnC [Index i, Prefix_len n, Buf_size sz, Prefix_chars cs, Prefix_str str])))))"

fun print_contents :: "nat \<Rightarrow> nat list \<Rightarrow> ('v, printed list) prog" where
  "print_contents i [] = returnC []"
| "print_contents i (cont # contentVec) =
     bindC (print_content i cont) (\<lambda>out. bindC (print_contents (Suc i) contentVec) (\<lambda>rest. returnC (out @ rest)))"

definition test_print :: "nat \<Rightarrow> ('v, printed list) prog" where
  "test_print p_map =
     bindC (getAll p_map []) (\<lambda>contentVec.
     bindC (print_contents 0 contentVec) (\<lambda>out. returnC (Vector_len (length contentVec) # out)))"

text \<open>\<open>file_exists\<close> is the result of \<open>access\<close>, which is 0 for a file that exists; \<open>opened\<close> says whether \<open>create\<close> or \<open>open\<close> succeeds.\<close>

definition test_open :: "pobj libpmemobj \<Rightarrow> int \<Rightarrow> bool \<Rightarrow> nat \<Rightarrow> ('v, printed list) prog" where
  "test_open L file_exists opened p_map =
     (if \<not> opened then throwC Pool_error
      else if file_exists \<noteq> 0 then thenC (hash_map_init L (3, 2) 32 p_map) (returnC [Create_pool])
      else returnC [Open_pool])"

definition test_main :: "pobj libpmemobj \<Rightarrow> int \<Rightarrow> bool \<Rightarrow> nat \<Rightarrow> int \<Rightarrow> (nat, printed list) prog" where
  "test_main L file_exists opened p_map argc =
     bindC (test_open L file_exists opened p_map) (\<lambda>out.
     thenC (set_p_content 0)
     (if 1 < argc then thenC (test_puts L p_map 0 13) (returnC out)
      else bindC (test_print p_map) (\<lambda>rest. returnC (out @ rest))))"

section \<open>The hash of a content\<close>

lemma content_hash_loop_run:
  "i \<le> length bs \<Longrightarrow> content_hash_loop bs i n v =
     (if i + n \<le> length bs then Val (foldl add_char v (take n (drop i bs))) else Die Out_of_bounds)"
proof (induction n arbitrary: i v)
  case (Suc n)
  show ?case
  proof (cases "i < length bs")
    case True
    then have "take (Suc n) (drop i bs) = bs ! i # take n (drop (Suc i) bs)" by (simp add: Cons_nth_drop_Suc [symmetric])
    with True Suc.IH [of "Suc i"] show ?thesis by simp
  qed (use Suc.prems in simp)
qed simp

lemma content_hashCode_run:
  assumes "heap p a = Some (TestContent c)" "heap p (content_prefix c) = Some (Bytes bs)"
  shows "content_hashCode a (v, p) =
    (if unat (content_bufSize c) \<le> length bs
     then Val (content_hashCode_of (take (unat (content_bufSize c)) bs)) else Die Out_of_bounds, v, p)"
  using assms
  by (simp add: content_hashCode_def exec_simps pread_def content_hash_loop_run content_hashCode_of_def liftO_def)

section \<open>Construction\<close>

context steady_env
begin

lemma nested_run:
  assumes "idle p" "tx (v, (open_pool (open_pool p))\<lparr>heap := h, undo_log := us\<rparr>) =
      (Val (), v', (open_pool (open_pool p))\<lparr>heap := h', undo_log := us'\<rparr>)"
  shows "transaction_run L tx (v, (open_pool p)\<lparr>heap := h, undo_log := us\<rparr>) =
      (Val (), v', (open_pool p)\<lparr>heap := h', undo_log := us'\<rparr>)"
proof -
  let ?q = "(open_pool p)\<lparr>heap := h, undo_log := us\<rparr>"
  have q: "open_pool ?q = (open_pool (open_pool p))\<lparr>heap := h, undo_log := us\<rparr>" by (simp add: open_pool_def)
  have "transaction_run L tx (v, ?q) = close_tx (Val ()) v' ((open_pool (open_pool p))\<lparr>heap := h', undo_log := us'\<rparr>)"
    by (rule transaction_run_run [where tx = tx, OF begin_ok]) (unfold q, rule assms(2))
  also have "\<dots> = (Val (), v', (open_pool p)\<lparr>heap := h', undo_log := us'\<rparr>)"
    using assms(1) by (cases p) (simp add: close_tx_def end_pool_def commit_pool_def idle_def open_pool_def)
  finally show ?thesis .
qed

lemma Content_ctor_open:
  assumes idle: "idle p" and a: "h a = Some (TestContent c)" and fin: "finite (dom h)" and len: "length pfx < 2 ^ 64"
  shows "\<exists>b us'. Content_ctor L pfx n a (v, (open_pool p)\<lparr>heap := h, undo_log := us\<rparr>) =
    (Val (), v, (open_pool p)\<lparr>heap := h(b \<mapsto> Bytes pfx,
       a \<mapsto> TestContent \<lparr>content_prefix = b, content_prefixLen = of_nat (length pfx), content_bufSize = n\<rparr>), undo_log := us'\<rparr>) \<and>
    b \<noteq> 0 \<and> h b = None"
proof -
  let ?q = "\<lambda>h us. (open_pool (open_pool p))\<lparr>heap := h, undo_log := us\<rparr>"
  let ?k = "length pfx"
  let ?c1 = "c\<lparr>content_bufSize := n\<rparr>" and ?c2 = "c\<lparr>content_bufSize := n, content_prefixLen := of_nat ?k\<rparr>"
  let ?u1 = "Snapshot a (set_content content_bufSize_update (content_bufSize c)) # us"
  let ?u2 = "Snapshot a (set_content content_prefixLen_update (content_prefixLen ?c1)) # ?u1"
  let ?h2 = "h(a \<mapsto> TestContent ?c2)"
  have n: "unat (of_nat ?k :: u64) = ?k" using len by (simp add: unat_of_nat)
  have at0: "get_content f (TestContent d) = Some (f d)" for f :: "Content \<Rightarrow> 'f" and d by simp
  have "finite (dom ?h2)" using fin by simp
  then obtain b where mk: "make_persistent_array L ?k (Bytes (replicate ?k 0)) (v, ?q ?h2 ?u2) =
      (Val b, v, ?q (?h2(b \<mapsto> Bytes (replicate ?k 0))) (Allocated b # ?u2))" and b: "b \<noteq> 0" "?h2 b = None"
    by (rule make_array_open)
  let ?h3 = "?h2(b \<mapsto> Bytes (replicate ?k 0))"
  let ?c3 = "c\<lparr>content_bufSize := n, content_prefixLen := of_nat ?k, content_prefix := b\<rparr>"
  let ?u3 = "Snapshot a (set_content content_prefix_update (content_prefix ?c2)) # Allocated b # ?u2"
  have ne: "a \<noteq> b" using b by auto
  have set1: "content_set L a content_bufSize content_bufSize_update n (v, ?q h us) = (Val (), v, ?q (h(a \<mapsto> TestContent ?c1)) ?u1)"
    by (subst p_assign_open [where g = "get_content content_bufSize" and h = h and a = a, OF a at0]) simp
  have set2: "content_set L a content_prefixLen content_prefixLen_update (of_nat ?k) (v, ?q (h(a \<mapsto> TestContent ?c1)) ?u1) =
      (Val (), v, ?q ?h2 ?u2)"
    by (subst p_assign_open [where g = "get_content content_prefixLen" and h = "h(a \<mapsto> TestContent ?c1)" and a = a, OF _ at0 [of content_prefixLen ?c1]]) simp_all
  have set3: "content_set L a content_prefix content_prefix_update b (v, ?q ?h3 (Allocated b # ?u2)) =
      (Val (), v, ?q (?h3(a \<mapsto> TestContent ?c3)) ?u3)"
    by (subst p_assign_open [where g = "get_content content_prefix" and h = ?h3 and a = a, OF _ at0 [of content_prefix ?c2]]) (use ne in simp_all)
  have g2: "content_get a content_prefixLen (v, ?q ?h2 ?u2) = (Val (of_nat ?k), v, ?q ?h2 ?u2)"
    by (cases c) (simp add: pread_def)
  have g3: "content_get a content_prefix (v, ?q (?h3(a \<mapsto> TestContent ?c3)) ?u3) = (Val b, v, ?q (?h3(a \<mapsto> TestContent ?c3)) ?u3)"
    by (cases c) (simp add: pread_def)
  have cpy: "memcpy_to b 0 pfx (v, ?q (?h3(a \<mapsto> TestContent ?c3)) ?u3) =
      (Val (), v, ?q (?h3(a \<mapsto> TestContent ?c3, b \<mapsto> Bytes pfx)) ?u3)"
    by (subst memcpy_to_run [where bs = "replicate ?k 0"]) (use ne in \<open>simp_all add: poke_whole\<close>)
  have h: "?h3(a \<mapsto> TestContent ?c3, b \<mapsto> Bytes pfx) =
      h(b \<mapsto> Bytes pfx, a \<mapsto> TestContent \<lparr>content_prefix = b, content_prefixLen = of_nat ?k, content_bufSize = n\<rparr>)"
    using ne by (cases c) (auto simp: fun_eq_iff)
  have "Content_ctor L pfx n a (v, (open_pool p)\<lparr>heap := h, undo_log := us\<rparr>) =
      (Val (), v, (open_pool p)\<lparr>heap := ?h3(a \<mapsto> TestContent ?c3, b \<mapsto> Bytes pfx), undo_log := ?u3\<rparr>)"
    unfolding Content_ctor_def
    by (rule nested_run [OF idle]) (simp only: exec_simps set1 set2 g2 n mk set3 g3 cpy)
  then show ?thesis unfolding h using b ne by (intro exI [of _ b]) auto
qed

text \<open>The first transaction of a round: a content object with its prefix is in the pool and \<open>p_content\<close> refers to it.\<close>

lemma content_made:
  assumes idle: "idle p" and fin: "finite (dom (heap p))" and len: "length pfx < 2 ^ 64"
  shows "\<exists>b c p'. transaction_run L (bindC (make_persistent L 32 raw_content (Content_ctor L pfx n)) set_p_content) (v, p) =
      (Val (), c, p') \<and> idle p' \<and> heap p b = None \<and> heap p c = None \<and> b \<noteq> c \<and>
      heap p' = (heap p)(b \<mapsto> Bytes pfx,
        c \<mapsto> TestContent \<lparr>content_prefix = b, content_prefixLen = of_nat (length pfx), content_bufSize = n\<rparr>)"
proof -
  let ?q = "\<lambda>h us. (open_pool p)\<lparr>heap := h, undo_log := us\<rparr>"
  let ?c = "alloc_off L (?q (heap p) []) 32"
  let ?h1 = "(heap p)(?c \<mapsto> raw_content)"
  have c: "?c \<noteq> 0" using alloc_ok [of "?q (heap p) []" 32] fin by simp
  have c_fresh: "heap p ?c = None" using alloc_fresh [OF c] by simp
  obtain b us' where ctor: "Content_ctor L pfx n ?c (v, ?q ?h1 [Allocated ?c]) =
      (Val (), v, ?q (?h1(b \<mapsto> Bytes pfx,
        ?c \<mapsto> TestContent \<lparr>content_prefix = b, content_prefixLen = of_nat (length pfx), content_bufSize = n\<rparr>)) us')"
    and b: "?h1 b = None"
    using Content_ctor_open [OF idle, of ?h1 ?c _ pfx n v "[Allocated ?c]"] fin len by (fastforce simp: raw_content_def)
  have ne: "b \<noteq> ?c" using b by auto
  have "\<exists>p'. transaction_run L (bindC (make_persistent L 32 raw_content (Content_ctor L pfx n)) set_p_content) (v, p) =
      (Val (), ?c, p') \<and> idle p' \<and> heap p' = ?h1(b \<mapsto> Bytes pfx,
        ?c \<mapsto> TestContent \<lparr>content_prefix = b, content_prefixLen = of_nat (length pfx), content_bufSize = n\<rparr>)"
    by (rule run_open [OF idle])
      (simp add: exec_simps make_persistent_def pmemobj_tx_stage_def pmemobj_tx_alloc_def Let_def c tryC_def ctor set_p_content_def)
  moreover have "?h1(b \<mapsto> Bytes pfx, ?c \<mapsto> X) = (heap p)(b \<mapsto> Bytes pfx, ?c \<mapsto> X)" for X using ne by auto
  ultimately show ?thesis using b c_fresh ne by (metis fun_upd_apply)
qed

end

section \<open>Stored contents\<close>

text \<open>The contents at the offsets \<open>cs\<close> have the prefixes and sizes \<open>ds\<close>.\<close>

definition content_is :: "(nat \<rightharpoonup> pobj) \<Rightarrow> nat \<Rightarrow> byte list \<times> u64 \<Rightarrow> bool" where
  "content_is h c d \<longleftrightarrow> (case d of (pfx, n) \<Rightarrow> length pfx < 2 ^ 64 \<and>
     (\<exists>b. h c = Some (TestContent \<lparr>content_prefix = b, content_prefixLen = of_nat (length pfx), content_bufSize = n\<rparr>) \<and>
       h b = Some (Bytes pfx)))"

fun out_lines :: "nat \<Rightarrow> (byte list \<times> u64) list \<Rightarrow> printed list" where
  "out_lines i [] = []"
| "out_lines i ((pfx, n) # ds) =
     [Index i, Prefix_len (of_nat (length pfx)), Buf_size n, Prefix_chars pfx, Prefix_str pfx] @ out_lines (Suc i) ds"

lemma put_chars_run: "j + n \<le> length bs \<Longrightarrow> put_chars bs j n = Val (take n (drop j bs))"
  by (induction n arbitrary: j) (simp_all add: Cons_nth_drop_Suc [symmetric])

lemma print_content_run:
  assumes "content_is (heap p) c (pfx, n)"
  shows "print_content i c (v, p) =
    (Val [Index i, Prefix_len (of_nat (length pfx)), Buf_size n, Prefix_chars pfx, Prefix_str pfx], v, p)"
proof -
  from assms obtain b where len: "length pfx < 2 ^ 64" and c: "heap p b = Some (Bytes pfx)"
    "heap p c = Some (TestContent \<lparr>content_prefix = b, content_prefixLen = of_nat (length pfx), content_bufSize = n\<rparr>)"
    by (auto simp: content_is_def)
  have u: "unat (of_nat (length pfx) :: u64) = length pfx" using len by (simp add: unat_of_nat)
  have z: "(of_nat (length pfx) :: u64) = 0 \<longleftrightarrow> pfx = []"
    using unat_eq_zero [of "of_nat (length pfx) :: u64"] by (simp only: u length_0_conv)
  have "prefix_bytes c (of_nat (length pfx)) (v, p) = (Val pfx, v, p)"
    using c z by (simp add: prefix_bytes_def exec_simps pread_def)
  moreover have "put_chars pfx 0 (length pfx) = Val pfx" using put_chars_run [of 0 "length pfx" pfx] by simp
  moreover have "peek pfx 0 (length pfx) = Some pfx" by (simp add: peek_def)
  ultimately show ?thesis using c(2) by (simp add: print_content_def exec_simps pread_def liftO_def u del: of_nat_simps)
qed

lemma print_contents_run:
  "list_all2 (content_is (heap p)) cs ds \<Longrightarrow> print_contents i cs (v, p) = (Val (out_lines i ds), v, p)"
proof (induction cs ds arbitrary: i rule: list_all2_induct)
  case (Cons c cs d ds)
  obtain pfx n where "d = (pfx, n)" by (cases d)
  with Cons print_content_run [of p c pfx n i v] show ?case by (simp add: exec_simps)
qed (simp add: returnC_def)

lemma test_print_run:
  assumes "is_map a p css" and "list_all2 (content_is (heap p)) (concat css) ds"
  shows "test_print a (v, p) = (Val (Vector_len (length ds) # out_lines 0 ds), v, p)"
  using print_contents_run [OF assms(2), of 0 v] list_all2_lengthD [OF assms(2)]
  by (simp add: test_print_def exec_simps getAll_is_map [OF assms(1)])

lemma content_is_cong:
  assumes "content_is h c d" and "\<And>x ob. h x = Some ob \<Longrightarrow> get_array ob = None \<Longrightarrow> h' x = Some ob"
  shows "content_is h' c d"
  using assms by (fastforce simp: content_is_def split: prod.splits)

lemma is_map_more:
  assumes "is_map a p css" and "idle p'" and "finite (dom (heap p'))" and "\<And>x ob. heap p x = Some ob \<Longrightarrow> heap p' x = Some ob"
  shows "is_map a p' css"
proof -
  from assms(1) obtain m xs where m: "heap p a = Some (HashMap m)" "heap p (tab m) = Some (NodeArray xs)"
    "length xs = unat (tabLen m)" and css: "list_all2 (chain (heap p)) xs css" by (auto simp: is_map_def)
  have "list_all2 (chain (heap p')) xs css" using css by (rule list_all2_mono) (rule chain_cong [OF _ assms(4)])
  with m assms(2-4) show ?thesis by (auto simp: is_map_def)
qed

lemma concat_insert:
  assumes "i < length css"
  obtains xs ys where "concat css = xs @ ys" and "concat (css[i := c # css ! i]) = xs @ c # ys"
proof
  show "concat css = concat (take i css) @ concat (drop i css)" by (metis append_take_drop_id concat_append)
  show "concat (css[i := c # css ! i]) = concat (take i css) @ c # concat (drop i css)"
    using assms by (simp add: upd_conv_take_nth_drop Cons_nth_drop_Suc [symmetric])
qed

context steady_env
begin

lemma store_content_run:
  assumes m: "is_map a p css" "css \<noteq> []" and ds: "list_all2 (content_is (heap p)) (concat css) ds"
    and str: "length pfx < 2 ^ 64" "unat n \<le> length pfx"
  shows "\<exists>ds1 ds2 c p' css'. ds = ds1 @ ds2 \<and> store_content L a pfx n (v, p) = (Val (), c, p') \<and> is_map a p' css' \<and>
    list_all2 (content_is (heap p')) (concat css') (ds1 @ (pfx, n) # ds2)"
proof -
  have "idle p" "finite (dom (heap p))" using m(1) by (auto simp: is_map_def)
  from content_made [OF this str(1), of n v] obtain b c p1 where
    made: "transaction_run L (bindC (make_persistent L 32 raw_content (Content_ctor L pfx n)) set_p_content) (v, p) = (Val (), c, p1)"
    and p1: "idle p1" "heap p b = None" "heap p c = None" "b \<noteq> c" "heap p1 = (heap p)(b \<mapsto> Bytes pfx,
        c \<mapsto> TestContent \<lparr>content_prefix = b, content_prefixLen = of_nat (length pfx), content_bufSize = n\<rparr>)" by blast
  have keep: "heap p1 x = Some ob" if "heap p x = Some ob" for x ob using that p1 by auto
  have "finite (dom (heap p1))" using p1(5) m(1) by (simp add: is_map_def)
  note m1 = is_map_more [OF m(1) p1(1) this keep]
  let ?h = "content_hashCode_of (take (unat n) pfx)"
  have hash: "content_hashCode c (c, p1) = (Val ?h, c, p1)"
    using content_hashCode_run [of p1 c _ pfx c] p1(4,5) str(2) by simp
  from map_put_ok [where hashCode = content_hashCode, OF m1 m(2) hash] obtain p2 where
    put: "map_put L content_hashCode a c (c, p1) = (Val (), c, p2)"
    and m2: "is_map a p2 (css[unat ?h mod length css := c # css ! (unat ?h mod length css)])"
    and same: "\<forall>x. heap p1 x \<noteq> None \<longrightarrow> get_array (the (heap p1 x)) = None \<longrightarrow> heap p2 x = heap p1 x" by blast
  have "unat ?h mod length css < length css" using m(2) by simp
  then obtain xs ys where xy: "concat css = xs @ ys"
    "concat (css[unat ?h mod length css := c # css ! (unat ?h mod length css)]) = xs @ c # ys" by (rule concat_insert)
  from ds xy(1) obtain ds1 ds2 where d: "ds = ds1 @ ds2" "list_all2 (content_is (heap p)) xs ds1" "list_all2 (content_is (heap p)) ys ds2"
    by (auto simp: list_all2_append1)
  have old: "content_is (heap p2) x d" if "content_is (heap p) x d" for x d
    by (rule content_is_cong [OF that]) (use keep same in force)
  have "content_is (heap p1) c (pfx, n)" using p1(4,5) str(1) by (simp add: content_is_def)
  then have new: "content_is (heap p2) c (pfx, n)" by (rule content_is_cong) (use same in force)
  have "list_all2 (content_is (heap p2)) (xs @ c # ys) (ds1 @ (pfx, n) # ds2)"
    using d(2,3) old new by (intro list_all2_appendI) (auto elim: list_all2_mono)
  moreover have "store_content L a pfx n (v, p) = (Val (), c, p2)"
    by (simp add: store_content_def exec_simps made get_p_content_def put)
  ultimately show ?thesis using d(1) m2 xy(2) by metis
qed

end

section \<open>Properties\<close>

text \<open>
  \<open>Content::hashCode()\<close> sums as many bytes of the prefix as \<open>bufSize_\<close> says: when the prefix has that many, the result is
  the hash that \<open>hashCode(prefix)\<close> gives to them, and otherwise it reads behind the array.
\<close>

theorem content_hash_follows_bufSize:
  assumes "heap p a = Some (TestContent c)" "heap p (content_prefix c) = Some (Bytes bs)"
  shows "content_hashCode a (v, p) =
    (if unat (content_bufSize c) \<le> length bs
     then Val (content_hashCode_of (take (unat (content_bufSize c)) bs)) else Die Out_of_bounds, v, p)"
  using assms by (rule content_hashCode_run)

definition content_pool :: "u64 \<Rightarrow> byte list \<Rightarrow> pmem" where
  "content_pool n bs = raw_map_pool\<lparr>heap := [3 \<mapsto> TestContent \<lparr>content_prefix = 4, content_prefixLen = of_nat (length bs),
     content_bufSize = n\<rparr>, 4 \<mapsto> Bytes bs]\<rparr>"

theorem content_hash_follows_bufSize_witness:
  "content_hashCode 3 ((), content_pool 2 [1, 255]) = (Val 0, (), content_pool 2 [1, 255])"
  using content_hash_follows_bufSize [of "content_pool 2 [1, 255]" 3
      "\<lparr>content_prefix = 4, content_prefixLen = 2, content_bufSize = 2\<rparr>" "[1, 255]" "()"]
  by (simp add: content_pool_def content_hashCode_of_def add_char_def)

text \<open>
  The test never completes its first \<open>put\<close>: the first content has the prefix \<open>"2"\<close>, of one byte, and the size 2, so
  \<open>hashCode()\<close> reads a byte behind the prefix.
\<close>

theorem test_first_put_out_of_bounds:
  assumes "steady_env L E" "idle p" "finite (dom (heap p))"
  shows "\<exists>v' p'. test_puts L p_map 0 13 (v, p) = (Die Out_of_bounds, v', p')"
proof -
  have dec: "decimal 2 = [50]" by (simp add: decimal.simps)
  obtain b c p' where made: "transaction_run L (bindC (make_persistent L 32 raw_content (Content_ctor L (decimal 2) (of_nat 2))) set_p_content) (v, p) =
      (Val (), c, p')" and h: "heap p' c = Some (TestContent \<lparr>content_prefix = b, content_prefixLen = 1, content_bufSize = 2\<rparr>)"
      "heap p' b = Some (Bytes [50])"
    using steady_env.content_made [OF assms, of "decimal 2" 2 v] by (auto simp: dec)
  have "content_hashCode c (c, p') = (Die Out_of_bounds, c, p')"
    using content_hashCode_run [OF h(1), of "[50]" c] h(2) by simp
  then have "map_put L content_hashCode p_map c (c, p') = (Die Out_of_bounds, c, p')"
    by (simp add: map_put_def bindC_def)
  with made have "test_put L p_map 0 (v, p) = (Die Out_of_bounds, c, p')"
    by (simp add: test_put_def store_content_def exec_simps get_p_content_def)
  then show ?thesis by (simp add: eval_nat_numeral exec_simps)
qed

theorem test_first_put_out_of_bounds_witness:
  "\<exists>v' p'. test_puts healthy 1 0 13 (0, two_buckets) = (Die Out_of_bounds, v', p')"
  by (rule test_first_put_out_of_bounds [OF nvm.steady_env_axioms]) (use two_buckets_map in \<open>simp_all add: is_map_def\<close>)

text \<open>C26: What the test stores is what a later run prints: after a content with a prefix of at least \<open>bufSize_\<close> bytes has been made and put, the
  run without arguments on the existing file prints the number of the contents and, for each, its index, the lengths, and its prefix
  twice; the new content appears once, among the old ones in their order.\<close>

theorem stored_content_is_printed:
  assumes "steady_env L E" and "is_map a p css" and "css \<noteq> []" and "list_all2 (content_is (heap p)) (concat css) ds"
    and "length pfx < 2 ^ 64" and "unat n \<le> length pfx" and "argc \<le> 1"
  shows "\<exists>ds1 ds2 p'. ds = ds1 @ ds2 \<and>
    thenC (store_content L a pfx n) (test_main L 0 True a argc) (v, p) =
      (Val (Open_pool # Vector_len (Suc (length ds)) # out_lines 0 (ds1 @ (pfx, n) # ds2)), 0, p')"
proof -
  from steady_env.store_content_run [OF assms(1-6), of v] obtain ds1 ds2 c p' css' where
    ds: "ds = ds1 @ ds2" and d: "store_content L a pfx n (v, p) = (Val (), c, p')" and m: "is_map a p' css'"
    "list_all2 (content_is (heap p')) (concat css') (ds1 @ (pfx, n) # ds2)" by blast
  have "thenC (store_content L a pfx n) (test_main L 0 True a argc) (v, p) =
      (Val (Open_pool # Vector_len (Suc (length ds)) # out_lines 0 (ds1 @ (pfx, n) # ds2)), 0, p')"
    using test_print_run [OF m, of "0 :: nat"] assms(7) d ds by (simp add: test_main_def test_open_def exec_simps set_p_content_def returnC_def)
  with ds show ?thesis by blast
qed

theorem stored_content_is_printed_witness:
  "\<exists>p'. thenC (store_content healthy 1 [50] 1) (test_main healthy 0 True 1 1) (0, two_buckets) =
    (Val [Open_pool, Vector_len 1, Index 0, Prefix_len 1, Buf_size 1, Prefix_chars [50], Prefix_str [50]], 0, p')"
  using stored_content_is_printed [OF nvm.steady_env_axioms two_buckets_map, of "[]" "[50]" 1 1 0] by simp

end
