(* ===== verification/Spec2Isabelle.thy ===== *)
theory Spec2Isabelle
  imports Cache_Restart Concurrent_Arena Pstl_Hash_Map Pool_Api Sync Object_Life Type_Traits Tx_Macros Atomic_List Test_Driver
begin

text \<open>
  A verification of rocksdb-pmdk: a write cache for RocksDB in persistent memory, built on libpmemobj++.

  \<^bold>\<open>The program.\<close> Keys are grouped by prefix. Each prefix has a \<^emph>\<open>range\<close>: a persistent table \<open>NvRangeTab\<close> with
  a byte buffer into which sorted chunks of key-value pairs are appended, and a volatile handle
  \<open>FixedRangeTab\<close> with the list of blocks in the buffer. A persistent hash map finds the table of a prefix.
  \<open>FixedRangeChunkBasedNVMWriteCache\<close> is the interface: \<open>AppendToRange\<close> creates a range on first use and appends
  a chunk, \<open>Get\<close> searches the range of the key from the newest block to the oldest, \<open>MaybeNeedCompaction\<close>
  queues a range, and after a restart \<open>RebuildFromPersistentNode\<close> builds the handles again from what is in the
  pool. All changes of persistent objects go through libpmemobj++, whose headers are part of the
  repository: transactions with an undo log, snapshotting members \<open>p<T>\<close>, fat pointers, allocation,
  locks and pool handles. Beside the cache stand two bump allocators and an unfinished hash map.

  \<^bold>\<open>Execution model.\<close> \<open>Prelude\<close>: a statement is a function from a state to an outcome and a state; the outcome
  is a value, a C++ exception or a fault that ends the process (null dereference, access outside an
  allocation, failed \<open>assert\<close>, \<open>exit\<close>, broken contract of a library call, division by zero, signed overflow, endless loop,
  and the kill of the process from outside).
  Exceptions keep what was written before them. Integers are words of their C++ width; a \<open>size_t\<close> that
  wraps in the source wraps in the model. Byte buffers are lists with checked reads and writes: an access outside an allocation,
  undefined behaviour in C++, is a fault, and the model says nothing about a program after it. Stores to persistent memory
  take effect at once and in order; a crash is the death of the process, which keeps all of them and loses the volatile state. The loss of
  stores that were never flushed, in a power failure, is not modelled.

  \<^bold>\<open>Theories and sources\<close> (paths under \<open>src/\<close>; \<open>pmdk-include/libpmemobj++\<close> and \<open>pmdk-include/libpmemobj\<close> are the libraries):
  \<^item> \<open>Pmemobj\<close>: \<open>libpmemobj/tx_base.h\<close>. The pool as a map from offsets to objects, the transaction stages, the undo log,
    begin, commit, abort, end, lock, snapshot, allocation and free, and \<open>recover\<close>, what opening the pool
    after a crash does. What the library decides is the argument \<open>L\<close>; the locales \<open>pmemobj\<close>,
    \<open>started_pmemobj\<close> and \<open>steady_pmemobj\<close> hold its documented laws (allocations are fresh; begin succeeds; nothing
    fails), interpreted on a library that never fails and on one that is out of memory.
  \<^item> \<open>Pmem_Cpp\<close>: \<open>transaction.hpp\<close> (\<open>exec_tx\<close>, \<open>manual\<close>, \<open>abort\<close>, \<open>commit\<close>), \<open>p.hpp\<close>, \<open>make_persistent.hpp\<close>,
    \<open>make_persistent_array.hpp\<close>, \<open>detail/common.hpp\<close>. The central notion is \<open>tx_safe\<close>: a body after which the undo log
    leads back to the state before the transaction; the rules \<open>tx_safe_intros\<close> build it from the
    operations, and every crash and exception property rests on it.
  \<^item> \<open>Pext\<close>: \<open>pext.hpp\<close>. \<open>Persistent_Ptr\<close>: \<open>persistent_ptr.hpp\<close>, \<open>detail/persistent_ptr_base.hpp\<close>, \<open>libpmemobj/base.h\<close>, with the
    order of the handles as an instance of \<open>linorder\<close>. \<open>Pool_Api\<close>: \<open>pool.hpp\<close> and \<open>utils.hpp\<close> over the C library as a
    record (locale \<open>pool_library\<close>). \<open>Sync\<close>: \<open>mutex.hpp\<close>, \<open>shared_mutex.hpp\<close>, \<open>timed_mutex.hpp\<close>, \<open>condition_variable.hpp\<close>,
    \<open>detail/conversions.hpp\<close> (locales \<open>rwlock_library\<close> and \<open>cond_library\<close>; interleavings of threads are the inductive \<open>sm_reach\<close>, which
    keeps the history of calls and results, within the calls that the headers define).
    \<open>Object_Life\<close>: \<open>transaction::automatic\<close>, \<open>detail/life.hpp\<close>, array allocation with constructors that throw,
    \<open>allocator.hpp\<close>, \<open>make_persistent_atomic.hpp\<close>, \<open>make_persistent_array_atomic.hpp\<close>, \<open>detail/make_atomic_impl.hpp\<close>.
  \<^item> \<open>Type_Traits\<close>: the compile-time layer, \<open>detail/array_traits.hpp\<close>, \<open>detail/specialization.hpp\<close>,
    \<open>detail/check_persistent_ptr_array.hpp\<close>, \<open>detail/integer_sequence.hpp\<close> and the overloads of \<open>detail/life.hpp\<close>: C++ types as a
    datatype, a trait as a function to \<open>cxx_type option\<close>, construction and destruction of nested arrays as events.
  \<^item> \<open>Tx_Macros\<close>: \<open>libpmemobj/tx.h\<close>, the blocks \<open>TX_BEGIN ... TX_END\<close> of the C interface with \<open>setjmp\<close> and \<open>longjmp\<close>, over
    \<open>tx_safe\<close> as well. \<open>Obj_Iter\<close>: \<open>libpmemobj/iterator.h\<close>, searches and loops over the objects of a pool (locale \<open>object_list\<close>).
  \<^item> \<open>Typed_Oid\<close>: \<open>libpmemobj/types.h\<close>, \<open>atomic.h\<close>, \<open>action.h\<close>. The expansion of a layout is a function on the declarations of the translation
    unit; a typed handle is a type name and a handle; the allocator is an argument with the locale \<open>typed_pool\<close>, and
    \<open>typed_reach\<close> are the states that programs of allocations reach. \<open>Atomic_List\<close>: \<open>libpmemobj/lists_atomic.h\<close>, circular lists whose links
    lie in the objects. \<open>is_list\<close> reads the links as a list, the locale \<open>atomic_lists\<close> is the contract of the four functions of the
    library, a splice of pointers is shown to meet it, and \<open>lists_rep\<close> relates a memory to lists of handles.
  \<^item> \<open>Rocksdb_Env\<close>: the functions of RocksDB and CityHash that the sources call, as the argument \<open>E\<close>, with the laws of
    the little-endian integer coding (\<open>coding64\<close>) and of the key comparison (\<open>key_order\<close>).
  \<^item> \<open>Chunk\<close>: \<open>chunkblk.h\<close>, \<open>persistent_chunk.h\<close>, \<open>persistent_chunk_iterator.h\<close> and \<open>.cc\<close>, \<open>searchInChunk\<close> of \<open>fixed_range_tab.cc\<close>,
    and the steps of the unfinished \<open>fixed_range_iterator.h\<close>. The loop that reads the pairs counts with a 32-bit signed integer, so chunks
    of 2 ^ 31 pairs and more are outside of what can be shown.
  \<^item> \<open>Pmem_Objects\<close>: the types of the persistent objects and access to their members, the combined locales \<open>nvm_env\<close>
    and \<open>steady_env\<close>.
  \<^item> \<open>Range_Tab\<close> (definitions and their effects) and \<open>Range_Tab_Correct\<close> (properties): \<open>nv_range_tab.h\<close>, \<open>fixed_range_tab.h\<close>,
    \<open>fixed_range_tab.cc\<close>. The invariant is \<open>range_ok\<close>. \<open>Append_at\<close> marks the points between the statements of \<open>Append\<close>, and
    \<open>kill_points\<close> kills the process at one of them, with a copy done in part; \<open>Append\<close> is \<open>Append_at\<close> with nothing there.
  \<^item> \<open>Pmem_Hash_Map\<close>: \<open>pmem_hash_map.h\<close>, with the abstract store of contents as the locale \<open>content_store\<close>. \<open>Prefix_Map\<close>:
    \<open>pmem_hash_map.cc\<close>. The inductive predicates \<open>chain\<close> and \<open>nodes\<close> read a linked list in the heap as a list.
    \<open>Test_Driver\<close>: \<open>tests/test_pmem_hash_map.cc\<close>, the class \<open>Content\<close> and \<open>main\<close>, which fills the map or prints what it holds.
  \<^item> \<open>Write_Cache\<close>: \<open>fixed_range_chunk_based_nvm_write_cache.h\<close> and \<open>.cc\<close>.
  \<^item> \<open>Cache_Spec\<close>: an abstract cache, a map from prefixes to the free space and the chunks of the range, with the commands append and
    get (\<open>spec_cmd\<close>) and their admissibility (\<open>ok_cmd\<close>); \<open>cache_rep\<close> relates it to a state of the write cache. The locale
    \<open>simulation\<close> of \<open>Prelude\<close> lifts one simulated command to sequences, and \<open>cache_env\<close> discharges its laws for
    \<open>AppendToRange\<close> and \<open>Get\<close>.
  \<^item> \<open>Cache_Restart\<close>: the same specification with restarts (\<open>life_cmd\<close>) and the set of prefixes whose tables have a sequence number
    other than 0, the only ones that keep their chunks over a restart; \<open>life_rep\<close> extends \<open>cache_rep\<close> by what the rebuild will find.
  \<^item> \<open>Nvm_Arena\<close>: \<open>nvm_arena.h\<close> and \<open>.cc\<close>; \<open>Concurrent_Arena\<close>: \<open>concurrentnvmarena.h\<close> and \<open>.cc\<close>. Both interpret the locale
    \<open>region_allocator\<close>, which proves once that regions cut from a shrinking free interval are disjoint.
  \<^item> \<open>Pstl_Hash_Map\<close>: \<open>persistent_hash_map.h\<close> and \<open>.cpp\<close>, \<open>ex_common.h\<close>.
  \<^item> This theory: the composition of all layers, that a write through the interface of the cache survives a
    restart, and the destructor of the cache.

  \<^bold>\<open>What is shown.\<close> For libpmemobj++: transactions are all-or-nothing under exceptions and crashes, so are the
  blocks of the C interface, nested ones included, which always end; the traits select one overload for every type and nested arrays are built and
  destroyed in opposite orders; allocation
  outside transactions is atomic, the pointer cache is transparent, compound assignments compute and log,
  every interleaving of calls of a shared mutex is a history of a reader-writer lock, waiting on a condition ends exactly when the predicate is
  reached; iteration by type sees exactly the objects of the type; a layout numbers its types in order and programs that respect the
  types keep every handle valid; operations on atomic lists mean what they say about lists, and the loops over them visit each element once. For the cache: from the first start on, every
  admissible sequence of appends and look-ups returns what the abstract cache returns, and with restarts in between what the abstract
  cache with durable prefixes returns; chunks round-trip through the iterator and the binary search answers exactly;
  \<open>Append\<close> is atomic wherever the process is killed in it and a rebuild from the pool yields the block list of the handle; \<open>Get\<close> finds what was
  appended, newest first; the maps find what was put; the rebuild recovers every range; the arenas serve
  disjoint aligned regions. The code departs from its intent at several places, and theorems
  state what it does there: a partly built array element is not destroyed, \<open>TX_MEMCPY\<close> ignores a failed snapshot, the test of
  the map reads out of bounds in its first round, a missing key throws instead of \<open>NotFound\<close>, a full buffer is overrun, the first
  chunk of a fresh range and everything in ranges with sequence number 0 are lost on reopening, the largest range is not
  the one compacted, the pointer difference is wrong when negative, and others.

  \<^bold>\<open>Loops.\<close> Loops over a counter are recursive functions with a termination proof. Loops whose end depends on the
  data (\<open>RebuildBlkList\<close>, the bucket walks, the binary search, the waits, the walks over atomic lists) are \<open>partial_function (option)\<close>, where
  \<open>None\<close> is a loop that does not end; that they end on well-formed data is part of the theorems. Only
  the stage loop of a transaction block (\<open>tx_loop\<close>) runs on fuel, because its rounds run arbitrary sections; every round
  advances the stage and there are at most three before \<open>TX_STAGE_NONE\<close>, so four rounds are enough, which
  \<open>tx_block_all_or_nothing\<close> proves.

  \<^bold>\<open>Arguments in place of code that is not there.\<close> The sources have holes: the initial sequence number of a new node
  (\<open>pmem_hash_map.cc\<close>) and the number of buckets (\<open>fixed_range_chunk_based_nvm_write_cache.cc\<close>) are missing expressions, members
  are used under two names, \<open>transaction::run\<close> and \<open>pool::root\<close> are later names of \<open>exec_tx\<close> and \<open>get_root\<close>. The first two
  are arguments, the others are read as the one thing they mean. Uninitialised members are an argument
  \<open>junk\<close>.

  \<^bold>\<open>Not modelled.\<close> \<open>main.cpp\<close> (a greeting) and the progress lines of the test; the merging
  iterator of RocksDB, of which only the list of iterators it receives is modelled; \<open>equals\<close> of \<open>Cobj\<close> and of the range
  table, which do not compile or have no body; the headers under \<open>install/\<close>, which are the same files a second time; \<open>pmemobj_tx_realloc\<close>, of which the headers do not say
  which object it leaves behind (an argument of \<open>TX_REALLOC\<close>); type aliases of the allocator classes; headers of PMDK that only declare
  functions of libraries (\<open>libpmem.h\<close>, \<open>libpmemblk.h\<close>, \<open>libpmemlog.h\<close>, \<open>libpmempool.h\<close>, \<open>libpmemcto.h\<close>, \<open>libvmem.h\<close>, \<open>libvmmalloc.h\<close>, \<open>thread.h\<close>,
  \<open>action_base.h\<close>, \<open>ctl.h\<close>); stream
  output, but for the format of a persistent pointer; signed overflow in \<open>std::chrono\<close> arithmetic; weak memory order: the
  atomics of the concurrent arena are read and written in sequence, with the outcome of each \<open>try_lock\<close> as an argument.
\<close>

section \<open>A write survives a restart\<close>

text \<open>The ranges after the append, as \<open>RebuildFromPersistentNode\<close> will find them.\<close>

definition grow :: "nat \<Rightarrow> ChunkBlk \<Rightarrow> nat \<times> byte list \<times> ChunkBlk list \<Rightarrow> nat \<times> byte list \<times> ChunkBlk list" where
  "grow a nb = (\<lambda>(y, pre, blks). (y, pre, if y = a then blks @ [nb] else blks))"

lemma appended_ranges:
  assumes "list_all2 (list_all2 (\<lambda>x (y, pre, blks). y = x \<and> stored_range E h x pre blks)) nss rss"
    and "appended a t len b' h h'" and "separate h (concat nss)" and "a \<in> set (concat nss)"
    and "\<And>b i blks. h (buf t) = Some (Bytes b) \<Longrightarrow> blocks_at E b i blks (unat (dataLen t)) \<Longrightarrow> blocks_at E b' i (blks @ [nb]) (unat len)"
  shows "list_all2 (list_all2 (\<lambda>x (y, pre, blks). y = x \<and> stored_range E h' x pre blks)) nss (map (map (grow a nb)) rss)"
proof -
  have one: "case grow a nb r of (y, pre, blks) \<Rightarrow> y = x \<and> stored_range E h' x pre blks"
    if "x \<in> set (concat nss)" and "case r of (y, pre, blks) \<Rightarrow> y = x \<and> stored_range E h x pre blks" for x r
  proof (cases "x = a")
    case True
    with that(2) appended_own_range [OF _ assms(2,3,4,5)] show ?thesis by (auto simp: grow_def)
  next
    case False
    with that appended_other_range [OF _ assms(2,3) that(1) assms(4) False] show ?thesis by (auto simp: grow_def)
  qed
  show ?thesis unfolding list_all2_map2
    by (rule list.rel_mono_strong [OF assms(1)], rule list.rel_mono_strong, assumption, rule one) auto
qed

lemma range_nodes:
  assumes "list_all2 (list_all2 (\<lambda>x (y, r). y = x \<and> P x r)) nss rss" and "(a, r) \<in> set (concat rss)"
  shows "a \<in> set (concat nss)"
proof -
  have "map fst (concat rss) = concat nss" using assms(1)
    by (induction rule: list_all2_induct) (auto simp: list_all2_conv_all_nth intro!: nth_equalityI)
  with assms(2) show ?thesis by (metis fst_conv image_eqI list.set_map)
qed

lemma grow_prefix [simp]: "fst (snd (grow a nb r)) = fst (snd r)"
  by (simp add: grow_def split: prod.split)

lemma add_ranges_skip:
  assumes "k \<notin> fst ` snd ` set rs"
  shows "map_of (prefix2range (add_ranges junk rs v)) k = map_of (prefix2range v) k"
proof -
  have "map_of (fold (\<lambda>(a, pre, blks). put_range pre (recovered junk a blks)) rs kts) k = map_of kts k" for kts
    using assms by (induction rs arbitrary: kts) auto
  then show ?thesis by (simp add: add_ranges_def)
qed

lemma add_ranges_lookup:
  assumes "distinct (map (fst \<circ> snd) rs)" and "(a, k, blks) \<in> set rs"
  shows "map_of (prefix2range (add_ranges junk rs v)) k = Some (recovered junk a blks)"
  using assms
proof (induction rs arbitrary: v)
  case (Cons r rs)
  have step: "add_ranges junk (r # rs) v = add_ranges junk rs (add_ranges junk [r] v)" by (simp add: add_ranges_def)
  show ?case
  proof (cases "r = (a, k, blks)")
    case True
    with Cons.prems have "k \<notin> fst ` snd ` set rs" by (auto simp: image_comp)
    from add_ranges_skip [OF this, of junk "add_ranges junk [r] v"] True show ?thesis
      unfolding step by (simp add: add_ranges_def)
  next
    case False
    with Cons show ?thesis unfolding step by simp
  qed
qed simp

text \<open>C5: A write survives a restart, from the interface of the cache down to the bytes: \<open>AppendToRange\<close> of a chunk of sorted pairs
  to a range of the persistent prefix map returns, and when the pool is then reopened with all volatile
  state gone, \<open>RebuildFromPersistentNode\<close> returns and \<open>Get\<close> of a key of the chunk finds its value. The
  ranges of the map are stored (with a sequence number different from 0, which selects the rebuild), have distinct prefixes
  and do not overlap; the range has room for the chunk. The chunk has the layout that \<open>PersistentChunkIterator\<close> reads, not the documented one: 8 further bytes for each
  pair follow the offset table. It has fewer than 2 ^ 31 pairs; its first 8 bytes of filter admit the key (\<open>KeyMayMatch\<close>) and the options say
  \<open>chunk_bloom_bits = 8\<close>; the library calls do not fail, and keys are compared by a total order.\<close>

theorem cache_append_survives_restart:
  assumes "steady_env L E" and "key_order E" and "heap p (pinfo v) = Some (Info pin)"
    and "is_prefix_map (range_map pin) p nss" and "separate (heap p) (concat nss)"
    and "list_all2 (list_all2 (\<lambda>x (y, pre, blks). y = x \<and> stored_range E (heap p) x pre blks)) nss rss"
    and "distinct (map (fst \<circ> snd) (concat rss))" and "(a, meta_prefix meta, blks) \<in> set (concat rss)"
    and "map_of (prefix2range v) (meta_prefix meta) = Some h" and "nonVolatileTab h = a"
    and "heap p a = Some (RangeTab t)" and "heap p (buf t) = Some (Bytes b)" and "length b < 2 ^ 63" and "key_range t = 0"
    and "chunk_bloom_bits E = 8" and "8 \<le> length bloom" and "length (cur_start meta) + length (cur_end meta) + 16 < 2 ^ 64"
    and "length gap = 8 * length kvs \<and> length kvs < 2 ^ 31" and "keys_sorted E kvs"
    and "unat (dataLen t) + 16 + length (chunk_bytes E gap kvs) \<le> length b"
    and "in_chunk E kvs key = Some val" and "KeyMayMatch E key (take 8 bloom)" and "prefix_extractor E key = meta_prefix meta"
    and "pinfo v0 = pinfo v"
  shows "\<exists>w p' u. AppendToRange L E seq0 junk bloom (chunk_bytes E gap kvs) meta (v, p) = (Val (), w, p') \<and>
    RebuildFromPersistentNode E junk' (v0, recover p') = (Val (), u, recover p') \<and>
    cache_Get E key (u, recover p') = (Val (OK val), u, recover p')"
proof -
  let ?k = "meta_prefix meta" and ?c = "chunk_bytes E gap kvs"
  let ?nb = "new_block E (dataLen t) ?c"
  note coding = steady_env.axioms(2) [OF assms(1)]
  from assms(4) have idle: "idle p" "finite (dom (heap p))" by (auto simp: is_prefix_map_def)
  obtain b' where poke: "poke b (unat (dataLen t)) (block_bytes E bloom ?c) = Some b'"
    using assms(20) coding64.block_bytes_length [OF coding assms(16)] by (simp add: poke_def)
  let ?len = "dataLen t + 8 + 8 + of_nat (length ?c)"
  from steady_env.Append_frame [OF assms(1,11,12,10) idle assms(13,14,16,17) poke] obtain p' where
    run: "Append L E bloom ?c (cur_start meta) (cur_end meta) (h, p) = (Val (), h\<lparr>blklist := blklist h @ [?nb]\<rparr>, p')"
    and p': "idle p'" "finite (dom (heap p'))" "extends ((heap p)(buf t \<mapsto> Bytes b', a \<mapsto> RangeTab (t\<lparr>dataLen := ?len\<rparr>))) (heap p')"
    and len: "unat ?len = unat (dataLen t) + 16 + length ?c" by auto
  have app: "appended a t ?len b' (heap p) (heap p')"
    using assms(11,12) p'(3) poke_length [OF poke] by (simp add: appended_def)
  have blocks: "blocks_at E b' i (bs @ [?nb]) (unat ?len)" if "heap p (buf t) = Some (Bytes c)" "blocks_at E c i bs (unat (dataLen t))" for c i bs
    using coding64.append_blocks [OF coding assms(15,16) _ _ poke, of i bs] that assms(12,13) len by simp
  have a: "a \<in> set (concat nss)" by (rule range_nodes [OF _ assms(8)]) (use assms(6) in simp)
  let ?rss = "map (map (grow a ?nb)) rss"
  have stored: "list_all2 (list_all2 (\<lambda>x (y, pre, blks). y = x \<and> stored_range E (heap p') x pre blks)) nss ?rss"
    by (rule appended_ranges [OF assms(6) app assms(5) a blocks])
  have map': "is_prefix_map (range_map pin) p' nss" by (rule appended_prefix_map [OF assms(4) app assms(5) a p'(1,2)])
  have "pinfo v \<noteq> a" "pinfo v \<noteq> buf t" using assms(3,11,12) by auto
  with appended_tab(3) [OF app assms(3)] assms(24) have info: "heap p' (pinfo v0) = Some (Info pin)" by simp
  let ?u = "add_ranges junk' (concat ?rss) v0"
  have reb: "RebuildFromPersistentNode E junk' (v0, p') = (Val (), ?u, p')"
    by (rule coding64.RebuildFromPersistentNode_ok [OF coding info map' stored])
  have "(a, ?k, blks @ [?nb]) \<in> set (concat ?rss)" using assms(8) by (force simp: grow_def map_concat [symmetric])
  moreover have "distinct (map (fst \<circ> snd) (concat ?rss))" using assms(7) by (simp add: map_concat comp_def)
  ultimately have lk: "map_of (prefix2range ?u) ?k = Some (recovered junk' a (blks @ [?nb]))" by (intro add_ranges_lookup)
  have "tab_Get E key (recovered junk' a (blks @ [?nb]), p') = (Val (OK val), recovered junk' a (blks @ [?nb]), p')"
    by (rule coding64.newest_block_found [OF coding assms(2,15,16,13,18,19) poke assms(21,22), where t = "t\<lparr>dataLen := ?len\<rparr>"])
      (use appended_tab(1,2) [OF app] in \<open>simp_all add: recovered_def\<close>)
  then have get: "cache_Get E key (?u, p') = (Val (OK val), ?u, p')" by (intro cache_Get_run) (simp add: assms(23) lk)
  have "AppendToRange L E seq0 junk bloom ?c meta (v, p) =
      (Val (), v\<lparr>prefix2range := put_range ?k (h\<lparr>blklist := blklist h @ [?nb]\<rparr>) (prefix2range v)\<rparr>, p')"
    using assms(9) on_range_run [where m = "Append L E bloom ?c (cur_start meta) (cur_end meta)", OF assms(9) run]
    by (simp add: AppendToRange_def exec_simps vget_run)
  with reb get show ?thesis by (auto simp: idle_recover [OF p'(1)])
qed

theorem cache_append_survives_restart_witness:
  "\<exists>w p' u. AppendToRange healthy default_rocksdb 0 demo_range (replicate 8 1) (chunk_bytes default_rocksdb (replicate 8 0) [([65], [6])])
      \<lparr>meta_prefix = [65], cur_start = [65], cur_end = [65]\<rparr> (demo_cache [([65], cache_handle 3)], cache_pool) = (Val (), w, p') \<and>
    RebuildFromPersistentNode default_rocksdb demo_range (demo_cache [], recover p') = (Val (), u, recover p') \<and>
    cache_Get default_rocksdb [65] (u, recover p') = (Val (OK [6]), u, recover p')"
proof -
  have "stored_range default_rocksdb (heap cache_pool) 3 [65] []"
    by (simp add: stored_range_def cache_pool_def) (simp add: cache_tab_def)
  then have r: "list_all2 (list_all2 (\<lambda>x (y, pre, blks). y = x \<and> stored_range default_rocksdb (heap cache_pool) x pre blks))
      [[3]] [[(3, [65], [])]]" by simp
  have m: "is_prefix_map (range_map cache_info) cache_pool [[3]]" using cache_prefix_map by (simp add: cache_info_def)
  have s: "separate (heap cache_pool) (concat [[3]])" by (simp add: separate_def cache_pool_def cache_tab_def)
  show ?thesis
    by (rule cache_append_survives_restart [OF nvm.steady_env_axioms bytewise.key_order_axioms _ m s r,
          where t = "cache_tab 16 1" and b = "replicate 100 0" and a = 3 and h = "cache_handle 3" and kvs = "[([65], [6])]" and blks = "[]"])
       (simp_all add: demo_cache_def cache_pool_def cache_tab_def cache_handle_def keys_sorted_def in_chunk_def chunk_bytes_def
         le.offset_table_length pairs_bytes_def encode_pair_def demo_prefix)
qed

section \<open>The destructor of the cache\<close>

text \<open>\<open>delete vinfo_\<close> drops the volatile state; then the pool is closed if the handle is not null.\<close>

definition WriteCache_dtor :: "'s pool_lib \<Rightarrow> ('s, unit) pool_op" where
  "WriteCache_dtor lib = bindC pool_get_handle (\<lambda>pop. if pop \<noteq> 0 then pool_close lib else returnC ())"

text \<open>
  The destructor of the cache never throws: with a null handle it does nothing, with a live one it closes exactly that
  pool, and a second run changes nothing more.
\<close>

theorem cache_destructor_closes_once:
  assumes "pool_library lib live" "h = 0 \<or> h \<in> live s"
  shows "\<exists>s'. WriteCache_dtor lib (h, s) = (Val (), 0, s') \<and> live s' = (if h = 0 then live s else live s - {h}) \<and>
    WriteCache_dtor lib (0, s') = (Val (), 0, s')"
proof (cases "h = 0")
  case True
  then show ?thesis by (simp add: WriteCache_dtor_def pool_get_handle_def getC_def exec_simps)
next
  case False
  with assms have "h \<in> live s" by simp
  with False show ?thesis
    using pool_library.close_run [OF assms(1) False]
    by (simp add: WriteCache_dtor_def pool_get_handle_def getC_def exec_simps)
qed

theorem cache_destructor_closes_once_witness:
  "\<exists>s'. WriteCache_dtor counting_lib (1, 1, [1]) = (Val (), 0, s') \<and> set (snd s') = {}"
  using cache_destructor_closes_once [OF counting.pool_library_axioms, of 1 "(1, [1])"] by (auto simp: case_prod_unfold)

end
